(* ===== verification/Shell_Prelude.thy ===== *)
theory Shell_Prelude
  imports Main "HOL-Library.Word"
begin

text \<open>
  Shared vocabulary of the development: the C++ exceptions the sources throw, the
  character classes of \<^verbatim>\<open><cctype>\<close>, and the searching members of
  \<^verbatim>\<open>std::string_view\<close> (\<open>find\<close>, \<open>find_first_of\<close>, \<open>find_first_not_of\<close>,
  \<open>find_last_not_of\<close>, \<open>substr\<close>) on which every string routine of
  \<^verbatim>\<open>mysqlshdk/libs/utils\<close> is built, with the generic lemmas about them.

  A \<^verbatim>\<open>std::string\<close> or \<^verbatim>\<open>std::string_view\<close> is a \<^typ>\<open>string\<close> (a list of bytes),
  \<open>npos\<close> is \<^const>\<open>None\<close>, and an offset is a \<^typ>\<open>nat\<close>.
\<close>

named_theorems find_simps \<open>how the searching members behave on concrete and composed strings\<close>
named_theorems span_bounds \<open>where the result of a scan can lie\<close>

section \<open>Exceptions\<close>

datatype exn =
    Invalid_argument string
  | Out_of_range string
  | Logic_error string
  | Runtime_error string
  | Argument_error string

type_synonym 'a res = "exn + 'a"

definition bind_res :: "'a res \<Rightarrow> ('a \<Rightarrow> 'b res) \<Rightarrow> 'b res" where
  "bind_res m f = (case m of Inl e \<Rightarrow> Inl e | Inr x \<Rightarrow> f x)"

lemma bind_res_simps [simp]:
  "bind_res (Inl e) f = Inl e"
  "bind_res (Inr x) f = f x"
  by (simp_all add: bind_res_def)

lemma bind_res_eq_Inr:
  "bind_res m f = Inr y \<longleftrightarrow> (\<exists>x. m = Inr x \<and> f x = Inr y)"
  by (cases m) auto

lemma bind_res_eq_Inl:
  "bind_res m f = Inl e \<longleftrightarrow> m = Inl e \<or> (\<exists>x. m = Inr x \<and> f x = Inl e)"
  by (cases m) auto

section \<open>Characters\<close>

abbreviation (input) code :: "char \<Rightarrow> nat" where
  "code c \<equiv> of_char c"

abbreviation backslash :: char where "backslash \<equiv> CHR 0x5C"
abbreviation squote :: char where "squote \<equiv> CHR 0x27"
abbreviation dquote :: char where "dquote \<equiv> CHR 0x22"
abbreviation backtick :: char where "backtick \<equiv> CHR 0x60"
abbreviation newline :: char where "newline \<equiv> CHR 0x0A"
abbreviation nul :: char where "nul \<equiv> CHR 0x00"

text \<open>The value of a \<^verbatim>\<open>char\<close>, which is signed on the platforms the sources target.\<close>

definition schar :: "char \<Rightarrow> int" where
  "schar c = (if code c < 128 then int (code c) else int (code c) - 256)"

definition isdigit :: "char \<Rightarrow> bool" where
  "isdigit c \<longleftrightarrow> 48 \<le> code c \<and> code c \<le> 57"

definition isalpha :: "char \<Rightarrow> bool" where
  "isalpha c \<longleftrightarrow> (65 \<le> code c \<and> code c \<le> 90) \<or> (97 \<le> code c \<and> code c \<le> 122)"

definition isspace :: "char \<Rightarrow> bool" where
  "isspace c \<longleftrightarrow> code c = 32 \<or> (9 \<le> code c \<and> code c \<le> 13)"

definition isxdigit :: "char \<Rightarrow> bool" where
  "isxdigit c \<longleftrightarrow> isdigit c \<or> (65 \<le> code c \<and> code c \<le> 70)
     \<or> (97 \<le> code c \<and> code c \<le> 102)"

definition tolower :: "char \<Rightarrow> char" where
  "tolower c = (if 65 \<le> code c \<and> code c \<le> 90 then char_of (code c + 32) else c)"

definition toupper :: "char \<Rightarrow> char" where
  "toupper c = (if 97 \<le> code c \<and> code c \<le> 122 then char_of (code c - 32) else c)"

lemma code_less [simp]: "code c < 256"
  by (cases c) (simp add: of_char_def)

lemma all_bytes_list: "(\<forall>c. P (code c)) \<longleftrightarrow> list_all P [0..<256]"
proof
  assume all: "\<forall>c. P (code c)"
  have "P n" if "n < 256" for n
    using all [rule_format, of "char_of n"] that by (simp add: of_char_of)
  then show "list_all P [0..<256]" by (simp add: list_all_iff)
qed (simp add: list_all_iff)


lemma all_chars_list: "(\<forall>c. P c) \<longleftrightarrow> list_all (\<lambda>n. P (char_of n)) [0..<256]"
  using all_bytes_list [of "\<lambda>n. P (char_of n)"] by simp

lemma code_char_of [simp]: "n < 256 \<Longrightarrow> code (char_of n) = n"
  by (simp add: of_char_of)

lemma code_inject [simp]: "code c = code d \<longleftrightarrow> c = d"
  by (rule of_char_eq_iff)

section \<open>Searching\<close>

text \<open>
  The searching members of \<^verbatim>\<open>std::string_view\<close>. Each takes the start offset the call
  gives it; \<^const>\<open>None\<close> is \<open>npos\<close>.
\<close>

primrec index_of :: "('a \<Rightarrow> bool) \<Rightarrow> 'a list \<Rightarrow> nat option" where
  "index_of P [] = None"
| "index_of P (x # xs) = (if P x then Some 0 else map_option Suc (index_of P xs))"

fun index_sub :: "'a list \<Rightarrow> 'a list \<Rightarrow> nat option" where
  "index_sub n [] = (if n = [] then Some 0 else None)"
| "index_sub n (x # xs) =
     (if take (length n) (x # xs) = n then Some 0 else map_option Suc (index_sub n xs))"

definition find_if_from :: "('a \<Rightarrow> bool) \<Rightarrow> 'a list \<Rightarrow> nat \<Rightarrow> nat option" where
  "find_if_from P s pos = map_option ((+) pos) (index_of P (drop pos s))"

definition find_char :: "'a list \<Rightarrow> 'a \<Rightarrow> nat \<Rightarrow> nat option" where
  "find_char s c pos = find_if_from (\<lambda>x. x = c) s pos"

definition find_first_of :: "'a list \<Rightarrow> 'a list \<Rightarrow> nat \<Rightarrow> nat option" where
  "find_first_of s chars pos = find_if_from (\<lambda>x. x \<in> set chars) s pos"

definition find_first_not_of :: "'a list \<Rightarrow> 'a list \<Rightarrow> nat \<Rightarrow> nat option" where
  "find_first_not_of s chars pos = find_if_from (\<lambda>x. x \<notin> set chars) s pos"

definition find_last_not_of :: "'a list \<Rightarrow> 'a list \<Rightarrow> nat option" where
  "find_last_not_of s chars =
     map_option (\<lambda>i. length s - 1 - i) (index_of (\<lambda>x. x \<notin> set chars) (rev s))"

definition find_sub :: "'a list \<Rightarrow> 'a list \<Rightarrow> nat \<Rightarrow> nat option" where
  "find_sub s n pos =
     (if pos \<le> length s then map_option ((+) pos) (index_sub n (drop pos s)) else None)"

definition substr :: "'a list \<Rightarrow> nat \<Rightarrow> nat \<Rightarrow> 'a list" where
  "substr s pos n = take n (drop pos s)"

lemmas find_defs = find_if_from_def find_char_def find_first_of_def find_first_not_of_def

lemma index_of_Some_iff:
  "index_of P xs = Some i \<longleftrightarrow> i < length xs \<and> P (xs ! i) \<and> (\<forall>j < i. \<not> P (xs ! j))"
proof (induction xs arbitrary: i)
  case (Cons x xs)
  show ?case
  proof (cases i)
    case 0
    then show ?thesis by auto
  next
    case (Suc k)
    then show ?thesis using Cons.IH [of k] by (auto simp: All_less_Suc2)
  qed
qed simp

lemma index_of_None_iff [find_simps]: "index_of P xs = None \<longleftrightarrow> (\<forall>x \<in> set xs. \<not> P x)"
  by (induction xs) auto

lemma index_of_lengthD: "index_of P xs = Some i \<Longrightarrow> i < length xs"
  by (simp add: index_of_Some_iff)

lemma index_of_append [find_simps]:
  "index_of P (xs @ ys) =
     (case index_of P xs of Some i \<Rightarrow> Some i | None \<Rightarrow> map_option ((+) (length xs)) (index_of P ys))"
proof (induction xs)
  case Nil
  show ?case by (cases "index_of P ys") simp_all
next
  case (Cons x xs)
  then show ?case by (cases "index_of P ys") (auto split: option.splits)
qed

lemma index_of_skip:
  "\<forall>x \<in> set xs. \<not> P x \<Longrightarrow> P y \<Longrightarrow> index_of P (xs @ y # ys) = Some (length xs)"
  by (induction xs) auto

lemma index_of_takeWhile:
  "index_of P xs = Some i \<Longrightarrow> take i xs = takeWhile (\<lambda>x. \<not> P x) xs"
  by (induction xs arbitrary: i) (auto split: if_splits)

lemma index_of_split:
  assumes "index_of P xs = Some i"
  shows "xs = take i xs @ xs ! i # drop (Suc i) xs" "\<forall>x \<in> set (take i xs). \<not> P x" "P (xs ! i)"
  using assms by (auto simp: index_of_Some_iff id_take_nth_drop in_set_conv_nth)

lemma find_if_from_bounds [span_bounds]:
  "find_if_from P s pos = Some p \<Longrightarrow> pos \<le> p \<and> p < length s \<and> P (s ! p)"
  by (auto simp: find_if_from_def index_of_Some_iff)

lemma find_if_from_least:
  "find_if_from P s pos = Some p \<Longrightarrow> pos \<le> j \<Longrightarrow> j < p \<Longrightarrow> \<not> P (s ! j)"
  using le_Suc_ex [of pos j] by (auto simp: find_if_from_def index_of_Some_iff)

lemma find_if_from_None:
  "find_if_from P s pos = None \<longleftrightarrow> (\<forall>j. pos \<le> j \<longrightarrow> j < length s \<longrightarrow> \<not> P (s ! j))"
  (is "?l = ?r")
proof -
  have "?l \<longleftrightarrow> (\<forall>i < length s - pos. \<not> P (s ! (pos + i)))"
    by (simp add: find_if_from_def index_of_None_iff all_set_conv_all_nth)
  also have "\<dots> \<longleftrightarrow> ?r"
    by (auto simp: less_diff_conv add.commute) (metis le_add_diff_inverse2 le_Suc_ex)
  finally show ?thesis .
qed

lemma index_sub_Some_iff:
  "index_sub n s = Some i \<longleftrightarrow>
     i \<le> length s \<and> take (length n) (drop i s) = n \<and> (\<forall>j < i. take (length n) (drop j s) \<noteq> n)"
proof (induction n s arbitrary: i rule: index_sub.induct)
  case (2 n x xs)
  show ?case
  proof (cases i)
    case 0
    then show ?thesis by auto
  next
    case (Suc k)
    then show ?thesis using "2.IH" [of k] by (auto simp: All_less_Suc2)
  qed
qed auto

lemma index_sub_None_iff:
  "index_sub n s = None \<longleftrightarrow> (\<forall>i \<le> length s. take (length n) (drop i s) \<noteq> n)"
proof (induction n s rule: index_sub.induct)
  case (2 n x xs)
  have "(\<forall>i \<le> Suc (length xs). take (length n) (drop i (x # xs)) \<noteq> n) \<longleftrightarrow>
        take (length n) (x # xs) \<noteq> n \<and> (\<forall>i \<le> length xs. take (length n) (drop i xs) \<noteq> n)"
    (is "?l = ?r")
  proof
    assume l: ?l
    have "take (length n) (drop i xs) \<noteq> n" if "i \<le> length xs" for i
      using l [rule_format, of "Suc i"] that by simp
    then show ?r using l [rule_format, of 0] by simp
  next
    assume r: ?r
    show ?l
    proof (intro allI impI)
      fix i assume "i \<le> Suc (length xs)"
      with r show "take (length n) (drop i (x # xs)) \<noteq> n" by (cases i) auto
    qed
  qed
  with 2 show ?case by auto
qed auto

lemma index_sub_bounds:
  assumes "index_sub n s = Some i"
  shows "i + length n \<le> length s"
proof -
  from assms have i: "i \<le> length s" and t: "take (length n) (drop i s) = n"
    by (auto simp: index_sub_Some_iff)
  have "length n \<le> length s - i" using arg_cong [OF t, of length] by simp
  with i show ?thesis by simp
qed

lemma find_sub_bounds [span_bounds]:
  assumes "find_sub s n pos = Some p"
  shows "pos \<le> p \<and> p + length n \<le> length s"
proof -
  from assms obtain i where i: "index_sub n (drop pos s) = Some i" "p = pos + i" "pos \<le> length s"
    by (auto simp: find_sub_def split: if_splits)
  from index_sub_bounds [OF i(1)] i(2,3) show ?thesis by simp
qed

lemma substr_all [simp]: "substr s 0 (length s) = s"
  by (simp add: substr_def)

section \<open>Decimal numbers\<close>

text \<open>\<^verbatim>\<open>std::to_string\<close> of an integer, and the value of a string of digits.\<close>

fun nat_digits :: "nat \<Rightarrow> string" where
  "nat_digits n =
     (if n < 10 then [char_of (48 + n)] else nat_digits (n div 10) @ [char_of (48 + n mod 10)])"

declare nat_digits.simps [simp del]

definition to_string :: "int \<Rightarrow> string" where
  "to_string n = (if n < 0 then CHR ''-'' # nat_digits (nat (- n)) else nat_digits (nat n))"

definition digits_value :: "string \<Rightarrow> nat" where
  "digits_value s = foldl (\<lambda>v c. v * 10 + (code c - 48)) 0 s"

lemma nat_digits_nonempty [simp]: "nat_digits n \<noteq> []"
  by (subst nat_digits.simps) simp

lemma nat_digits_isdigit: "list_all isdigit (nat_digits n)"
proof (induction n rule: nat_digits.induct)
  case (1 n)
  have "isdigit (char_of (48 + n mod 10))" "n < 10 \<Longrightarrow> isdigit (char_of (48 + n))"
    by (simp_all add: isdigit_def)
  with 1 show ?case by (subst nat_digits.simps) simp
qed

lemma digits_value_append [simp]: "digits_value (s @ [c]) = digits_value s * 10 + (code c - 48)"
  by (simp add: digits_value_def)

lemma digits_value_Nil [simp]: "digits_value [] = 0"
  by (simp add: digits_value_def)

lemma digits_value_nat_digits [simp]: "digits_value (nat_digits n) = n"
proof (induction n rule: nat_digits.induct)
  case (1 n)
  show ?case
  proof (cases "n < 10")
    case True
    then show ?thesis using digits_value_append [of "[]"] by (subst nat_digits.simps) simp
  next
    case False
    with 1 show ?thesis by (subst nat_digits.simps) simp
  qed
qed

section \<open>Encoders and decoders\<close>

text \<open>
  The contract of an encoder and its decoder on the values \<open>ok\<close> accepts. It is interpreted on
  the quoting, percent encoding, bit string, version and GTID printers of the program.
\<close>

locale codec =
  fixes enc :: "'a \<Rightarrow> 'b" and dec :: "'b \<Rightarrow> 'c" and ok :: "'a \<Rightarrow> bool" and val :: "'a \<Rightarrow> 'c"
  assumes dec_enc: "ok x \<Longrightarrow> dec (enc x) = val x"
begin

lemma enc_determines: "ok x \<Longrightarrow> ok y \<Longrightarrow> enc x = enc y \<Longrightarrow> val x = val y"
  by (metis dec_enc)

lemma dec_all: "list_all ok xs \<Longrightarrow> map (dec \<circ> enc) xs = map val xs"
  by (induction xs) (simp_all add: dec_enc)

lemma enc_distinct: "ok x \<Longrightarrow> ok y \<Longrightarrow> val x \<noteq> val y \<Longrightarrow> enc x \<noteq> enc y"
  by (metis dec_enc)

end

end
