(* ===== verification/Strings.thy ===== *)
theory Strings
  imports Shell_Prelude
begin

text \<open>
  The string utilities of \<^verbatim>\<open>mysqlshdk/libs/utils/utils_string.{h,cc}\<close>: case-insensitive
  comparison, stripping, partitioning, splitting and joining, replacing, quoting, line
  breaking, bit strings, percent encoding and variable substitution. The lemmas are in
  \<open>Strings_Facts\<close>, the UTF-8 validator of the same file in \<open>Utf8\<close>.

  Two routines of the source file read bytes at \<^verbatim>\<open>data() + i\<close> without checking that
  \<open>i\<close> lies inside the view (\<open>is_valid_utf8\<close>, \<open>pctdecode\<close>). They take a memory
  \<open>m :: nat \<Rightarrow> char\<close> (the byte at each distance from \<^verbatim>\<open>data()\<close>) and the length of
  the view, so that what they do past its end is part of the model; \<open>c_str s\<close> is the
  memory of a \<^verbatim>\<open>std::string\<close>, which ends with a NUL byte.
\<close>

section \<open>Definitions\<close>

subsection \<open>Case conversion and comparison\<close>

definition str_upper :: "string \<Rightarrow> string" where
  "str_upper s = map toupper s"

definition str_lower :: "string \<Rightarrow> string" where
  "str_lower s = map tolower s"

text \<open>
  \<^verbatim>\<open>strncasecmp(a, b, n)\<close>, as \<open>str_casecmp\<close> calls it: at most \<open>n\<close> bytes are
  compared, and the comparison stops at a NUL byte. A byte past the end of the list is the
  NUL that ends a C string.
\<close>

fun str_casecmp :: "string \<Rightarrow> string \<Rightarrow> nat \<Rightarrow> int" where
  "str_casecmp a b 0 = 0"
| "str_casecmp a b (Suc n) =
     (let ca = (case a of [] \<Rightarrow> nul | x # _ \<Rightarrow> tolower x);
          cb = (case b of [] \<Rightarrow> nul | x # _ \<Rightarrow> tolower x)
      in if ca \<noteq> cb then int (code ca) - int (code cb)
         else if ca = nul then 0
         else str_casecmp (tl a) (tl b) n)"

definition str_caseeq :: "string \<Rightarrow> string \<Rightarrow> bool" where
  "str_caseeq a b \<longleftrightarrow> length a = length b \<and> str_casecmp a b (length a) = 0"

definition str_beginswith :: "string \<Rightarrow> string \<Rightarrow> bool" where
  "str_beginswith s prefix \<longleftrightarrow> substr s 0 (length prefix) = prefix"

definition str_ibeginswith :: "string \<Rightarrow> string \<Rightarrow> bool" where
  "str_ibeginswith s prefix \<longleftrightarrow>
     length prefix \<le> length s \<and> str_casecmp s prefix (length prefix) = 0"

definition str_endswith :: "string \<Rightarrow> string \<Rightarrow> bool" where
  "str_endswith s suffix \<longleftrightarrow>
     length suffix \<le> length s \<and>
     substr s (length s - length suffix) (length suffix) = suffix"

definition str_iendswith :: "string \<Rightarrow> string \<Rightarrow> bool" where
  "str_iendswith s suffix \<longleftrightarrow>
     length suffix \<le> length s \<and>
     str_casecmp (drop (length s - length suffix) s) suffix (length suffix) = 0"

fun str_span_loop :: "string \<Rightarrow> string \<Rightarrow> nat \<Rightarrow> nat option" where
  "str_span_loop (x # xs) (y # ys) p = (if x \<noteq> y then Some p else str_span_loop xs ys (p + 1))"
| "str_span_loop [] [] p = None"
| "str_span_loop _ _ p = Some p"

definition str_span :: "string \<Rightarrow> string \<Rightarrow> nat option" where
  "str_span s1 s2 = str_span_loop s1 s2 0"

subsection \<open>Stripping, partitioning, padding\<close>

definition whitespace :: string where
  "whitespace = [CHR 0x20, CHR 0x0D, newline, CHR 0x09]"

definition str_strip_view :: "string \<Rightarrow> string \<Rightarrow> string" where
  "str_strip_view s chars =
     (case find_first_not_of s chars 0 of
        None \<Rightarrow> []
      | Some begin_ \<Rightarrow>
          (case find_last_not_of s chars of
             None \<Rightarrow> drop begin_ s
           | Some end_ \<Rightarrow> substr s begin_ (end_ - begin_ + 1)))"

definition str_lstrip_view :: "string \<Rightarrow> string \<Rightarrow> string" where
  "str_lstrip_view s chars =
     (case find_first_not_of s chars 0 of None \<Rightarrow> [] | Some begin_ \<Rightarrow> drop begin_ s)"

definition str_rstrip_view :: "string \<Rightarrow> string \<Rightarrow> string" where
  "str_rstrip_view s chars =
     (case find_last_not_of s chars of None \<Rightarrow> [] | Some end_ \<Rightarrow> substr s 0 (end_ + 1))"

text \<open>\<open>str_partition\<close> also reports through \<open>found_sep\<close> whether the separator was found.\<close>

definition str_partition :: "string \<Rightarrow> string \<Rightarrow> (string \<times> string) \<times> bool" where
  "str_partition s sep =
     (case find_sub s sep 0 of
        None \<Rightarrow> ((s, []), False)
      | Some p \<Rightarrow> ((substr s 0 p, drop (p + length sep) s), True))"

definition str_partition_after :: "string \<Rightarrow> string \<Rightarrow> string \<times> string" where
  "str_partition_after s sep =
     (case find_sub s sep 0 of
        None \<Rightarrow> (s, [])
      | Some p \<Rightarrow> let p = p + length sep in (substr s 0 p, drop p s))"

text \<open>\<open>str_partition_after_inpl\<close> returns the first part and leaves the rest in \<open>*s\<close>.\<close>

definition str_partition_after_inpl :: "string \<Rightarrow> string \<Rightarrow> string \<times> string" where
  "str_partition_after_inpl s sep =
     (case find_sub s sep 0 of
        None \<Rightarrow> (s, [])
      | Some p \<Rightarrow> (substr s 0 (p + length sep), drop (p + length sep) s))"

definition str_ljust :: "string \<Rightarrow> nat \<Rightarrow> char \<Rightarrow> string" where
  "str_ljust s width pad = (if length s < width then s @ replicate (width - length s) pad else s)"

definition str_rjust :: "string \<Rightarrow> nat \<Rightarrow> char \<Rightarrow> string" where
  "str_rjust s width pad = (if length s < width then replicate (width - length s) pad @ s else s)"

subsection \<open>Splitting and joining\<close>

text \<open>
  The loop of \<open>str_split\<close>: \<open>maxsplit\<close> is decremented on every round and no separator
  is looked for once it was 0 (a negative value never gets there). A separator at offset 0
  always produces a token, also with \<open>compress\<close>.
\<close>

function str_split_loop :: "string \<Rightarrow> string \<Rightarrow> bool \<Rightarrow> nat \<Rightarrow> int \<Rightarrow> string list" where
  "str_split_loop input separator_chars compress index maxsplit =
     (case (if maxsplit \<noteq> 0 then find_first_of input separator_chars index else None) of
        Some new_find \<Rightarrow>
          (if index < new_find \<or> \<not> compress \<or> new_find = 0
           then [substr input index (new_find - index)] else [])
          @ str_split_loop input separator_chars compress (new_find + 1) (maxsplit - 1)
      | None \<Rightarrow> [drop index input])"
  by pat_completeness auto
termination
  by (relation "measure (\<lambda>(input, separator_chars, compress, index, maxsplit). length input - index)")
    (auto simp: find_first_of_def split: if_splits dest!: find_if_from_bounds)

declare str_split_loop.simps [simp del]

definition str_split :: "string \<Rightarrow> string \<Rightarrow> int \<Rightarrow> bool \<Rightarrow> string list" where
  "str_split input separator_chars maxsplit compress =
     (if input = [] then [] else str_split_loop input separator_chars compress 0 maxsplit)"

text \<open>
  \<open>str_itersplit\<close> hands each token to a callback, which may change the caller's state
  \<open>st\<close> and stops the iteration by returning false.
\<close>

function str_itersplit_loop ::
  "string \<Rightarrow> (string \<Rightarrow> 's \<Rightarrow> bool \<times> 's) \<Rightarrow> string \<Rightarrow> bool \<Rightarrow> nat \<Rightarrow> int \<Rightarrow> 's \<Rightarrow> bool \<times> 's" where
  "str_itersplit_loop input f separator_chars compress index maxsplit st =
     (case (if maxsplit \<noteq> 0 then find_first_of input separator_chars index else None) of
        Some new_find \<Rightarrow>
          (if index < new_find \<or> \<not> compress \<or> new_find = 0
           then (case f (substr input index (new_find - index)) st of
                   (False, st') \<Rightarrow> (False, st')
                 | (True, st') \<Rightarrow>
                     str_itersplit_loop input f separator_chars compress (new_find + 1) (maxsplit - 1) st')
           else str_itersplit_loop input f separator_chars compress (new_find + 1) (maxsplit - 1) st)
      | None \<Rightarrow>
          (case f (drop index input) st of (False, st') \<Rightarrow> (False, st') | (True, st') \<Rightarrow> (True, st')))"
  by pat_completeness auto
termination
  by (relation "measure (\<lambda>(input, f, separator_chars, compress, index, maxsplit, st). length input - index)")
    (auto simp: find_first_of_def split: if_splits dest!: find_if_from_bounds)

declare str_itersplit_loop.simps [simp del]

definition str_itersplit ::
  "string \<Rightarrow> (string \<Rightarrow> 's \<Rightarrow> bool \<times> 's) \<Rightarrow> string \<Rightarrow> int \<Rightarrow> bool \<Rightarrow> 's \<Rightarrow> bool \<times> 's" where
  "str_itersplit input f separator_chars maxsplit compress st =
     (if input = [] then (True, st)
      else str_itersplit_loop input f separator_chars compress 0 maxsplit st)"

fun str_join :: "string list \<Rightarrow> string \<Rightarrow> string" where
  "str_join [] sep = []"
| "str_join [x] sep = x"
| "str_join (x # y # ys) sep = x @ sep @ str_join (y # ys) sep"

subsection \<open>Replacing and quoting\<close>

text \<open>
  The search loop of \<open>str_replace\<close>. It is entered with a non-empty \<open>from\<close> only; the
  test for an empty one is there to make the function total.
\<close>

function str_replace_loop :: "string \<Rightarrow> string \<Rightarrow> string \<Rightarrow> nat \<Rightarrow> string" where
  "str_replace_loop s frm to start =
     (case (if frm = [] then None else find_sub s frm start) of
        Some p \<Rightarrow>
          (if start < p then substr s start (p - start) else []) @ to
          @ str_replace_loop s frm to (p + length frm)
      | None \<Rightarrow> (if start < length s then substr s start (length s - start) else []))"
  by pat_completeness auto
termination
proof (relation "measure (\<lambda>(s, frm, to, start). length s - start)", goal_cases)
  case (2 s frm to start p)
  then have "frm \<noteq> []" and p: "find_sub s frm start = Some p" by (auto split: if_splits)
  then obtain n where "length frm = Suc n" by (cases frm) auto
  with find_sub_bounds [OF p] show ?case by (simp, linarith)
qed simp

declare str_replace_loop.simps [simp del]

definition str_replace :: "string \<Rightarrow> string \<Rightarrow> string \<Rightarrow> string" where
  "str_replace s frm to =
     (if frm = [] then to @ concat (map (\<lambda>c. c # to) s)
      else str_replace_loop s frm to 0)"

definition quote_string :: "string \<Rightarrow> char \<Rightarrow> string" where
  "quote_string s quote =
     (let q = [quote];
          bs = str_replace s [backslash] [backslash, backslash];
          esc = str_replace bs q (backslash # q)
      in q @ esc @ q)"

definition unquote_string :: "string \<Rightarrow> char \<Rightarrow> string" where
  "unquote_string s quote =
     (let q = [quote];
          result = (if 2 \<le> length s \<and> s ! 0 = quote \<and> s ! (length s - 1) = quote
                    then substr s 1 (length s - 2) else s);
          result = str_replace result (backslash # q) q
      in str_replace result [backslash, backslash] [backslash])"

text \<open>
  \<open>get_quote_span\<close>: the two scanning loops share their shape. They start at \<open>i\<close> and
  count up while the character is not the quote or is escaped; \<open>str[size()]\<close> is NUL.
  The result is the offset where the loop stopped and the \<open>escaped\<close> flag.
\<close>

function quote_scan :: "char \<Rightarrow> string \<Rightarrow> nat \<Rightarrow> bool \<Rightarrow> nat \<times> bool" where
  "quote_scan quote_char str i escaped =
     (let c = (if i < length str then str ! i else nul)
      in if (c \<noteq> quote_char \<or> escaped) \<and> i < length str
         then quote_scan quote_char str (i + 1) (c = backslash \<and> \<not> escaped)
         else (i, escaped))"
  by pat_completeness auto
termination
  by (relation "measure (\<lambda>(quote_char, str, i, escaped). length str - i)") auto

declare quote_scan.simps [simp del]

definition get_quote_span :: "char \<Rightarrow> string \<Rightarrow> nat option \<times> nat option" where
  "get_quote_span quote_char str =
     (if length str < 2 then (None, None)
      else let (open_quote_pos, escaped) = quote_scan quote_char str 0 False
           in if open_quote_pos = length str then (None, None)
              else let (close_quote_pos, _) = quote_scan quote_char str (open_quote_pos + 1) escaped
                   in (Some open_quote_pos,
                       if close_quote_pos = length str then None else Some close_quote_pos))"

subsection \<open>Breaking a text into lines\<close>

text \<open>
  The backward scan \<open>while (!isspace(rem[split_point]) && split_point > 0) --split_point\<close>, and
  the two forward scans of \<open>str_break_into_lines\<close>.
\<close>

fun back_to_space :: "string \<Rightarrow> nat \<Rightarrow> nat" where
  "back_to_space rem 0 = 0"
| "back_to_space rem (Suc n) = (if isspace (rem ! Suc n) then Suc n else back_to_space rem n)"

definition forward_to_space :: "string \<Rightarrow> nat \<Rightarrow> nat" where
  "forward_to_space rem pos =
     (case find_if_from isspace rem pos of None \<Rightarrow> length rem | Some i \<Rightarrow> i)"

definition first_newline_below :: "string \<Rightarrow> nat \<Rightarrow> nat" where
  "first_newline_below rem split_point =
     (case index_of (\<lambda>c. c = newline) (take split_point rem) of None \<Rightarrow> split_point | Some i \<Rightarrow> i)"

text \<open>
  Where one round of the loop splits \<open>rem\<close>; \<^const>\<open>None\<close> is the \<open>break\<close> of a text whose
  last word is longer than a line. The source keeps \<open>nl_pos\<close> across rounds, but it is only
  read after the round's own search has set it, or while it is still \<open>npos\<close>: once a round
  has found \<open>rem\<close> no longer than a line, every later \<open>rem\<close> is shorter.
\<close>

definition line_split_point :: "string \<Rightarrow> nat \<Rightarrow> nat option" where
  "line_split_point rem line_width =
     (if line_width < length rem then
        (let split_point = back_to_space rem (line_width - 1)
         in if split_point = 0 \<and> \<not> isspace (rem ! 0) then
              (let split_point = forward_to_space rem line_width
               in if split_point = length rem then None else Some split_point)
            else Some (first_newline_below rem split_point))
      else find_char rem newline 0)"

function break_lines_loop :: "string \<Rightarrow> nat \<Rightarrow> string list" where
  "break_lines_loop rem line_width =
     (case (if rem = [] then None else line_split_point rem line_width) of
        None \<Rightarrow> (if rem = [] then [] else [rem])
      | Some split_point \<Rightarrow>
          substr rem 0 split_point # break_lines_loop (drop (split_point + 1) rem) line_width)"
  by pat_completeness auto
termination
  by (relation "measure (\<lambda>(rem, line_width). length rem)") (auto split: if_splits)

declare break_lines_loop.simps [simp del]

text \<open>
  With \<open>line_width = 0\<close> and a non-empty text the source reads \<^verbatim>\<open>rem[SIZE_MAX]\<close>, which is
  undefined behaviour: \<^const>\<open>None\<close>.
\<close>

definition str_break_into_lines :: "string \<Rightarrow> nat \<Rightarrow> string list option" where
  "str_break_into_lines line line_width =
     (if line_width = 0 \<and> line \<noteq> [] then None else Some (break_lines_loop line line_width))"

subsection \<open>Bit strings and hexadecimal\<close>

text \<open>
  \<^verbatim>\<open>std::bitset<64>::to_string()\<close> writes the most significant bit first. The number of
  characters erased, \<^verbatim>\<open>r.size() - nbits\<close>, is a \<^verbatim>\<open>size_t\<close>: for an \<open>nbits\<close> outside
  \<open>0..64\<close> it wraps to a value above 64 and everything is erased.
\<close>

definition bitset_string :: "64 word \<Rightarrow> string" where
  "bitset_string bits = map (\<lambda>i. if bit bits i then CHR ''1'' else CHR ''0'') (rev [0..<64])"

definition bits_to_string :: "64 word \<Rightarrow> int \<Rightarrow> string" where
  "bits_to_string bits nbits = drop (nat ((64 - nbits) mod 2 ^ 64)) (bitset_string bits)"

text \<open>The \<^verbatim>\<open>std::bitset<64>\<close> constructor throws on a character other than 0 and 1.\<close>

definition bitset_of_string :: "string \<Rightarrow> 64 word res" where
  "bitset_of_string s =
     (if list_all (\<lambda>c. c = CHR ''0'' \<or> c = CHR ''1'') s
      then Inr (foldl (\<lambda>w c. push_bit 1 w + (if c = CHR ''1'' then 1 else 0)) 0 s)
      else Inl (Invalid_argument ''bitset string ctor has invalid argument''))"

definition string_to_bits :: "string \<Rightarrow> (64 word \<times> int) res" where
  "string_to_bits s =
     (if 64 < length s then Inl (Invalid_argument ''bit string length must be <= 64'')
      else bind_res (bitset_of_string s) (\<lambda>bits. Inr (bits, int (length s))))"

definition bits_to_string_hex_size :: "nat \<Rightarrow> nat" where
  "bits_to_string_hex_size nbits =
     (let num_chars = nbits div 4 + (if nbits mod 4 \<noteq> 0 then 1 else 0)
      in num_chars + (if num_chars mod 2 \<noteq> 0 then 1 else 0))"

definition hexmap :: "nat \<Rightarrow> char" where
  "hexmap n = ''0123456789ABCDEF'' ! n"

fun hex_digits :: "nat \<Rightarrow> string" where
  "hex_digits n = (if n < 16 then [hexmap n] else hex_digits (n div 16) @ [hexmap (n mod 16)])"

declare hex_digits.simps [simp del]

text \<open>\<^verbatim>\<open>%.*llX\<close>: at least as many digits as the precision; the value 0 with precision 0 has none.\<close>

definition format_llX :: "nat \<Rightarrow> 64 word \<Rightarrow> string" where
  "format_llX precision v =
     (if v = 0 \<and> precision = 0 then []
      else let d = hex_digits (unat v) in replicate (precision - length d) (CHR ''0'') @ d)"

definition bits_to_string_hex :: "64 word \<Rightarrow> nat \<Rightarrow> string res" where
  "bits_to_string_hex bits nbits =
     bind_res (bitset_of_string (bits_to_string bits (int nbits)))
       (\<lambda>v. Inr (''0x'' @ format_llX (bits_to_string_hex_size nbits) v))"

definition string_to_hex :: "string \<Rightarrow> bool \<Rightarrow> string" where
  "string_to_hex s with_prefix =
     (if with_prefix then ''0x'' else [])
     @ concat (map (\<lambda>c. [hexmap (code c div 16), hexmap (code c mod 16)]) s)"

subsection \<open>Percent encoding\<close>

text \<open>The lookup tables \<open>k_reserved_chars\<close> and \<open>k_hex_values\<close>, by their runs.\<close>

definition k_reserved_chars :: "nat \<Rightarrow> bool" where
  "k_reserved_chars n \<longleftrightarrow>
     \<not> (n = 45 \<or> n = 46 \<or> (48 \<le> n \<and> n \<le> 57) \<or> (65 \<le> n \<and> n \<le> 90) \<or> n = 95
        \<or> (97 \<le> n \<and> n \<le> 122) \<or> n = 126)"

definition k_hex_values :: "nat \<Rightarrow> nat" where
  "k_hex_values n =
     (if 48 \<le> n \<and> n \<le> 57 then n - 48
      else if 65 \<le> n \<and> n \<le> 70 then n - 55
      else if 97 \<le> n \<and> n \<le> 102 then n - 87
      else 0)"

definition pctencode :: "string \<Rightarrow> string" where
  "pctencode s =
     concat (map (\<lambda>c. if k_reserved_chars (code c)
                      then [CHR ''%'', hexmap (code c div 16), hexmap (code c mod 16)]
                      else [c]) s)"

text \<open>
  \<open>pctdecode\<close> over the memory \<open>m\<close> of a view of \<open>n\<close> bytes. The bound \<^verbatim>\<open>i <= c - 3\<close> is a
  \<^verbatim>\<open>size_t\<close> comparison: with fewer than 3 bytes \<^verbatim>\<open>c - 3\<close> wraps and the test always holds.
\<close>

definition c_str :: "string \<Rightarrow> nat \<Rightarrow> char" where
  "c_str s i = (if i < length s then s ! i else nul)"

definition pct_room :: "nat \<Rightarrow> nat \<Rightarrow> bool" where
  "pct_room i c \<longleftrightarrow> int i \<le> (int c - 3) mod 2 ^ 64"

function pctdecode_loop :: "(nat \<Rightarrow> char) \<Rightarrow> nat \<Rightarrow> nat \<Rightarrow> string" where
  "pctdecode_loop m c i =
     (if i < c then
        (if pct_room i c \<and> m i = CHR ''%'' \<and> isxdigit (m (i + 1)) \<and> isxdigit (m (i + 2))
         then char_of (k_hex_values (code (m (i + 1))) * 16 + k_hex_values (code (m (i + 2))))
              # pctdecode_loop m c (i + 3)
         else m i # pctdecode_loop m c (i + 1))
      else [])"
  by pat_completeness auto
termination
  by (relation "measure (\<lambda>(m, c, i). c - i)") auto

declare pctdecode_loop.simps [simp del]

definition pctdecode :: "(nat \<Rightarrow> char) \<Rightarrow> nat \<Rightarrow> string" where
  "pctdecode m n = pctdecode_loop m n 0"

subsection \<open>Variable substitution\<close>

definition k_idchars :: string where
  "k_idchars = ''abcdefghijklmnopqrstuvwxyzABCDEFGHIJKLMNOPQRSTUVWXYZ_01234567890''"

text \<open>
  \<open>str_subvars\<close> from offset \<open>p0\<close>. The source asserts that \<open>var_begin\<close> is not empty; the
  test for an empty one makes the loop total.
\<close>

function str_subvars_loop ::
  "string \<Rightarrow> (string \<Rightarrow> string) \<Rightarrow> string \<Rightarrow> string \<Rightarrow> nat \<Rightarrow> string" where
  "str_subvars_loop s subvar var_begin var_end p0 =
     (case (if var_begin = [] then None else find_sub s var_begin p0) of
        None \<Rightarrow> drop p0 s
      | Some pos0 \<Rightarrow>
          (let pos = pos0 + length var_begin;
               p1 = (if var_end = [] then find_first_not_of s k_idchars pos else find_sub s var_end pos)
           in substr s p0 (pos0 - p0) @
              (case p1 of
                 None \<Rightarrow> (if var_end = [] then subvar (drop pos s) else drop pos s)
               | Some q \<Rightarrow>
                   subvar (substr s pos (q - pos))
                   @ str_subvars_loop s subvar var_begin var_end (q + length var_end))))"
  by pat_completeness auto
termination
proof (relation "measure (\<lambda>(s, subvar, var_begin, var_end, p0). length s - p0)", goal_cases)
  case (2 s subvar var_begin var_end p0 pos0 pos p1 q)
  from 2(1) have "var_begin \<noteq> []" and p: "find_sub s var_begin p0 = Some pos0"
    by (auto split: if_splits)
  then obtain k where k: "length var_begin = Suc k" by (cases var_begin) auto
  from 2(3,4) have q: "(if var_end = [] then find_first_not_of s k_idchars pos else find_sub s var_end pos) = Some q"
    by simp
  then have "pos \<le> q" "q + length var_end \<le> length s"
    by (auto simp: find_first_not_of_def less_imp_le split: if_splits
        dest!: find_if_from_bounds find_sub_bounds)
  moreover from 2(2) k have "pos = pos0 + Suc k" by simp
  moreover from find_sub_bounds [OF p] have "p0 \<le> pos0" by simp
  ultimately have "length s - (q + length var_end) < length s - p0" by linarith
  then show ?case by simp
qed simp

declare str_subvars_loop.simps [simp del]

definition str_subvars :: "string \<Rightarrow> (string \<Rightarrow> string) \<Rightarrow> string \<Rightarrow> string \<Rightarrow> string" where
  "str_subvars s subvar var_begin var_end = str_subvars_loop s subvar var_begin var_end 0"

end
