(* ===== verification/Strings_Facts.thy ===== *)
theory Strings_Facts
  imports Strings
begin

unbundle bit_operations_syntax

text \<open>
  What the string utilities of \<open>Strings\<close> compute. Each index loop is related to a recursion on
  the list (\<open>split_on\<close>, \<open>replace_ref\<close>, \<^const>\<open>dropWhile\<close>), and the encoders to their decoders.
\<close>

section \<open>Reference definitions\<close>

text \<open>Splitting at every element that satisfies \<open>P\<close>, by recursion on the list: the reference for the index loops.\<close>

fun split_on :: "('a \<Rightarrow> bool) \<Rightarrow> 'a list \<Rightarrow> 'a list list" where
  "split_on P [] = [[]]"
| "split_on P (x # xs) =
     (if P x then [] # split_on P xs
      else (case split_on P xs of [] \<Rightarrow> [[x]] | y # ys \<Rightarrow> (x # y) # ys))"

fun iter_tokens :: "(string \<Rightarrow> 's \<Rightarrow> bool \<times> 's) \<Rightarrow> string list \<Rightarrow> 's \<Rightarrow> bool \<times> 's" where
  "iter_tokens f [] st = (True, st)"
| "iter_tokens f (t # ts) st = (case f t st of (False, st') \<Rightarrow> (False, st') | (True, st') \<Rightarrow> iter_tokens f ts st')"

text \<open>Leftmost, non-overlapping replacement, by recursion on the text.\<close>

fun replace_ref :: "'a list \<Rightarrow> 'a list \<Rightarrow> 'a list \<Rightarrow> 'a list" where
  "replace_ref p r [] = []"
| "replace_ref p r (x # xs) =
     (if take (length p) (x # xs) = p then r @ replace_ref p r (drop (length p - 1) xs)
      else x # replace_ref p r xs)"

definition escape_char :: "char \<Rightarrow> char \<Rightarrow> string" where
  "escape_char q c = (if c = backslash then [backslash, backslash] else if c = q then [backslash, q] else [c])"

abbreviation pct_char :: "char \<Rightarrow> string" where
  "pct_char c \<equiv> (if k_reserved_chars (code c) then [CHR ''%'', hexmap (code c div 16), hexmap (code c mod 16)] else [c])"

section \<open>Splitting and joining\<close>

lemma split_on_not_Nil [simp]: "split_on P xs \<noteq> []"
  by (cases xs) (auto split: list.splits)

lemma split_on_none [find_simps]: "\<forall>x \<in> set xs. \<not> P x \<Longrightarrow> split_on P xs = [xs]"
  by (induction xs) auto

lemma split_on_append:
  "P x \<Longrightarrow> split_on P (xs @ x # ys) = split_on P xs @ split_on P ys"
  by (induction xs) (auto split: list.splits)

lemma split_on_index:
  assumes "index_of P xs = Some i"
  shows "split_on P xs = take i xs # split_on P (drop (Suc i) xs)"
proof -
  from index_of_split [OF assms] have "split_on P xs = split_on P (take i xs) @ split_on P (drop (Suc i) xs)"
    by (metis split_on_append)
  with index_of_split(2) [OF assms] show ?thesis by (simp add: split_on_none)
qed

lemma split_on_tokens: "\<forall>t \<in> set (split_on P xs). \<forall>x \<in> set t. \<not> P x"
  by (induction xs) (auto split: list.splits)

lemma split_on_char [simp]: "c \<notin> set xs \<Longrightarrow> split_on (\<lambda>x. x = c) xs = [xs]"
  by (rule split_on_none) auto

lemma set_split_on: "x \<in> set xs \<Longrightarrow> \<not> P x \<Longrightarrow> \<exists>t \<in> set (split_on P xs). x \<in> set t"
  by (induction xs) (auto split: if_splits list.splits)

lemma str_split_loop_split_on:
  "maxsplit < 0 \<Longrightarrow> str_split_loop input seps False index maxsplit = split_on (\<lambda>c. c \<in> set seps) (drop index input)"
proof (induction input seps False index maxsplit rule: str_split_loop.induct)
  case (1 input seps index maxsplit)
  show ?case
  proof (cases "index_of (\<lambda>c. c \<in> set seps) (drop index input)")
    case None
    then have "find_first_of input seps index = None" by (simp add: find_defs)
    with None "1.prems" show ?thesis
      by (subst str_split_loop.simps) (simp add: split_on_none index_of_None_iff)
  next
    case (Some i)
    then have f: "find_first_of input seps index = Some (index + i)" by (simp add: find_defs)
    with 1 have "str_split_loop input seps False (index + i + 1) (maxsplit - 1)
        = split_on (\<lambda>c. c \<in> set seps) (drop (index + i + 1) input)"
      by simp
    with f "1.prems" show ?thesis
      by (subst str_split_loop.simps) (simp add: split_on_index [OF Some] substr_def add.commute)
  qed
qed

lemma str_split_split_on:
  "input \<noteq> [] \<Longrightarrow> str_split input seps (-1) False = split_on (\<lambda>c. c \<in> set seps) input"
  by (simp add: str_split_def str_split_loop_split_on)

lemma str_split_once:
  assumes "input \<noteq> []"
  shows "str_split input seps 1 False =
     (case index_of (\<lambda>c. c \<in> set seps) input of
        None \<Rightarrow> [input] | Some i \<Rightarrow> [take i input, drop (Suc i) input])"
proof -
  have last: "str_split_loop input seps False index 0 = [drop index input]" for index
    by (subst str_split_loop.simps) simp
  show ?thesis
    using assms unfolding str_split_def
    by (subst str_split_loop.simps) (simp add: last find_defs substr_def split: option.splits)
qed

lemma str_split_loop_not_Nil [simp]: "str_split_loop input seps compress index maxsplit \<noteq> []"
  by (induction input seps compress index maxsplit rule: str_split_loop.induct)
    (subst str_split_loop.simps, simp split: option.splits)

lemma str_join_Cons: "xs \<noteq> [] \<Longrightarrow> str_join (x # xs) sep = x @ sep @ str_join xs sep"
  by (cases xs) simp_all

lemma join_split_loop:
  "str_join (str_split_loop input [c] False index maxsplit) [c] = drop index input"
proof (induction input "[c]" False index maxsplit rule: str_split_loop.induct)
  case (1 input index maxsplit)
  show ?case
  proof (cases "if maxsplit \<noteq> 0 then find_first_of input [c] index else None")
    case None
    then show ?thesis by (subst str_split_loop.simps) simp
  next
    case (Some f)
    then have b: "index \<le> f" "f < length input" "input ! f = c"
      by (auto simp: find_first_of_def split: if_splits dest!: find_if_from_bounds)
    from Some 1 have "str_join (str_split_loop input [c] False (f + 1) (maxsplit - 1)) [c] = drop (f + 1) input"
      by simp
    moreover have "drop index input = take (f - index) (drop index input) @ c # drop (f + 1) input"
      using id_take_nth_drop [of "f - index" "drop index input"] b by simp
    ultimately show ?thesis
      using Some by (subst str_split_loop.simps) (simp add: str_join_Cons substr_def)
  qed
qed

lemma split_join:
  assumes "xs \<noteq> []" "\<forall>t \<in> set xs. c \<notin> set t"
  shows "split_on (\<lambda>x. x = c) (str_join xs [c]) = xs"
  using assms
proof (induction xs)
  case (Cons x xs)
  then show ?case
    by (cases xs) (auto simp: split_on_append)
qed simp


section \<open>Iterating over tokens\<close>

lemma str_itersplit_loop_tokens:
  "str_itersplit_loop input f seps compress index maxsplit st =
     iter_tokens f (str_split_loop input seps compress index maxsplit) st"
proof (induction input f seps compress index maxsplit st rule: str_itersplit_loop.induct)
  case (1 input f seps compress index maxsplit st)
  show ?case
  proof (cases "if maxsplit \<noteq> 0 then find_first_of input seps index else None")
    case None
    then show ?thesis
      by (subst str_itersplit_loop.simps, subst str_split_loop.simps) (simp split: bool.splits prod.splits)
  next
    case (Some g)
    show ?thesis
      unfolding str_itersplit_loop.simps [of input f seps compress index maxsplit st]
        str_split_loop.simps [of input seps compress index maxsplit] Some
      using "1.IH" [OF Some]
      by (auto split: bool.splits prod.splits)
  qed
qed

lemma iter_tokens_fold:
  "(\<And>t s. fst (f t s)) \<Longrightarrow> iter_tokens f ts st = (True, fold (\<lambda>t s. snd (f t s)) ts st)"
proof (induction ts arbitrary: st)
  case (Cons t ts)
  from Cons.prems [of t st] Cons show ?case by (cases "f t st") auto
qed simp

section \<open>Replacing\<close>

lemma replace_ref_None: "p \<noteq> [] \<Longrightarrow> index_sub p s = None \<Longrightarrow> replace_ref p r s = s"
  by (induction s) (auto split: if_splits)

lemma replace_ref_Some:
  "p \<noteq> [] \<Longrightarrow> index_sub p s = Some i \<Longrightarrow>
     replace_ref p r s = take i s @ r @ replace_ref p r (drop (i + length p) s)"
proof (induction s arbitrary: i)
  case (Cons x xs)
  then obtain k where k: "length p = Suc k" by (cases p) auto
  show ?case
  proof (cases "take (length p) (x # xs) = p")
    case True
    with Cons.prems have "i = 0" by simp
    with True k show ?thesis by simp
  next
    case False
    with Cons.prems obtain j where j: "index_sub p xs = Some j" "i = Suc j" by auto
    with False Cons.IH [OF Cons.prems(1) j(1)] show ?thesis by simp
  qed
qed simp

lemma str_replace_loop_ref:
  assumes "frm \<noteq> []"
  shows "str_replace_loop s frm to start = replace_ref frm to (drop start s)"
  using assms
proof (induction s frm to start rule: str_replace_loop.induct)
  case (1 s frm to start)
  show ?case
  proof (cases "find_sub s frm start")
    case None
    then have "start \<le> length s \<Longrightarrow> index_sub frm (drop start s) = None"
      by (auto simp: find_sub_def split: if_splits)
    with None "1.prems" show ?thesis
      by (subst str_replace_loop.simps)
        (cases "start \<le> length s", auto simp: replace_ref_None substr_def)
  next
    case (Some p)
    then obtain i where i: "index_sub frm (drop start s) = Some i" "p = start + i"
      by (auto simp: find_sub_def split: if_splits)
    from 1 Some have "str_replace_loop s frm to (p + length frm) = replace_ref frm to (drop (p + length frm) s)"
      by simp
    with Some i "1.prems" show ?thesis
      by (subst str_replace_loop.simps)
        (simp add: replace_ref_Some [OF "1.prems" i(1)] substr_def add_ac)
  qed
qed

lemma str_replace_ref: "frm \<noteq> [] \<Longrightarrow> str_replace s frm to = replace_ref frm to s"
  by (simp add: str_replace_def str_replace_loop_ref)

lemma replace_ref_char:
  "replace_ref [c] r s = concat (map (\<lambda>x. if x = c then r else [x]) s)"
  by (induction s) auto

section \<open>Quoting\<close>

lemma quote_string_escape:
  assumes "q \<noteq> backslash"
  shows "quote_string s q = q # concat (map (escape_char q) s) @ [q]"
proof -
  have "concat (map (\<lambda>x. if x = q then [backslash, q] else [x])
          (concat (map (\<lambda>x. if x = backslash then [backslash, backslash] else [x]) s)))
        = concat (map (escape_char q) s)"
    using assms by (induction s) (auto simp: escape_char_def)
  then show ?thesis by (simp add: quote_string_def str_replace_ref replace_ref_char)
qed

lemma take_Suc_0_eq: "take (Suc 0) xs = [x] \<longleftrightarrow> (\<exists>t. xs = x # t)"
  by (cases xs) auto

lemma escape_head: "q \<noteq> backslash \<Longrightarrow> concat (map (escape_char q) s) \<noteq> q # t"
  by (induction s) (auto simp: escape_char_def)

lemma unescape_quote:
  assumes "q \<noteq> backslash"
  shows "replace_ref [backslash, q] [q] (concat (map (escape_char q) s)) =
    concat (map (\<lambda>c. if c = backslash then [backslash, backslash] else [c]) s)"
proof (induction s)
  case (Cons c s)
  let ?e = "concat (map (escape_char q) s)"
  have "take (Suc 0) ?e \<noteq> [q]"
    using escape_head [OF assms, of s] by (simp only: take_Suc_0_eq not_ex) simp
  with Cons assms show ?case by (simp add: escape_char_def [of q c])
qed simp

lemma unescape_backslash:
  "replace_ref [backslash, backslash] [backslash]
     (concat (map (\<lambda>c. if c = backslash then [backslash, backslash] else [c]) s)) = s"
  by (induction s) auto

lemma unquote_quote:
  assumes "q \<noteq> backslash"
  shows "unquote_string (quote_string s q) q = s"
proof -
  let ?e = "concat (map (escape_char q) s)"
  have "substr (q # ?e @ [q]) 1 (length ?e) = ?e" by (simp add: substr_def)
  then show ?thesis
    unfolding quote_string_escape [OF assms] unquote_string_def
    by (simp add: str_replace_ref unescape_quote [OF assms] unescape_backslash nth_append Let_def)
qed

section \<open>Stripping\<close>

lemma index_of_dropWhile:
  "index_of P s = Some i \<Longrightarrow> drop i s = dropWhile (\<lambda>x. \<not> P x) s"
  by (induction s arbitrary: i) (auto split: if_splits)

lemma index_of_None_dropWhile: "index_of P s = None \<longleftrightarrow> dropWhile (\<lambda>x. \<not> P x) s = []"
  by (simp add: index_of_None_iff)

lemma str_lstrip_dropWhile: "str_lstrip_view s chars = dropWhile (\<lambda>x. x \<in> set chars) s"
proof (cases "index_of (\<lambda>x. x \<notin> set chars) s")
  case None
  then have "dropWhile (\<lambda>x. x \<in> set chars) s = []" by (simp add: index_of_None_iff)
  then show ?thesis by (simp only: str_lstrip_view_def find_defs None drop_0 option.map option.case)
next
  case (Some i)
  with index_of_dropWhile [OF Some] show ?thesis by (simp add: str_lstrip_view_def find_defs)
qed

lemma find_last_not_of_rstrip:
  "find_last_not_of s chars = Some e \<Longrightarrow>
     e < length s \<and> take (Suc e) s = rev (dropWhile (\<lambda>x. x \<in> set chars) (rev s))"
proof -
  assume "find_last_not_of s chars = Some e"
  then obtain i where i: "index_of (\<lambda>x. x \<notin> set chars) (rev s) = Some i" "e = length s - 1 - i"
    by (auto simp: find_last_not_of_def)
  from index_of_lengthD [OF i(1)] have l: "i < length s" by simp
  have "rev (drop i (rev s)) = take (length s - i) s" by (simp add: rev_drop)
  with index_of_dropWhile [OF i(1)] i(2) l show ?thesis
    by (simp add: Suc_diff_Suc)
qed

lemma str_rstrip_dropWhile: "str_rstrip_view s chars = rev (dropWhile (\<lambda>x. x \<in> set chars) (rev s))"
proof (cases "find_last_not_of s chars")
  case None
  then have "index_of (\<lambda>x. x \<notin> set chars) (rev s) = None" by (simp add: find_last_not_of_def)
  with None show ?thesis by (simp add: str_rstrip_view_def index_of_None_iff)
next
  case (Some e)
  with find_last_not_of_rstrip [OF Some] show ?thesis
    by (simp add: str_rstrip_view_def substr_def)
qed

lemma str_strip_rstrip_lstrip:
  "str_strip_view s chars = str_lstrip_view (str_rstrip_view s chars) chars"
proof (cases "find_first_not_of s chars 0")
  case None
  then have all: "\<forall>x \<in> set s. x \<in> set chars" by (simp add: find_defs index_of_None_iff)
  then have "dropWhile (\<lambda>x. x \<in> set chars) (rev s) = []" by simp
  with None show ?thesis
    by (simp only: str_strip_view_def str_lstrip_dropWhile str_rstrip_dropWhile) simp
next
  case (Some b)
  then have b: "index_of (\<lambda>x. x \<notin> set chars) s = Some b" by (simp add: find_defs map_option_case split: option.splits)
  note bs = index_of_split [OF b]
  from bs(1,3) have "\<exists>x \<in> set (rev s). x \<notin> set chars" by (metis in_set_conv_decomp set_rev)
  then have "index_of (\<lambda>x. x \<notin> set chars) (rev s) \<noteq> None" by (simp add: index_of_None_iff)
  then obtain e where e: "find_last_not_of s chars = Some e" by (auto simp: find_last_not_of_def)
  note er = find_last_not_of_rstrip [OF e]
  have "b \<le> e"
  proof (rule ccontr)
    assume "\<not> b \<le> e"
    then have "take (Suc e) s = take (Suc e) (take b s)" by (simp add: min_def)
    then have "\<forall>x \<in> set (take (Suc e) s). x \<in> set chars" using bs(2) by (metis in_set_takeD)
    moreover from e have "s ! e \<notin> set chars"
      using er by (auto simp: find_last_not_of_def index_of_Some_iff rev_nth)
    ultimately show False using er by (metis in_set_conv_nth length_take lessI min.absorb2 Suc_leI nth_take)
  qed
  then have "drop b (take (Suc e) s) = dropWhile (\<lambda>x. x \<in> set chars) (take (Suc e) s)"
    using index_of_dropWhile [of "\<lambda>x. x \<notin> set chars" "take (Suc e) s" b] b conjunct1 [OF er]
    by (simp add: index_of_Some_iff)
  with Some e \<open>b \<le> e\<close> show ?thesis
    by (simp add: str_strip_view_def str_lstrip_dropWhile str_rstrip_view_def substr_def drop_take Suc_diff_le)
qed

lemma str_strip_id:
  assumes "s = [] \<or> (hd s \<notin> set chars \<and> last s \<notin> set chars)"
  shows "str_strip_view s chars = s"
proof (cases "s = []")
  case False
  with assms have "dropWhile (\<lambda>x. x \<in> set chars) (rev s) = rev s" by (cases s rule: rev_cases) auto
  moreover from False assms have "dropWhile (\<lambda>x. x \<in> set chars) s = s" by (cases s) auto
  ultimately show ?thesis
    by (simp add: str_strip_rstrip_lstrip str_lstrip_dropWhile str_rstrip_dropWhile)
qed (simp add: str_strip_rstrip_lstrip str_lstrip_dropWhile str_rstrip_dropWhile)

section \<open>Bit strings\<close>

lemma bits_to_string_alt:
  assumes "n \<le> 64"
  shows "bits_to_string b (int n) = map (\<lambda>i. if bit b i then CHR ''1'' else CHR ''0'') (rev [0..<n])"
proof -
  have "nat ((64 - int n) mod 2 ^ 64) = 64 - n" using assms by simp
  moreover have "drop (64 - n) (rev [0..<64]) = rev [0..<n]" using assms by (simp add: drop_rev)
  ultimately show ?thesis by (simp add: bits_to_string_def bitset_string_def drop_map)
qed

lemma take_bit_Suc_word:
  "take_bit (Suc n) (b :: 'a :: len word) = push_bit n (of_bool (bit b n)) + take_bit n b"
proof -
  have "push_bit n (of_bool (bit b n)) AND take_bit n b = 0"
    by (rule bit_eqI) (auto simp: bit_simps)
  then have "push_bit n (of_bool (bit b n)) + take_bit n b = push_bit n (of_bool (bit b n)) OR take_bit n b"
    by (rule disjunctive_add_eq_or)
  also have "\<dots> = take_bit (Suc n) b"
    by (rule bit_eqI) (auto simp: bit_simps less_Suc_eq)
  finally show ?thesis by simp
qed

lemma foldl_bits:
  "foldl (\<lambda>w c. push_bit 1 w + (if c = CHR ''1'' then 1 else 0)) (a :: 64 word)
     (map (\<lambda>i. if bit b i then CHR ''1'' else CHR ''0'') (rev [0..<n])) = push_bit n a + take_bit n b"
proof (induction n arbitrary: a)
  case (Suc n)
  have "foldl (\<lambda>w c. push_bit 1 w + (if c = CHR ''1'' then 1 else 0)) a
     (map (\<lambda>i. if bit b i then CHR ''1'' else CHR ''0'') (rev [0..<Suc n]))
    = push_bit n (push_bit 1 a + (if bit b n then 1 else 0)) + take_bit n b"
    using Suc.IH [of "push_bit 1 a + (if bit b n then 1 else 0)"] by (cases "bit b n") simp_all
  also have "\<dots> = push_bit (Suc n) a + take_bit (Suc n) b"
    by (cases "bit b n") (simp_all add: take_bit_Suc_word push_bit_add add_ac push_bit_eq_mult algebra_simps)
  finally show ?case .
qed simp

lemma bitset_of_bits:
  "n \<le> 64 \<Longrightarrow> bitset_of_string (bits_to_string b (int n)) = Inr (take_bit n b)"
  using foldl_bits [of 0 b n] by (auto simp: bitset_of_string_def bits_to_string_alt list_all_iff)

lemma string_to_bits_to_string:
  "n \<le> 64 \<Longrightarrow> string_to_bits (bits_to_string b (int n)) = Inr (take_bit n b, int n)"
  by (simp add: string_to_bits_def bitset_of_bits) (simp add: bits_to_string_alt)

section \<open>Percent encoding\<close>

lemma upt_16: "[0..<16::nat] = [0, 1, 2, 3, 4, 5, 6, 7, 8, 9, 10, 11, 12, 13, 14, 15]"
  by (simp add: upt_rec)

lemma hex_nibble:
  assumes "d < 16"
  shows "isxdigit (hexmap d)" "k_hex_values (code (hexmap d)) = d"
proof -
  have "list_all (\<lambda>d. isxdigit (hexmap d) \<and> k_hex_values (code (hexmap d)) = d) [0..<16]"
    by (simp add: upt_16 isxdigit_def hexmap_def k_hex_values_def isdigit_def)
  with assms show "isxdigit (hexmap d)" "k_hex_values (code (hexmap d)) = d"
    by (simp_all add: list_all_iff)
qed

lemma pct_room_iff: "c < 2 ^ 64 \<Longrightarrow> 3 \<le> c \<Longrightarrow> pct_room i c \<longleftrightarrow> i + 3 \<le> c"
  by (auto simp: pct_room_def)

lemma pctencode_append [simp]: "pctencode (a @ b) = pctencode a @ pctencode b"
  by (simp add: pctencode_def)

lemma pctencode_Cons: "pctencode (c # b) = pct_char c @ pctencode b"
  by (simp add: pctencode_def)

lemma pctdecode_loop_encode:
  assumes "length (pctencode (p @ s)) < 2 ^ 64"
    and "\<And>i. i < length (pctencode (p @ s)) \<Longrightarrow> m i = pctencode (p @ s) ! i"
  shows "pctdecode_loop m (length (pctencode (p @ s))) (length (pctencode p)) = s"
  using assms
proof (induction s arbitrary: p)
  case Nil
  show ?case by (subst pctdecode_loop.simps) (simp add: pctencode_def)
next
  case (Cons c s)
  let ?w = "pctencode (p @ c # s)" and ?i = "length (pctencode p)"
  have w: "?w = pctencode p @ pct_char c @ pctencode s"
    by (simp add: pctencode_Cons)
  have rest: "pctdecode_loop m (length ?w) (?i + length (pct_char c)) = s"
    using Cons.IH [of "p @ [c]"] Cons.prems by (simp add: pctencode_Cons pctencode_def)
  show ?case
  proof (cases "k_reserved_chars (code c)")
    case True
    then have l: "?i + 3 \<le> length ?w" by (simp add: pctencode_Cons)
    have mi: "m ?i = CHR ''%''" "m (?i + 1) = hexmap (code c div 16)" "m (?i + 2) = hexmap (code c mod 16)"
      using True l Cons.prems(2) [of ?i] Cons.prems(2) [of "?i + 1"] Cons.prems(2) [of "?i + 2"]
      by (simp_all add: w nth_append pctencode_Cons numeral_2_eq_2)
    have d: "code c div 16 < 16" "code c mod 16 < 16" using code_less [of c] by (simp_all add: less_mult_imp_div_less)
    have "char_of (code c div 16 * 16 + code c mod 16) = c" by simp
    with True rest l mi hex_nibble [OF d(1)] hex_nibble [OF d(2)] Cons.prems(1) pct_room_iff [of "length ?w" ?i]
    show ?thesis by (subst pctdecode_loop.simps) (auto simp: numeral_3_eq_3 numeral_2_eq_2 pctencode_Cons)
  next
    case False
    then have l: "?i < length ?w" by (simp add: pctencode_Cons)
    then have mi: "m ?i = c" using False Cons.prems(2) [of ?i] by (simp add: w nth_append pctencode_Cons)
    from False have "c \<noteq> CHR ''%''" by (auto simp: k_reserved_chars_def)
    with False rest l mi show ?thesis by (subst pctdecode_loop.simps) simp
  qed
qed

lemma pctdecode_pctencode:
  assumes "length (pctencode s) < 2 ^ 64"
    and "\<And>i. i < length (pctencode s) \<Longrightarrow> m i = pctencode s ! i"
  shows "pctdecode m (length (pctencode s)) = s"
  using pctdecode_loop_encode [of "[]" s m] assms by (simp add: pctdecode_def pctencode_def)

section \<open>Line breaking\<close>

lemma back_to_space_props:
  "back_to_space rem n \<le> n" "0 < back_to_space rem n \<Longrightarrow> isspace (rem ! back_to_space rem n)"
  "back_to_space rem n < i \<Longrightarrow> i \<le> n \<Longrightarrow> \<not> isspace (rem ! i)"
  by (induction n) (auto split: if_splits simp: le_Suc_eq)

lemma isspace_newline [simp]: "isspace newline"
  by (simp add: isspace_def)

lemma first_newline_below_props:
  assumes "p < length rem" "isspace (rem ! p)"
  shows "first_newline_below rem p \<le> p \<and> isspace (rem ! first_newline_below rem p) \<and>
    newline \<notin> set (take (first_newline_below rem p) rem)"
proof (cases "index_of (\<lambda>c. c = newline) (take p rem)")
  case None
  then have "first_newline_below rem p = p" by (simp add: first_newline_below_def)
  moreover from None have "newline \<notin> set (take p rem)" unfolding index_of_None_iff by blast
  ultimately show ?thesis using assms by simp
next
  case (Some i)
  note i = index_of_split [OF Some]
  from index_of_lengthD [OF Some] have l: "i < p" by simp
  have f: "first_newline_below rem p = i" by (simp add: first_newline_below_def Some)
  have t: "take i (take p rem) = take i rem" using l by (simp add: min_def)
  from i(2) have "newline \<notin> set (take i rem)" unfolding t by blast
  with i(3) l f show ?thesis by simp
qed

lemma no_space_newline: "\<forall>c \<in> set xs. \<not> isspace c \<Longrightarrow> newline \<notin> set xs"
  by auto

lemma forward_to_space_props:
  assumes "\<And>i. i < w \<Longrightarrow> \<not> isspace (rem ! i)" "w < length rem" "forward_to_space rem w = p"
  shows "p = length rem \<Longrightarrow> \<forall>c \<in> set rem. \<not> isspace c"
    "p \<noteq> length rem \<Longrightarrow> p < length rem \<and> isspace (rem ! p) \<and> (\<forall>c \<in> set (take p rem). \<not> isspace c)"
proof -
  show "p = length rem \<Longrightarrow> \<forall>c \<in> set rem. \<not> isspace c"
  proof -
    assume "p = length rem"
    then have "find_if_from isspace rem w = None"
      using assms(3) by (auto simp: forward_to_space_def split: option.splits dest: find_if_from_bounds)
    then have "\<not> isspace (rem ! j)" if "w \<le> j" "j < length rem" for j
      using that by (simp add: find_if_from_None)
    with assms(1) show ?thesis by (metis in_set_conv_nth not_le)
  qed
  assume "p \<noteq> length rem"
  with assms(3) have f: "find_if_from isspace rem w = Some p"
    by (auto simp: forward_to_space_def split: option.splits)
  have "\<not> isspace (rem ! j)" if "j < p" for j
    using find_if_from_least [OF f] assms(1) that by (cases "j < w") auto
  with find_if_from_bounds [OF f] show "p < length rem \<and> isspace (rem ! p) \<and> (\<forall>c \<in> set (take p rem). \<not> isspace c)"
    by (auto simp: in_set_conv_nth)
qed

lemma line_split_point_Some:
  assumes "line_split_point rem w = Some p" "rem \<noteq> []" "0 < w"
  shows "p < length rem \<and> isspace (rem ! p) \<and> newline \<notin> set (take p rem) \<and>
    (p \<le> w \<or> (\<forall>c \<in> set (take p rem). \<not> isspace c))"
proof (cases "w < length rem")
  case long: True
  let ?b = "back_to_space rem (w - 1)"
  note b = back_to_space_props [of rem "w - 1"]
  show ?thesis
  proof (cases "?b = 0 \<and> \<not> isspace (rem ! 0)")
    case True
    have ns: "\<not> isspace (rem ! i)" if "i < w" for i
      using b(3) [of i] True that by (cases i) auto
    from assms(1) long True have p: "forward_to_space rem w = p" "p \<noteq> length rem"
      by (auto simp: line_split_point_def Let_def split: if_splits)
    from forward_to_space_props(2) [OF ns long p] no_space_newline show ?thesis by blast
  next
    case False
    then have "isspace (rem ! ?b)" using b(2) by (cases "?b = 0") auto
    moreover have "?b < length rem" "?b < w" using b(1) long assms(3) by linarith+
    moreover from assms(1) long False have "p = first_newline_below rem ?b"
      by (auto simp: line_split_point_def Let_def split: if_splits)
    ultimately show ?thesis using first_newline_below_props [of ?b rem] by auto
  qed
next
  case False
  with assms(1) have f: "find_if_from (\<lambda>c. c = newline) rem 0 = Some p"
    by (simp add: line_split_point_def find_char_def)
  from find_if_from_bounds [OF f] find_if_from_least [OF f] False show ?thesis
    by (auto simp: in_set_conv_nth)
qed

lemma line_split_point_None:
  assumes "line_split_point rem w = None" "rem \<noteq> []" "0 < w"
  shows "newline \<notin> set rem \<and> (length rem \<le> w \<or> (\<forall>c \<in> set rem. \<not> isspace c))"
proof (cases "w < length rem")
  case long: True
  let ?b = "back_to_space rem (w - 1)"
  from assms(1) long have p: "?b = 0" "\<not> isspace (rem ! 0)" "forward_to_space rem w = length rem"
    by (auto simp: line_split_point_def Let_def split: if_splits)
  have ns: "\<not> isspace (rem ! i)" if "i < w" for i
    using back_to_space_props(3) [of rem "w - 1" i] p that by (cases i) auto
  from forward_to_space_props(1) [OF ns long p(3)] no_space_newline show ?thesis by blast
next
  case False
  with assms(1) show ?thesis
    by (auto simp: line_split_point_def find_defs index_of_None_iff)
qed

lemma break_lines_loop_props:
  "0 < w \<Longrightarrow>
     list_all (\<lambda>l. newline \<notin> set l \<and> (length l \<le> w \<or> (\<forall>c \<in> set l. \<not> isspace c))) (break_lines_loop rem w) \<and>
     concat (map (filter (\<lambda>c. \<not> isspace c)) (break_lines_loop rem w)) = filter (\<lambda>c. \<not> isspace c) rem"
proof (induction rem w rule: break_lines_loop.induct)
  case (1 rem w)
  note loop = break_lines_loop.simps [of rem w]
  show ?case
  proof (cases "if rem = [] then None else line_split_point rem w")
    case None
    then show ?thesis
      using line_split_point_None [of rem w] "1.prems"
      by (subst (1 2) loop, cases "rem = []") auto
  next
    case (Some p)
    then have "rem \<noteq> []" "line_split_point rem w = Some p" by (auto split: if_splits)
    note p = line_split_point_Some [OF this(2,1) "1.prems"]
    have "filter (\<lambda>c. \<not> isspace c) rem =
        filter (\<lambda>c. \<not> isspace c) (take p rem) @ filter (\<lambda>c. \<not> isspace c) (drop (p + 1) rem)"
      using p arg_cong [OF id_take_nth_drop [of p rem], of "filter (\<lambda>c. \<not> isspace c)"] by simp
    with "1.IH" [OF Some "1.prems"] p show ?thesis
      unfolding loop Some by (simp add: substr_def min_def)
  qed
qed


section \<open>Encoders as codecs\<close>

lemma pctdecode_c_str:
  "length (pctencode s) < 2 ^ 64 \<Longrightarrow> pctdecode (c_str (pctencode s)) (length (pctencode s)) = s"
  by (rule pctdecode_pctencode) (simp_all add: c_str_def)

interpretation dq: codec "\<lambda>s. quote_string s dquote" "\<lambda>t. unquote_string t dquote" "\<lambda>_. True" "\<lambda>s. s"
  by unfold_locales (simp add: unquote_quote)

interpretation pct: codec pctencode "\<lambda>t. pctdecode (c_str t) (length t)" "\<lambda>s. length (pctencode s) < 2 ^ 64" "\<lambda>s. s"
  by unfold_locales (simp add: pctdecode_c_str)

interpretation bits: codec "\<lambda>(b, n). bits_to_string b (int n)" string_to_bits "\<lambda>(b, n). n \<le> 64"
  "\<lambda>(b, n). Inr (take_bit n b, int n)"
  by unfold_locales (auto simp: string_to_bits_to_string)

section \<open>Properties\<close>

text \<open>
  C35. Joining what \<open>str_split\<close> cuts at one separator gives the input back, for every limit on the
  number of splits; and splitting a join of tokens without the separator gives the tokens.
\<close>

theorem str_split_str_join:
  "str_join (str_split input [c] maxsplit False) [c] = input \<and>
   (xs \<noteq> [] \<and> xs \<noteq> [[]] \<and> list_all (\<lambda>t. c \<notin> set t) xs \<longrightarrow>
      str_split (str_join xs [c]) [c] (-1) False = xs)"
proof (intro conjI impI)
  show "str_join (str_split input [c] maxsplit False) [c] = input"
    by (simp add: str_split_def join_split_loop)
  assume xs: "xs \<noteq> [] \<and> xs \<noteq> [[]] \<and> list_all (\<lambda>t. c \<notin> set t) xs"
  then have "str_join xs [c] \<noteq> []" by (cases xs; cases "tl xs") auto
  with xs show "str_split (str_join xs [c]) [c] (-1) False = xs"
    by (simp add: str_split_split_on split_join list_all_iff)
qed

theorem str_split_str_join_witness:
  "str_split (str_join [''a'', [], ''b''] '','') '','' (-1) False = [''a'', [], ''b'']"
  using str_split_str_join [of _ "CHR '',''" _ "[''a'', [], ''b'']"] by simp

text \<open>
  \<open>str_itersplit\<close> calls its callback on exactly the tokens \<open>str_split\<close> returns, in order, up to
  the first one it refuses; with a callback that never refuses it is a fold over them.
\<close>

lemma str_itersplit_tokens:
  "str_itersplit input f seps maxsplit compress st = iter_tokens f (str_split input seps maxsplit compress) st \<and>
   ((\<forall>t s. fst (f t s)) \<longrightarrow>
     str_itersplit input f seps maxsplit compress st =
       (True, fold (\<lambda>t s. snd (f t s)) (str_split input seps maxsplit compress) st))"
  by (simp add: str_itersplit_def str_split_def str_itersplit_loop_tokens iter_tokens_fold)

text \<open>
  \<open>str_replace\<close> replaces the leftmost occurrences, left to right and without overlap, and never
  looks into the text it has inserted.
\<close>

lemma str_replace_leftmost:
  "str_replace s frm to = (if frm = [] then to @ concat (map (\<lambda>c. c # to) s) else replace_ref frm to s)"
  by (simp add: str_replace_ref str_replace_def [of s "[]"])

text \<open>
  \<open>unquote_string\<close> undoes \<open>quote_string\<close> for every text, whatever quotes and backslashes it
  holds, unless the quote character is the backslash itself; so quoting is injective.
\<close>

lemma unquote_string_quote_string:
  "q \<noteq> backslash \<Longrightarrow> unquote_string (quote_string s q) q = s"
  by (rule unquote_quote)

text \<open>
  C36. \<open>pctdecode\<close> undoes \<open>pctencode\<close>, whatever follows the encoded text in memory, and two texts
  with the same encoding are equal.
\<close>

theorem pctdecode_pctencode_id:
  assumes "length (pctencode s) < 2 ^ 64" and "\<forall>i < length (pctencode s). m i = pctencode s ! i"
  shows "pctdecode m (length (pctencode s)) = s \<and> (\<forall>t. pctencode t = pctencode s \<longleftrightarrow> t = s)"
proof
  show "pctdecode m (length (pctencode s)) = s" using assms by (intro pctdecode_pctencode) auto
  show "\<forall>t. pctencode t = pctencode s \<longleftrightarrow> t = s" using pct.enc_determines [of _ s] assms(1) by metis
qed

theorem pctdecode_pctencode_id_witness:
  "pctdecode (c_str ''a%20b'') (length ''a%20b'') = ''a b''"
proof -
  have "pctencode ''a b'' = ''a%20b''" by (simp add: pctencode_def k_reserved_chars_def hexmap_def)
  with pctdecode_pctencode_id [of "''a b''" "c_str ''a%20b''"] show ?thesis
    by (simp add: c_str_def)
qed

text \<open>
  \<open>string_to_bits\<close> reads back the low \<open>n\<close> bits that \<open>bits_to_string\<close> printed, for every
  width up to 64, and their number.
\<close>

lemma string_to_bits_bits_to_string:
  "n \<le> 64 \<Longrightarrow> string_to_bits (bits_to_string b (int n)) = Inr (take_bit n b, int n)"
  by (rule string_to_bits_to_string)

text \<open>
  C37. \<open>str_break_into_lines\<close>, for a positive width, gives lines without newline that are no longer than
  the width unless they are a single word, and keeps every character that is not white space, in
  order.
\<close>

theorem str_break_into_lines_correct:
  "0 < line_width \<Longrightarrow>
     \<exists>ls. str_break_into_lines line line_width = Some ls \<and>
       list_all (\<lambda>l. newline \<notin> set l \<and> (length l \<le> line_width \<or> (\<forall>c \<in> set l. \<not> isspace c))) ls \<and>
       concat (map (filter (\<lambda>c. \<not> isspace c)) ls) = filter (\<lambda>c. \<not> isspace c) line"
  using break_lines_loop_props [of line_width line] by (simp add: str_break_into_lines_def)

theorem str_break_into_lines_correct_witness:
  "\<exists>ls. str_break_into_lines ''a bc d'' 3 = Some ls \<and>
     list_all (\<lambda>l. newline \<notin> set l \<and> (length l \<le> 3 \<or> (\<forall>c \<in> set l. \<not> isspace c))) ls \<and>
     concat (map (filter (\<lambda>c. \<not> isspace c)) ls) = ''abcd''"
  using str_break_into_lines_correct [of 3 "''a bc d''"] by (simp add: isspace_def)

text \<open>
  \<open>str_strip_view\<close> removes the given characters from the end and then from the start of the text,
  and nothing else.
\<close>

lemma str_strip_view_correct:
  "str_strip_view s chars = dropWhile (\<lambda>x. x \<in> set chars) (rev (dropWhile (\<lambda>x. x \<in> set chars) (rev s)))"
  by (simp add: str_strip_rstrip_lstrip str_lstrip_dropWhile str_rstrip_dropWhile)

end
