(* ===== verification/Utf8.thy ===== *)
theory Utf8
  imports Strings
begin

unbundle bit_operations_syntax

text \<open>
  \<open>is_valid_utf8\<close> of \<^verbatim>\<open>mysqlshdk/libs/utils/utils_string.cc\<close>, and that it accepts exactly the
  encodings of sequences of Unicode scalar values.
\<close>

section \<open>Definitions\<close>

subsection \<open>UTF-8 validation\<close>

text \<open>
  One round of \<open>is_valid_utf8\<close>: the length and the first bits of the sequence announced by
  the lead byte, then the continuation bytes, read without a bounds check.
\<close>

definition utf8_lead :: "nat \<Rightarrow> (nat \<times> nat) option" where
  "utf8_lead c =
     (if c AND 0x80 = 0 then Some (1, c AND 0x7F)
      else if c AND 0xE0 = 0xC0 then Some (2, c AND 0x1F)
      else if c AND 0xF0 = 0xE0 then Some (3, c AND 0x0F)
      else if c AND 0xF8 = 0xF0 then Some (4, c AND 0x07)
      else None)"

fun utf8_continue :: "(nat \<Rightarrow> char) \<Rightarrow> nat \<Rightarrow> nat \<Rightarrow> nat \<Rightarrow> nat option" where
  "utf8_continue m pos 0 cp = Some cp"
| "utf8_continue m pos (Suc n) cp =
     (if code (m pos) AND 0xC0 \<noteq> 0x80 then None
      else utf8_continue m (pos + 1) n (push_bit 6 cp OR (code (m pos) AND 0x3F)))"

definition utf8_bad_cp :: "nat \<Rightarrow> nat \<Rightarrow> bool" where
  "utf8_bad_cp cp bytes \<longleftrightarrow>
     (cp \<le> 0x7F \<and> bytes \<noteq> 1) \<or>
     (0x80 \<le> cp \<and> cp \<le> 0x07FF \<and> bytes \<noteq> 2) \<or>
     (0x0800 \<le> cp \<and> cp \<le> 0xFFFF \<and> bytes \<noteq> 3) \<or>
     (0x10000 \<le> cp \<and> cp \<le> 0x10FFFF \<and> bytes \<noteq> 4) \<or>
     (0xD800 \<le> cp \<and> cp \<le> 0xDFFF) \<or>
     0x10FFFF < cp"

function is_valid_utf8_from :: "(nat \<Rightarrow> char) \<Rightarrow> nat \<Rightarrow> nat \<Rightarrow> bool" where
  "is_valid_utf8_from m c n =
     (if c < n then
        (case utf8_lead (code (m c)) of
           None \<Rightarrow> False
         | Some (bytes, cp) \<Rightarrow>
             (case utf8_continue m (c + 1) (bytes - 1) cp of
                None \<Rightarrow> False
              | Some cp' \<Rightarrow>
                  (if utf8_bad_cp cp' bytes then False
                   else is_valid_utf8_from m (c + 1 + (bytes - 1)) n)))
      else True)"
  by pat_completeness auto
termination
  by (relation "measure (\<lambda>(m, c, n). n - c)") auto

declare is_valid_utf8_from.simps [simp del]

definition is_valid_utf8 :: "(nat \<Rightarrow> char) \<Rightarrow> nat \<Rightarrow> bool" where
  "is_valid_utf8 m n = is_valid_utf8_from m 0 n"

subsection \<open>Reference definitions\<close>

text \<open>Unicode scalar values and their encoding: what the validator is meant to accept.\<close>

definition scalar_value :: "nat \<Rightarrow> bool" where
  "scalar_value cp \<longleftrightarrow> cp < 0xD800 \<or> (0xE000 \<le> cp \<and> cp \<le> 0x10FFFF)"

definition utf8_encode :: "nat \<Rightarrow> string" where
  "utf8_encode cp = map char_of
     (if cp < 0x80 then [cp]
      else if cp < 0x800 then [0xC0 + cp div 64, 0x80 + cp mod 64]
      else if cp < 0x10000 then [0xE0 + cp div 4096, 0x80 + cp div 64 mod 64, 0x80 + cp mod 64]
      else [0xF0 + cp div 262144, 0x80 + cp div 4096 mod 64, 0x80 + cp div 64 mod 64, 0x80 + cp mod 64])"

definition cont_byte :: "char \<Rightarrow> bool" where
  "cont_byte c \<longleftrightarrow> 128 \<le> code c \<and> code c < 192"

definition utf8_step :: "(nat \<Rightarrow> char) \<Rightarrow> nat \<Rightarrow> (nat \<times> nat) option" where
  "utf8_step m c =
     (case utf8_lead (code (m c)) of
        None \<Rightarrow> None
      | Some (bytes, cp) \<Rightarrow>
          (case utf8_continue m (c + 1) (bytes - 1) cp of
             None \<Rightarrow> None
           | Some cp' \<Rightarrow> if utf8_bad_cp cp' bytes then None else Some (bytes, cp')))"

section \<open>UTF-8\<close>

lemma and_high_mask:
  fixes n :: nat
  assumes "n < 2 ^ (k + j)"
  shows "n AND push_bit k (mask j) = 2 ^ k * (n div 2 ^ k)"
proof -
  have "n AND push_bit k (mask j) = push_bit k (take_bit j (drop_bit k n))"
    by (rule bit_eqI) (auto simp: bit_simps)
  moreover have "n div 2 ^ k < 2 ^ j" using assms by (simp add: less_mult_imp_div_less power_add mult.commute)
  ultimately show ?thesis by (simp add: push_bit_eq_mult drop_bit_eq_div take_bit_nat_eq_self)
qed

lemma byte_masks:
  fixes n :: nat
  assumes "n < 256"
  shows "n AND 0x80 = 128 * (n div 128)" "n AND 0xC0 = 64 * (n div 64)" "n AND 0xE0 = 32 * (n div 32)"
    "n AND 0xF0 = 16 * (n div 16)" "n AND 0xF8 = 8 * (n div 8)"
  using assms and_high_mask [of n 7 1] and_high_mask [of n 6 2] and_high_mask [of n 5 3]
    and_high_mask [of n 4 4] and_high_mask [of n 3 5]
  by (simp_all add: mask_eq_exp_minus_1 push_bit_eq_mult)

lemma low_masks:
  "n AND 0x7F = n mod 128" "n AND 0x3F = n mod 64" "n AND 0x1F = n mod 32" "n AND 0x0F = n mod 16" "n AND 0x07 = n mod 8"
    for n :: nat
  using take_bit_eq_mask [of 7 n] take_bit_eq_mask [of 6 n] take_bit_eq_mask [of 5 n]
    take_bit_eq_mask [of 4 n] take_bit_eq_mask [of 3 n]
  by (simp_all add: mask_eq_exp_minus_1 take_bit_eq_mod)

lemma utf8_lead_byte:
  assumes n: "n < 256"
  shows "utf8_lead n =
     (if n < 128 then Some (1, n)
      else if 192 \<le> n \<and> n < 224 then Some (2, n - 192)
      else if 224 \<le> n \<and> n < 240 then Some (3, n - 224)
      else if 240 \<le> n \<and> n < 248 then Some (4, n - 240)
      else None)"
proof -
  consider "n < 128" | "128 \<le> n" "n < 192" | "192 \<le> n" "n < 224" | "224 \<le> n" "n < 240"
    | "240 \<le> n" "n < 248" | "248 \<le> n"
    by linarith
  then show ?thesis
  proof cases
    case 1
    then show ?thesis using n by (simp add: utf8_lead_def byte_masks low_masks)
  next
    case 2
    then have "n div 128 = 1" "n div 64 = 2" "n div 32 \<le> 5" "n div 16 \<le> 11" "n div 8 \<le> 23" by auto
    with 2 n show ?thesis by (simp add: utf8_lead_def byte_masks low_masks)
  next
    case 3
    then have "n div 128 = 1" "n div 32 = 6" by auto
    then have "n mod 32 = n - 192" by (simp flip: minus_div_mult_eq_mod)
    with 3 n \<open>n div 128 = 1\<close> \<open>n div 32 = 6\<close> show ?thesis by (simp add: utf8_lead_def byte_masks low_masks)
  next
    case 4
    then have "n div 128 = 1" "n div 32 = 7" "n div 16 = 14" by auto
    then have "n mod 16 = n - 224" by (simp flip: minus_div_mult_eq_mod)
    with 4 n \<open>n div 128 = 1\<close> \<open>n div 32 = 7\<close> \<open>n div 16 = 14\<close> show ?thesis by (simp add: utf8_lead_def byte_masks low_masks)
  next
    case 5
    then have "n div 128 = 1" "n div 32 = 7" "n div 16 = 15" "n div 8 = 30" by auto
    then have "n mod 8 = n - 240" by (simp flip: minus_div_mult_eq_mod)
    with 5 n \<open>n div 128 = 1\<close> \<open>n div 32 = 7\<close> \<open>n div 16 = 15\<close> \<open>n div 8 = 30\<close> show ?thesis by (simp add: utf8_lead_def byte_masks low_masks)
  next
    case 6
    with n have "n div 128 = 1" "n div 32 = 7" "n div 16 = 15" "n div 8 = 31" by auto
    with 6 n show ?thesis by (simp add: utf8_lead_def byte_masks low_masks)
  qed
qed

lemmas utf8_lead_ranges = utf8_lead_byte [of "code c" for c, simplified]

lemma utf8_continuation_range: "code c AND 0xC0 = 0x80 \<longleftrightarrow> 128 \<le> code c \<and> code c < 192"
proof -
  have "64 * (n div 64) = 128 \<longleftrightarrow> 128 \<le> n \<and> n < 192" for n :: nat by auto
  then show ?thesis by (simp add: byte_masks)
qed

lemma utf8_shift:
  "push_bit 6 cp OR (x AND 0x3F) = cp * 64 + (x mod 64)" for cp x :: nat
proof -
  have m: "x AND 0x3F = take_bit 6 x"
    by (simp add: take_bit_eq_mask mask_eq_exp_minus_1)
  have "push_bit 6 cp AND take_bit 6 x = 0" by (rule bit_eqI) (auto simp: bit_simps)
  then have "push_bit 6 cp OR take_bit 6 x = push_bit 6 cp + take_bit 6 x"
    by (rule disjunctive_add_eq_or [symmetric])
  then show ?thesis by (simp add: m push_bit_eq_mult take_bit_eq_mod)
qed

lemma utf8_continue_shift:
  "utf8_continue (\<lambda>i. m (d + i)) pos n cp = utf8_continue m (d + pos) n cp"
  by (induction n arbitrary: pos cp) simp_all

lemma cont_mod: "128 \<le> b \<Longrightarrow> b < 192 \<Longrightarrow> b mod 64 = b - 128" for b :: nat
proof -
  assume "128 \<le> b" "b < 192"
  then have "b div 64 = 2" by auto
  then show ?thesis by (simp flip: minus_div_mult_eq_mod)
qed

lemma utf8_continue_Suc:
  "utf8_continue m pos (Suc n) cp =
     (if 128 \<le> code (m pos) \<and> code (m pos) < 192
      then utf8_continue m (pos + 1) n (cp * 64 + (code (m pos) - 128)) else None)"
  by (simp add: utf8_continuation_range utf8_shift not_less cont_mod)

declare utf8_continue.simps(2) [simp del]

lemma utf8_continue_few:
  "utf8_continue m p (Suc 0) cp =
     (if cont_byte (m p) then Some (cp * 64 + (code (m p) - 128)) else None)"
  "utf8_continue m p (Suc (Suc 0)) cp =
     (if cont_byte (m p) \<and> cont_byte (m (Suc p))
      then Some ((cp * 64 + (code (m p) - 128)) * 64 + (code (m (Suc p)) - 128)) else None)"
  "utf8_continue m p (Suc (Suc (Suc 0))) cp =
     (if cont_byte (m p) \<and> cont_byte (m (Suc p)) \<and> cont_byte (m (Suc (Suc p)))
      then Some (((cp * 64 + (code (m p) - 128)) * 64 + (code (m (Suc p)) - 128)) * 64
                 + (code (m (Suc (Suc p))) - 128)) else None)"
  by (simp_all add: utf8_continue_Suc cont_byte_def)

lemma is_valid_utf8_from_step:
  "is_valid_utf8_from m c n =
     (c < n \<longrightarrow> (case utf8_step m c of None \<Rightarrow> False
                | Some (bytes, _) \<Rightarrow> is_valid_utf8_from m (c + 1 + (bytes - 1)) n))"
  by (subst is_valid_utf8_from.simps) (simp add: utf8_step_def split: option.splits prod.splits)

lemma utf8_step_shift: "utf8_step m c = utf8_step (\<lambda>i. m (c + i)) 0"
  using utf8_continue_shift [of m c 1] by (simp add: utf8_step_def cong: option.case_cong)

lemma c_str_drop: "c_str s (c + i) = c_str (drop c s) i"
  by (auto simp: c_str_def)

lemma c_str_simps [simp]:
  "c_str [] i = nul"
  "c_str (x # xs) 0 = x"
  "c_str (x # xs) (Suc i) = c_str xs i"
  by (auto simp: c_str_def)

lemma c_str_cont: "cont_byte (c_str s 0) \<Longrightarrow> \<exists>x xs. s = x # xs"
  by (cases s) (simp_all add: cont_byte_def)

lemma cont_byteE:
  assumes "cont_byte c"
  obtains y where "y < 64" "code c = 128 + y"
  using assms by (auto simp: cont_byte_def nat_le_iff_add)

lemma split64:
  fixes y :: nat
  shows "y < 64 \<Longrightarrow> (a * 64 + y) div 64 = a" "y < 64 \<Longrightarrow> (a * 64 + y) mod 64 = y"
    "cp div 4096 = cp div 64 div (64 :: nat)" "cp div 262144 = cp div 64 div 64 div (64 :: nat)"
  by (simp_all flip: div_mult2_eq)

lemma split64_3:
  fixes cp :: nat
  assumes "y1 < 64" "y2 < 64" "cp = (a * 64 + y1) * 64 + y2"
  shows "cp div 4096 = a" "cp div 64 mod 64 = y1" "cp mod 64 = y2"
  using assms by (simp_all only: split64)

lemma split64_4:
  fixes cp :: nat
  assumes "y1 < 64" "y2 < 64" "y3 < 64" "cp = ((a * 64 + y1) * 64 + y2) * 64 + y3"
  shows "cp div 262144 = a" "cp div 4096 mod 64 = y1" "cp div 64 mod 64 = y2" "cp mod 64 = y3"
  using assms by (simp_all only: split64)

lemma utf8_step_sound:
  assumes "utf8_step (c_str (x0 # s)) 0 = Some (k, cp)"
  shows "scalar_value cp \<and> (\<exists>t. x0 # s = utf8_encode cp @ t) \<and> k = length (utf8_encode cp)"
proof -
  let ?m = "c_str (x0 # s)"
  from assms obtain cp0 where lead: "utf8_lead (code x0) = Some (k, cp0)"
    and cont: "utf8_continue ?m (Suc 0) (k - 1) cp0 = Some cp" and ok: "\<not> utf8_bad_cp cp k"
    by (auto simp: utf8_step_def split: option.splits if_splits)
  from lead consider (one) "code x0 < 128" "k = 1" "cp0 = code x0"
    | (two) "192 \<le> code x0" "code x0 < 224" "k = 2" "cp0 = code x0 - 192"
    | (three) "224 \<le> code x0" "code x0 < 240" "k = 3" "cp0 = code x0 - 224"
    | (four) "240 \<le> code x0" "code x0 < 248" "k = 4" "cp0 = code x0 - 240"
    by (auto simp: utf8_lead_ranges split: if_splits)
  then show ?thesis
  proof cases
    case one
    with cont show ?thesis by (auto simp: scalar_value_def utf8_encode_def)
  next
    case two
    then have "k - 1 = Suc 0" by simp
    with cont two have b: "cont_byte (c_str s 0)" "cp = (code x0 - 192) * 64 + (code (c_str s 0) - 128)"
      by (auto simp: utf8_continue_few split: if_splits)
    then obtain x1 t where s: "s = x1 # t" using c_str_cont by blast
    from ok two have "0x80 \<le> cp" "cp \<le> 0x7FF" by (auto simp: utf8_bad_cp_def)
    moreover from b(1) s obtain y1 where y: "y1 < 64" "code x1 = 128 + y1" by (auto elim: cont_byteE)
    then have "char_of (128 + y1) = x1" by (metis char_of_char)
    moreover from y s b(2) have "cp div 64 = code x0 - 192" "cp mod 64 = y1"
      by (simp_all add: split64)
    ultimately show ?thesis using two s by (simp add: scalar_value_def utf8_encode_def)
  next
    case three
    then have "k - 1 = Suc (Suc 0)" by simp
    with cont have "utf8_continue ?m (Suc 0) (Suc (Suc 0)) cp0 = Some cp" by (simp only:)
    with three have b: "cont_byte (c_str s 0)" "cont_byte (c_str s (Suc 0))"
      "cp = ((code x0 - 224) * 64 + (code (c_str s 0) - 128)) * 64 + (code (c_str s (Suc 0)) - 128)"
      by (auto simp: utf8_continue_few split: if_splits)
    then obtain x1 x2 t where s: "s = x1 # x2 # t"
      using c_str_cont [of s] c_str_cont [of "tl s"] by auto
    from ok three have "0x800 \<le> cp" "cp \<le> 0xFFFF" "\<not> (0xD800 \<le> cp \<and> cp \<le> 0xDFFF)"
      by (auto simp: utf8_bad_cp_def)
    moreover from b(1,2) s obtain y1 y2 where y: "y1 < 64" "code x1 = 128 + y1" "y2 < 64" "code x2 = 128 + y2"
      by (auto elim!: cont_byteE)
    then have "char_of (128 + y1) = x1" "char_of (128 + y2) = x2" by (metis char_of_char)+
    moreover from y s b(3) have "cp = ((code x0 - 224) * 64 + y1) * 64 + y2" by simp
    note split64_3 [OF y(1,3) this]
    moreover from calculation have "scalar_value cp" by (simp add: scalar_value_def) linarith
    ultimately show ?thesis using three s by (simp add: utf8_encode_def)
  next
    case four
    then have "k - 1 = Suc (Suc (Suc 0))" by simp
    with cont have "utf8_continue ?m (Suc 0) (Suc (Suc (Suc 0))) cp0 = Some cp" by (simp only:)
    with four have b: "cont_byte (c_str s 0)" "cont_byte (c_str s (Suc 0))" "cont_byte (c_str s (Suc (Suc 0)))"
      "cp = (((code x0 - 240) * 64 + (code (c_str s 0) - 128)) * 64 + (code (c_str s (Suc 0)) - 128)) * 64
            + (code (c_str s (Suc (Suc 0))) - 128)"
      by (auto simp: utf8_continue_few split: if_splits)
    then obtain x1 x2 x3 t where s: "s = x1 # x2 # x3 # t"
      using c_str_cont [of s] c_str_cont [of "tl s"] c_str_cont [of "tl (tl s)"] by auto
    from ok four have "0x10000 \<le> cp" "cp \<le> 0x10FFFF" by (auto simp: utf8_bad_cp_def)
    moreover from b(1-3) s obtain y1 y2 y3 where y: "y1 < 64" "code x1 = 128 + y1" "y2 < 64" "code x2 = 128 + y2"
      "y3 < 64" "code x3 = 128 + y3"
      by (auto elim!: cont_byteE)
    then have "char_of (128 + y1) = x1" "char_of (128 + y2) = x2" "char_of (128 + y3) = x3"
      by (metis char_of_char)+
    moreover from y s b(4) have "cp = (((code x0 - 240) * 64 + y1) * 64 + y2) * 64 + y3" by simp
    note split64_4 [OF y(1,3,5) this]
    ultimately show ?thesis using four s by (simp add: scalar_value_def utf8_encode_def)
  qed
qed


lemma utf8_encode_nonempty [simp]: "utf8_encode cp \<noteq> []"
  by (simp add: utf8_encode_def)

lemma utf8_step_complete:
  assumes "scalar_value cp"
  shows "utf8_step (c_str (utf8_encode cp @ t)) 0 = Some (length (utf8_encode cp), cp)"
proof -
  consider "cp < 0x80" | "0x80 \<le> cp" "cp < 0x800" | "0x800 \<le> cp" "cp < 0x10000" | "0x10000 \<le> cp" "cp \<le> 0x10FFFF"
    using assms unfolding scalar_value_def by linarith
  then show ?thesis
  proof cases
    case 1
    then show ?thesis
      by (simp add: utf8_step_def utf8_encode_def utf8_lead_byte utf8_bad_cp_def)
  next
    case 2
    then have "cp div 64 < 32" by auto
    then show ?thesis using 2
      by (simp add: utf8_step_def utf8_encode_def utf8_lead_byte utf8_continue_few cont_byte_def utf8_bad_cp_def)
  next
    case 3
    then have "cp div 4096 < 16" by auto
    moreover have "(cp div 4096 * 64 + cp div 64 mod 64) * 64 + cp mod 64 = cp"
      by (simp only: split64(3) div_mult_mod_eq)
    moreover have "\<not> (0xD800 \<le> cp \<and> cp \<le> 0xDFFF)" using assms unfolding scalar_value_def by linarith
    ultimately show ?thesis using 3
      by (simp add: utf8_step_def utf8_encode_def utf8_lead_byte utf8_continue_few
          cont_byte_def utf8_bad_cp_def numeral_2_eq_2)
  next
    case 4
    then have "cp div 262144 < 8" by auto
    moreover have "((cp div 262144 * 64 + cp div 4096 mod 64) * 64 + cp div 64 mod 64) * 64 + cp mod 64 = cp"
      by (simp only: split64(3,4) div_mult_mod_eq)
    ultimately show ?thesis using 4
      by (simp add: utf8_step_def utf8_encode_def utf8_lead_byte utf8_continue_few
          cont_byte_def utf8_bad_cp_def numeral_3_eq_3)
  qed
qed

lemma utf8_step_c_str: "utf8_step (c_str s) c = utf8_step (c_str (drop c s)) 0"
  using utf8_step_shift [of "c_str s" c] c_str_drop [of s c] by simp

lemma is_valid_utf8_complete:
  "list_all scalar_value cps \<Longrightarrow> drop c s = concat (map utf8_encode cps) \<Longrightarrow>
     is_valid_utf8_from (c_str s) c (length s)"
proof (induction cps arbitrary: c)
  case Nil
  then show ?case by (subst is_valid_utf8_from.simps) simp
next
  case (Cons cp cps)
  let ?k = "length (utf8_encode cp)"
  have "utf8_step (c_str s) c = Some (?k, cp)"
    using utf8_step_complete [of cp] Cons.prems by (subst utf8_step_c_str) simp
  moreover have "drop (?k + c) s = concat (map utf8_encode cps)"
    using arg_cong [OF Cons.prems(2), of "drop ?k"] by (simp add: add.commute)
  then have "is_valid_utf8_from (c_str s) (?k + c) (length s)"
    using Cons.IH Cons.prems(1) by simp
  moreover have "c + 1 + (?k - 1) = ?k + c" using utf8_encode_nonempty [of cp] by (cases "utf8_encode cp") auto
  ultimately show ?case by (subst is_valid_utf8_from_step) (simp only: option.case prod.case simp_thms)
qed

lemma is_valid_utf8_sound:
  "is_valid_utf8_from m c n \<Longrightarrow> m = c_str s \<Longrightarrow> n = length s \<Longrightarrow>
     \<exists>cps. list_all scalar_value cps \<and> drop c s = concat (map utf8_encode cps)"
proof (induction m c n rule: is_valid_utf8_from.induct)
  case (1 m c n)
  show ?case
  proof (cases "c < n")
    case False
    with 1 show ?thesis by (intro exI [of _ "[]"]) simp
  next
    case True
    with "1.prems" obtain k cp where step: "utf8_step m c = Some (k, cp)"
      and rest: "is_valid_utf8_from m (c + 1 + (k - 1)) n"
      by (subst (asm) is_valid_utf8_from_step) (auto split: option.splits)
    obtain x0 r where x: "drop c s = x0 # r" using True "1.prems" by (cases "drop c s") auto
    from step x "1.prems" utf8_step_c_str [of s c]
    have "utf8_step (c_str (x0 # r)) 0 = Some (k, cp)" by simp
    from utf8_step_sound [OF this] obtain t where cp: "scalar_value cp" "x0 # r = utf8_encode cp @ t"
      "k = length (utf8_encode cp)" by blast
    then have k: "c + 1 + (k - 1) = k + c" by (cases "utf8_encode cp") auto
    from step obtain cp0 where cont: "utf8_lead (code (m c)) = Some (k, cp0)"
      "utf8_continue m (c + 1) (k - 1) cp0 = Some cp" "\<not> utf8_bad_cp cp k"
      by (auto simp: utf8_step_def split: option.splits if_splits)
    obtain cps where cps: "list_all scalar_value cps" "drop (k + c) s = concat (map utf8_encode cps)"
      using "1.IH" [OF True cont(1) refl cont(2,3) rest "1.prems"(2,3)] unfolding k by blast
    have "t = drop (k + c) s" using arg_cong [OF x, of "drop k"] cp by (simp add: add.commute)
    with cps cp x show ?thesis by (intro exI [of _ "cp # cps"]) simp
  qed
qed

lemma is_valid_utf8_iff:
  "is_valid_utf8 (c_str s) (length s) \<longleftrightarrow>
     (\<exists>cps. list_all scalar_value cps \<and> s = concat (map utf8_encode cps))"
  using is_valid_utf8_complete [of _ 0 s] is_valid_utf8_sound [of "c_str s" 0 "length s" s]
  by (auto simp: is_valid_utf8_def)

section \<open>Properties\<close>

text \<open>
  C17. On a NUL-terminated string \<open>is_valid_utf8\<close> accepts exactly the concatenations of the UTF-8
  encodings of Unicode scalar values: no overlong form, no surrogate, nothing above U+10FFFF, no
  truncated sequence.
\<close>

theorem is_valid_utf8_exact:
  "is_valid_utf8 (c_str s) (length s) \<longleftrightarrow>
     (\<exists>cps. list_all scalar_value cps \<and> s = concat (map utf8_encode cps))"
  by (rule is_valid_utf8_iff)

end
