(* ===== verification/Glob.thy ===== *)
theory Glob
  imports Strings
begin

text \<open>
  Glob matching, from \<^verbatim>\<open>mysqlshdk/libs/utils/utils_general.cc\<close>: \<open>match_glob\<close> (an iterative matcher
  that backtracks to the last \<^verbatim>\<open>*\<close> only) and \<open>unescape_glob\<close>.
\<close>

section \<open>Definitions\<close>

abbreviation k_glob_match_single :: char where "k_glob_match_single \<equiv> CHR ''?''"
abbreviation k_glob_match_many :: char where "k_glob_match_many \<equiv> CHR ''*''"

definition glob_special :: "char \<Rightarrow> bool" where
  "glob_special c \<longleftrightarrow> c = backslash \<or> c = k_glob_match_many \<or> c = k_glob_match_single"

text \<open>
  The loop of \<open>_match_glob\<close>, with its four cursors: \<open>px\<close> and \<open>sx\<close> into the pattern and the
  string, \<open>ppx\<close> the offset of the last \<^verbatim>\<open>*\<close> and \<open>psx\<close> where to resume in the string (0 when
  there was no \<^verbatim>\<open>*\<close>). A round that reaches the end of the \<open>switch\<close> resumes or fails
  (\<open>glob_resume\<close> is the condition).
\<close>

definition glob_resume :: "string \<Rightarrow> nat \<Rightarrow> bool" where
  "glob_resume str psx \<longleftrightarrow> 0 < psx \<and> psx \<le> length str"

function match_glob_loop :: "string \<Rightarrow> string \<Rightarrow> nat \<Rightarrow> nat \<Rightarrow> nat \<Rightarrow> nat \<Rightarrow> bool" where
  "match_glob_loop pat str px sx ppx psx =
     (if px < length pat \<or> sx < length str then
        (if px < length pat \<and> pat ! px = k_glob_match_single \<and> sx < length str
         then match_glob_loop pat str (px + 1) (sx + 1) ppx psx
         else if px < length pat \<and> pat ! px = k_glob_match_many
         then match_glob_loop pat str (px + 1) sx px (sx + 1)
         else if px < length pat \<and> pat ! px = backslash \<and> px + 1 < length pat \<and> glob_special (pat ! (px + 1))
                 \<and> sx < length str \<and> str ! sx = pat ! (px + 1)
         then match_glob_loop pat str (px + 2) (sx + 1) ppx psx
         else if px < length pat \<and> pat ! px \<noteq> k_glob_match_single
                 \<and> \<not> (pat ! px = backslash \<and> px + 1 < length pat \<and> glob_special (pat ! (px + 1)))
                 \<and> sx < length str \<and> str ! sx = pat ! px
         then match_glob_loop pat str (px + 1) (sx + 1) ppx psx
         else if glob_resume str psx
         then match_glob_loop pat str (ppx + 1) psx ppx (psx + 1)
         else False)
      else True)"
  by pat_completeness auto
termination
proof (relation "measures
    [\<lambda>(pat, str, px, sx, ppx, psx). max (length pat - px) (if psx = 0 then 0 else length pat - (ppx + 1)),
     \<lambda>(pat, str, px, sx, ppx, psx). length str + 1 - psx,
     \<lambda>(pat, str, px, sx, ppx, psx). length pat - px]", goal_cases)
  case (6 pat str px sx ppx psx)
  then have "0 < psx" "psx \<le> length str" by (simp_all add: glob_resume_def)
  then show ?case by (auto simp: max_def)
qed (auto simp: max_def)

declare match_glob_loop.simps [simp del]

definition match_glob_cs :: "string \<Rightarrow> string \<Rightarrow> bool" where
  "match_glob_cs pat str = match_glob_loop pat str 0 0 0 0"

definition match_glob :: "string \<Rightarrow> string \<Rightarrow> bool \<Rightarrow> bool" where
  "match_glob pattern s case_sensitive =
     (if \<not> case_sensitive then match_glob_cs (str_lower pattern) (str_lower s)
      else match_glob_cs pattern s)"

fun unescape_glob :: "string \<Rightarrow> string option" where
  "unescape_glob [] = Some []"
| "unescape_glob (c # s) =
     (if c = k_glob_match_single \<or> c = k_glob_match_many then None
      else if c = backslash \<and> s \<noteq> [] \<and> glob_special (hd s)
      then map_option (Cons (hd s)) (unescape_glob (tl s))
      else map_option (Cons c) (unescape_glob s))"

text \<open>What a glob pattern means, by recursion on the pattern.\<close>

function glob_ref :: "string \<Rightarrow> string \<Rightarrow> bool" where
  "glob_ref [] s = (s = [])"
| "glob_ref (c # p) s =
     (if c = k_glob_match_many then (\<exists>k \<le> length s. glob_ref p (drop k s))
      else if c = k_glob_match_single then s \<noteq> [] \<and> glob_ref p (tl s)
      else if c = backslash \<and> p \<noteq> [] \<and> glob_special (hd p)
      then s \<noteq> [] \<and> hd s = hd p \<and> glob_ref (tl p) (tl s)
      else s \<noteq> [] \<and> hd s = c \<and> glob_ref p (tl s))"
  by pat_completeness auto
termination
  by (relation "measure (\<lambda>(p, s). length p)") auto

text \<open>
  An element of the pattern other than \<^verbatim>\<open>*\<close> takes one character: how many pattern characters it
  is written with, and which characters it accepts.
\<close>

definition glob_escaped :: "string \<Rightarrow> nat \<Rightarrow> bool" where
  "glob_escaped pat px \<longleftrightarrow> pat ! px = backslash \<and> px + 1 < length pat \<and> glob_special (pat ! (px + 1))"

definition glob_next :: "string \<Rightarrow> nat \<Rightarrow> nat" where
  "glob_next pat px = (if glob_escaped pat px then px + 2 else px + 1)"

definition glob_accepts :: "string \<Rightarrow> nat \<Rightarrow> char \<Rightarrow> bool" where
  "glob_accepts pat px c \<longleftrightarrow>
     pat ! px = k_glob_match_single \<or> c = (if glob_escaped pat px then pat ! (px + 1) else pat ! px)"

lemma glob_accepts_cases:
  "glob_accepts pat px c \<longleftrightarrow> pat ! px = k_glob_match_single
     \<or> (pat ! px = backslash \<and> px + 1 < length pat \<and> glob_special (pat ! (px + 1)) \<and> c = pat ! (px + 1))
     \<or> (\<not> (pat ! px = backslash \<and> px + 1 < length pat \<and> glob_special (pat ! (px + 1))) \<and> c = pat ! px)"
  by (auto simp: glob_accepts_def glob_escaped_def)

lemma match_glob_loop_step:
  "match_glob_loop pat str px sx ppx psx =
     (if px < length pat \<or> sx < length str then
        (if px < length pat \<and> pat ! px = k_glob_match_many
         then match_glob_loop pat str (px + 1) sx px (sx + 1)
         else if px < length pat \<and> sx < length str \<and> glob_accepts pat px (str ! sx)
         then match_glob_loop pat str (glob_next pat px) (sx + 1) ppx psx
         else glob_resume str psx \<and> match_glob_loop pat str (ppx + 1) psx ppx (psx + 1))
      else True)"
proof -
  have e: "(pat ! px = backslash \<and> px + 1 < length pat \<and> glob_special (pat ! (px + 1)) \<and> X) \<longleftrightarrow> glob_escaped pat px \<and> X"
    "(pat ! px = backslash \<and> px + 1 < length pat \<and> glob_special (pat ! (px + 1))) \<longleftrightarrow> glob_escaped pat px" for X
    by (auto simp: glob_escaped_def)
  have ne: "glob_escaped pat px \<Longrightarrow> pat ! px \<noteq> k_glob_match_single \<and> pat ! px \<noteq> k_glob_match_many"
    by (auto simp: glob_escaped_def)
  show ?thesis
    unfolding match_glob_loop.simps [of pat str px sx ppx psx] e glob_accepts_def glob_next_def
    using ne by (cases "px < length pat"; cases "glob_escaped pat px"; cases "sx < length str") simp_all
qed

lemma glob_ref_many:
  assumes "px < length pat" "pat ! px = k_glob_match_many"
  shows "glob_ref (drop px pat) t \<longleftrightarrow> (\<exists>k \<le> length t. glob_ref (drop (px + 1) pat) (drop k t))"
  using assms by (simp add: Cons_nth_drop_Suc [symmetric])

lemma glob_ref_one:
  assumes "px < length pat" "pat ! px \<noteq> k_glob_match_many"
  shows "glob_ref (drop px pat) t \<longleftrightarrow>
    t \<noteq> [] \<and> glob_accepts pat px (hd t) \<and> glob_ref (drop (glob_next pat px) pat) (tl t)"
proof -
  have d: "drop px pat = pat ! px # drop (Suc px) pat" using assms(1) by (simp add: Cons_nth_drop_Suc)
  have e: "glob_escaped pat px \<longleftrightarrow> pat ! px = backslash \<and> drop (Suc px) pat \<noteq> [] \<and> glob_special (hd (drop (Suc px) pat))"
    by (auto simp: glob_escaped_def hd_drop_conv_nth)
  show ?thesis
  proof (cases "glob_escaped pat px")
    case True
    then have "drop (Suc px) pat = pat ! Suc px # drop (px + 2) pat"
      by (simp add: glob_escaped_def Cons_nth_drop_Suc [symmetric])
    with True d assms(2) show ?thesis by (auto simp: glob_accepts_def glob_next_def glob_escaped_def)
  next
    case False
    with d e assms(2) show ?thesis by (auto simp: glob_accepts_def glob_next_def)
  qed
qed

lemma glob_next_le: "px < length pat \<Longrightarrow> glob_next pat px \<le> length pat"
  by (auto simp: glob_next_def glob_escaped_def)

text \<open>
  What is known about the cursors: whatever the pattern after the last \<^verbatim>\<open>*\<close> matches, the part
  already matched takes as many characters of it as of the string.
\<close>

definition glob_inv :: "string \<Rightarrow> string \<Rightarrow> nat \<Rightarrow> nat \<Rightarrow> nat \<Rightarrow> nat \<Rightarrow> bool" where
  "glob_inv pat str px sx ppx psx \<longleftrightarrow>
     px \<le> length pat \<and> sx \<le> length str \<and>
     (0 < psx \<longrightarrow> psx \<le> sx + 1 \<and> ppx < length pat \<and>
        (\<forall>t. glob_ref (drop (ppx + 1) pat) t \<longrightarrow>
           sx + 1 - psx \<le> length t \<and> glob_ref (drop px pat) (drop (sx + 1 - psx) t)))"

definition glob_back :: "string \<Rightarrow> string \<Rightarrow> nat \<Rightarrow> nat \<Rightarrow> bool" where
  "glob_back pat str ppx psx \<longleftrightarrow>
     0 < psx \<and> (\<exists>k. psx \<le> k \<and> k \<le> length str \<and> glob_ref (drop (ppx + 1) pat) (drop k str))"

lemma glob_inv_one:
  assumes "glob_inv pat str px sx ppx psx" "px < length pat" "pat ! px \<noteq> k_glob_match_many" "sx < length str"
  shows "glob_inv pat str (glob_next pat px) (sx + 1) ppx psx"
proof -
  have "sx + 2 - psx \<le> length t \<and> glob_ref (drop (glob_next pat px) pat) (drop (sx + 2 - psx) t)"
    if "0 < psx" "glob_ref (drop (ppx + 1) pat) t" for t
  proof -
    from assms(1) that have n: "psx \<le> sx + 1" "sx + 1 - psx \<le> length t" "glob_ref (drop px pat) (drop (sx + 1 - psx) t)"
      by (auto simp: glob_inv_def)
    from n(3) have "drop (sx + 1 - psx) t \<noteq> []" "glob_ref (drop (glob_next pat px) pat) (tl (drop (sx + 1 - psx) t))"
      unfolding glob_ref_one [OF assms(2,3)] by blast+
    moreover have "sx + 2 - psx = Suc (sx + 1 - psx)" using n(1) by simp
    ultimately show ?thesis by (simp add: drop_Suc tl_drop)
  qed
  with assms glob_next_le [OF assms(2)] show ?thesis by (auto simp: glob_inv_def)
qed

lemma glob_back_many:
  assumes "glob_inv pat str px sx ppx psx" "px < length pat" "pat ! px = k_glob_match_many"
    "glob_back pat str ppx psx"
  shows "glob_ref (drop px pat) (drop sx str)"
proof -
  from assms(4) obtain k where k: "0 < psx" "psx \<le> k" "k \<le> length str" "glob_ref (drop (ppx + 1) pat) (drop k str)"
    by (auto simp: glob_back_def)
  with assms(1) have n: "psx \<le> sx + 1" "sx + 1 - psx \<le> length str - k"
    "glob_ref (drop px pat) (drop (sx + 1 - psx) (drop k str))"
    by (auto simp: glob_inv_def)
  then obtain j where "j \<le> length (drop (sx + 1 - psx) (drop k str))"
    "glob_ref (drop (px + 1) pat) (drop j (drop (sx + 1 - psx) (drop k str)))"
    unfolding glob_ref_many [OF assms(2,3)] by blast
  then have j: "j + (sx + 1 - psx) + k \<le> length str" "glob_ref (drop (px + 1) pat) (drop (j + (sx + 1 - psx) + k) str)"
    using n(2) k(3) by (auto simp: add.assoc)
  have "sx \<le> j + (sx + 1 - psx) + k" using n(1) k(2) by simp
  then obtain i where i: "j + (sx + 1 - psx) + k = sx + i" using le_Suc_ex by blast
  from j have "sx + i \<le> length str" "glob_ref (drop (px + 1) pat) (drop (sx + i) str)" by (simp_all only: i)
  then have "i \<le> length (drop sx str) \<and> glob_ref (drop (px + 1) pat) (drop i (drop sx str))"
    by (simp add: add.commute)
  then show ?thesis unfolding glob_ref_many [OF assms(2,3)] by blast
qed

lemma ex_from:
  "(\<exists>k. m \<le> k \<and> k \<le> n \<and> P k) \<longleftrightarrow> m \<le> n \<and> (P m \<or> (\<exists>k. m + 1 \<le> k \<and> k \<le> n \<and> P k))" for m n :: nat
proof
  assume "\<exists>k. m \<le> k \<and> k \<le> n \<and> P k"
  then obtain k where "m \<le> k" "k \<le> n" "P k" by blast
  then show "m \<le> n \<and> (P m \<or> (\<exists>k. m + 1 \<le> k \<and> k \<le> n \<and> P k))" by (cases "k = m") auto
next
  assume "m \<le> n \<and> (P m \<or> (\<exists>k. m + 1 \<le> k \<and> k \<le> n \<and> P k))"
  then show "\<exists>k. m \<le> k \<and> k \<le> n \<and> P k" by (meson add_leD1 order_refl)
qed

lemma glob_back_resume:
  "glob_back pat str ppx psx \<longleftrightarrow>
     glob_resume str psx \<and> (glob_ref (drop (ppx + 1) pat) (drop psx str) \<or> glob_back pat str ppx (psx + 1))"
  unfolding glob_back_def glob_resume_def by (subst ex_from) simp

lemma glob_many_back:
  assumes "px < length pat" "pat ! px = k_glob_match_many" "sx \<le> length str"
  shows "glob_ref (drop px pat) (drop sx str) \<longleftrightarrow>
    glob_ref (drop (px + 1) pat) (drop sx str) \<or> glob_back pat str px (sx + 1)"
proof -
  have "glob_ref (drop px pat) (drop sx str) \<longleftrightarrow> (\<exists>k. sx \<le> k \<and> k \<le> length str \<and> glob_ref (drop (px + 1) pat) (drop k str))"
  proof
    assume "glob_ref (drop px pat) (drop sx str)"
    then obtain j where "j \<le> length str - sx" "glob_ref (drop (px + 1) pat) (drop (j + sx) str)"
      unfolding glob_ref_many [OF assms(1,2)] by auto
    with assms(3) show "\<exists>k. sx \<le> k \<and> k \<le> length str \<and> glob_ref (drop (px + 1) pat) (drop k str)"
      by (intro exI [of _ "j + sx"]) simp
  next
    assume "\<exists>k. sx \<le> k \<and> k \<le> length str \<and> glob_ref (drop (px + 1) pat) (drop k str)"
    then obtain k where "sx \<le> k" "k \<le> length str" "glob_ref (drop (px + 1) pat) (drop k str)" by blast
    then show "glob_ref (drop px pat) (drop sx str)"
      unfolding glob_ref_many [OF assms(1,2)] by (intro exI [of _ "k - sx"]) simp
  qed
  also have "\<dots> \<longleftrightarrow> glob_ref (drop (px + 1) pat) (drop sx str) \<or> glob_back pat str px (sx + 1)"
    using assms(3) unfolding glob_back_def by (subst ex_from) simp
  finally show ?thesis .
qed

lemma match_glob_loop_ref:
  "glob_inv pat str px sx ppx psx \<Longrightarrow>
     match_glob_loop pat str px sx ppx psx \<longleftrightarrow>
       glob_ref (drop px pat) (drop sx str) \<or> glob_back pat str ppx psx"
proof (induction pat str px sx ppx psx rule: match_glob_loop.induct)
  case (1 pat str px sx ppx psx)
  let ?loop = "match_glob_loop pat str"
  note step = match_glob_loop_step [of pat str px sx ppx psx]
  have inv: "px \<le> length pat" "sx \<le> length str" using "1.prems" by (auto simp: glob_inv_def)
  have many: "?loop (px + 1) sx px (sx + 1) \<longleftrightarrow>
      glob_ref (drop (px + 1) pat) (drop sx str) \<or> glob_back pat str px (sx + 1)"
    if "px < length pat" "pat ! px = k_glob_match_many"
  proof (rule "1.IH"(2))
    show "glob_inv pat str (px + 1) sx px (sx + 1)" using that inv by (auto simp: glob_inv_def)
  qed (use that in auto)
  have one: "?loop (glob_next pat px) (sx + 1) ppx psx \<longleftrightarrow>
      glob_ref (drop (glob_next pat px) pat) (drop (sx + 1) str) \<or> glob_back pat str ppx psx"
    if "px < length pat" "pat ! px \<noteq> k_glob_match_many" "sx < length str" "glob_accepts pat px (str ! sx)"
  proof -
    note inv' = glob_inv_one [OF "1.prems" that(1-3)]
    have ne: "glob_escaped pat px \<Longrightarrow> pat ! px \<noteq> k_glob_match_single" by (auto simp: glob_escaped_def)
    consider (single) "pat ! px = k_glob_match_single" "glob_next pat px = px + 1"
      | (escaped) "pat ! px \<noteq> k_glob_match_single" "glob_escaped pat px" "glob_next pat px = px + 2"
      | (char) "pat ! px \<noteq> k_glob_match_single" "\<not> glob_escaped pat px" "glob_next pat px = px + 1"
      using ne by (cases "glob_escaped pat px") (auto simp: glob_next_def)
    then show ?thesis
    proof cases
      case single
      with inv' "1.IH"(1) that show ?thesis by simp
    next
      case escaped
      with inv' "1.IH"(3) that show ?thesis by (simp add: glob_escaped_def glob_accepts_def)
    next
      case char
      with that have "str ! sx = pat ! px" by (simp add: glob_accepts_def)
      with char inv' "1.IH"(4) that show ?thesis by (auto simp: glob_escaped_def)
    qed
  qed
  have resume: "?loop (ppx + 1) psx ppx (psx + 1) \<longleftrightarrow>
      glob_ref (drop (ppx + 1) pat) (drop psx str) \<or> glob_back pat str ppx (psx + 1)"
    if r: "glob_resume str psx" "px < length pat \<or> sx < length str"
      "\<not> (px < length pat \<and> (pat ! px = k_glob_match_many \<or> sx < length str \<and> glob_accepts pat px (str ! sx)))"
  proof (rule "1.IH"(5))
    show "glob_inv pat str (ppx + 1) psx ppx (psx + 1)"
      using r(1) "1.prems" by (auto simp: glob_inv_def glob_resume_def)
  qed (use r [unfolded glob_accepts_cases] in auto)
  show ?case
  proof (cases "px < length pat \<and> pat ! px = k_glob_match_many")
    case True
    have "glob_ref (drop px pat) (drop sx str) \<longleftrightarrow>
        glob_ref (drop (px + 1) pat) (drop sx str) \<or> glob_back pat str px (sx + 1)"
      using True glob_many_back [OF _ _ inv(2)] by blast
    with True many step glob_back_many [OF "1.prems"] show ?thesis by auto
  next
    case False
    show ?thesis
    proof (cases "px < length pat \<and> sx < length str \<and> glob_accepts pat px (str ! sx)")
      case True
      with False have "glob_ref (drop px pat) (drop sx str) \<longleftrightarrow> glob_ref (drop (glob_next pat px) pat) (drop (sx + 1) str)"
        by (simp add: glob_ref_one hd_drop_conv_nth tl_drop drop_Suc)
      with True False one step show ?thesis by auto
    next
      case no: False
      show ?thesis
      proof (cases "px < length pat \<or> sx < length str")
        case True
        have "\<not> glob_ref (drop px pat) (drop sx str)"
        proof (cases "px < length pat")
          case True
          with False no show ?thesis by (auto simp: glob_ref_one hd_drop_conv_nth)
        next
          case past: False
          with True show ?thesis by simp
        qed
        with True False no resume step glob_back_resume [of pat str ppx psx] show ?thesis by auto
      next
        case past: False
        then show ?thesis using step by simp
      qed
    qed
  qed
qed

lemma match_glob_cs_ref: "match_glob_cs pat str \<longleftrightarrow> glob_ref pat str"
  using match_glob_loop_ref [of pat str 0 0 0 0] by (simp add: match_glob_cs_def glob_inv_def glob_back_def)

lemma unescape_glob_ref: "unescape_glob p = Some t \<Longrightarrow> glob_ref p s \<longleftrightarrow> s = t"
proof (induction p arbitrary: t s rule: unescape_glob.induct)
  case (2 c p)
  then show ?case by (cases s) (auto split: if_splits)
qed auto

lemma unescape_glob_None: "unescape_glob p = None \<Longrightarrow> k_glob_match_single \<in> set p \<or> k_glob_match_many \<in> set p"
proof (induction p rule: unescape_glob.induct)
  case (2 c p)
  then show ?case by (cases p) (auto split: if_splits)
qed simp

section \<open>Properties\<close>

text \<open>
  C14. \<open>match_glob\<close> decides the glob relation although it only ever backtracks to the last \<^verbatim>\<open>*\<close>;
  without case sensitivity it does so on the lower-cased pattern and string.
\<close>

theorem match_glob_correct:
  "match_glob pattern s case_sensitive \<longleftrightarrow>
     (if case_sensitive then glob_ref pattern s else glob_ref (str_lower pattern) (str_lower s))"
  by (simp add: match_glob_def match_glob_cs_ref)

text \<open>
  When \<open>unescape_glob\<close> gives a text, the pattern matches that text and no other; it gives none
  only for a pattern that holds a wildcard character.
\<close>

lemma unescape_glob_only_match:
  "case unescape_glob pattern of
     Some t \<Rightarrow> (\<forall>s. match_glob pattern s True \<longleftrightarrow> s = t)
   | None \<Rightarrow> k_glob_match_single \<in> set pattern \<or> k_glob_match_many \<in> set pattern"
  using unescape_glob_ref [of pattern] unescape_glob_None [of pattern]
  by (auto simp: match_glob_def match_glob_cs_ref split: option.splits)

end
