(* ===== verification/Lexing.thy ===== *)
theory Lexing
  imports Strings
begin

text \<open>
  The SQL lexing helpers of \<^verbatim>\<open>mysqlshdk/libs/utils/utils_lexing.{h,cc}\<close>: the \<open>span_*\<close> scanners,
  which find where a quoted string, an identifier or a comment ends, and \<open>SQL_iterator\<close>,
  which walks over the characters of a statement outside quotes and comments.

  A span returns the offset after the element, \<^const>\<open>None\<close> standing for \<open>npos\<close>. The asserts of
  the sources (the offset is inside the string and at the opening character) are not part
  of the definitions. Characters read at the end of the view are NUL (\<open>c_str\<close>).
\<close>

section \<open>Definitions\<close>

subsection \<open>Tables\<close>

text \<open>
  The rows of \<open>k_quoted_string_span_skips_sq\<close> and \<open>_dq\<close> (row 0 with backslash escapes, row 1
  without): 0 for NUL and the closing quote, 2 for an escape, 1 for the rest.
\<close>

definition k_quoted_string_span_skips_sq :: "nat \<Rightarrow> nat \<Rightarrow> nat" where
  "k_quoted_string_span_skips_sq row n =
     (if n = 0 \<or> n = 39 then 0 else if n = 92 \<and> row = 0 then 2 else 1)"

definition k_quoted_string_span_skips_dq :: "nat \<Rightarrow> nat \<Rightarrow> nat" where
  "k_quoted_string_span_skips_dq row n =
     (if n = 0 \<or> n = 34 then 0 else if n = 92 \<and> row = 0 then 2 else 1)"

definition k_keyword_chars :: string where
  "k_keyword_chars = ''abcdefghijklmnopqrstuvwxyzABCDEFGHIJKLMNOPQRSTUVWXYZ0123456789_''"

definition k_identifier_chars :: string where
  "k_identifier_chars = ''abcdefghijklmnopqrstuvwxyzABCDEFGHIJKLMNOPQRSTUVWXYZ0123456789_$''"

definition k_dollar_quoted_string_span_chars :: "nat \<Rightarrow> bool" where
  "k_dollar_quoted_string_span_chars n \<longleftrightarrow>
     (48 \<le> n \<and> n \<le> 57) \<or> (65 \<le> n \<and> n \<le> 90) \<or> n = 95 \<or> (97 \<le> n \<and> n \<le> 122) \<or> (128 \<le> n \<and> n \<le> 255)"

subsection \<open>Quoted strings and identifiers\<close>

text \<open>
  The two nested loops of \<open>span_quoted_string_sq\<close> and \<open>_dq\<close>, over the row of the skip table:
  the inner one adds the skip of the current byte while it is positive, the outer one steps
  over a NUL inside the string and stops at the quote.
\<close>

function span_quoted_loop :: "(nat \<Rightarrow> nat) \<Rightarrow> string \<Rightarrow> nat \<Rightarrow> nat option" where
  "span_quoted_loop skips s offset =
     (if offset < length s then
        (let last_ch = s ! offset; skip = skips (code last_ch)
         in if 0 < skip then span_quoted_loop skips s (offset + skip)
            else if last_ch = nul then span_quoted_loop skips s (offset + 1)
            else Some (offset + 1))
      else None)"
  by pat_completeness auto
termination
  by (relation "measure (\<lambda>(skips, s, offset). length s - offset)") auto

declare span_quoted_loop.simps [simp del]

definition span_quoted_string_dq :: "string \<Rightarrow> nat \<Rightarrow> nat option" where
  "span_quoted_string_dq s offset = span_quoted_loop (k_quoted_string_span_skips_dq 0) s (offset + 1)"

definition span_quoted_string_sq :: "string \<Rightarrow> nat \<Rightarrow> nat option" where
  "span_quoted_string_sq s offset = span_quoted_loop (k_quoted_string_span_skips_sq 0) s (offset + 1)"

text \<open>The loop shared by the two identifier spans: a doubled quote is part of the identifier.\<close>

function span_identifier_loop :: "char \<Rightarrow> string \<Rightarrow> nat \<Rightarrow> nat option" where
  "span_identifier_loop q s p =
     (case find_char s q p of
        None \<Rightarrow> None
      | Some p \<Rightarrow>
          (if p + 1 < length s \<and> s ! (p + 1) = q then span_identifier_loop q s (p + 2)
           else Some (p + 1)))"
  by pat_completeness auto
termination
  by (relation "measure (\<lambda>(q, s, p). length s - p)")
    (auto simp: find_char_def dest!: find_if_from_bounds)

declare span_identifier_loop.simps [simp del]

definition span_quoted_sql_identifier_bt :: "string \<Rightarrow> nat \<Rightarrow> nat option" where
  "span_quoted_sql_identifier_bt s offset = span_identifier_loop backtick s (offset + 1)"

definition span_quoted_sql_identifier_dquote :: "string \<Rightarrow> nat \<Rightarrow> nat option" where
  "span_quoted_sql_identifier_dquote s offset = span_identifier_loop dquote s (offset + 1)"

subsection \<open>Spaces, keywords and unquoted identifiers\<close>

definition span_spaces :: "string \<Rightarrow> nat \<Rightarrow> nat option" where
  "span_spaces s offset = find_first_not_of s [CHR '' '', CHR 0x09, CHR 0x0D, CHR 0x0A] offset"

definition span_not_spaces :: "string \<Rightarrow> nat \<Rightarrow> nat" where
  "span_not_spaces s offset =
     (case find_first_of s [CHR '' '', CHR 0x09, CHR 0x0D, CHR 0x0A] offset of
        None \<Rightarrow> length s | Some p \<Rightarrow> p)"

definition span_keyword :: "string \<Rightarrow> nat \<Rightarrow> string \<Rightarrow> nat" where
  "span_keyword s offset keyword_chars =
     (if isalpha (s ! offset) \<or> s ! offset = CHR ''_'' then
        (case find_first_not_of s keyword_chars (offset + 1) of None \<Rightarrow> length s | Some p \<Rightarrow> p)
      else offset)"

text \<open>
  \<open>is_start_of_unquoted_identifier\<close> indexes its table with the value of a signed \<^verbatim>\<open>char\<close>, so for a
  byte above 0x7F it reads in front of the table: \<open>oob\<close> says what it finds there.
\<close>

definition is_start_of_unquoted_identifier :: "(int \<Rightarrow> bool) \<Rightarrow> char \<Rightarrow> bool" where
  "is_start_of_unquoted_identifier oob c \<longleftrightarrow>
     (if schar c < 0 then oob (schar c) else k_dollar_quoted_string_span_chars (nat (schar c)))
     \<or> c = CHR ''$''"

function span_unquoted_identifier :: "string \<Rightarrow> nat \<Rightarrow> nat" where
  "span_unquoted_identifier s offset =
     (case find_first_not_of s k_identifier_chars (offset + 1) of
        None \<Rightarrow> length s
      | Some p \<Rightarrow>
          (if p = length s then length s
           else if code (s ! p) \<le> 0x7F then p
           else span_unquoted_identifier s p))"
  by pat_completeness auto
termination
  by (relation "measure (\<lambda>(s, offset). length s - offset)")
    (auto simp: find_first_not_of_def dest!: find_if_from_bounds)

declare span_unquoted_identifier.simps [simp del]

subsection \<open>Dollar quotes\<close>

definition is_dollar_quote_tag :: "string \<Rightarrow> bool" where
  "is_dollar_quote_tag s \<longleftrightarrow> list_all (\<lambda>i. k_dollar_quoted_string_span_chars (code i)) s"

definition span_dollar_quoted_string_or_dollar_identifier :: "string \<Rightarrow> nat \<Rightarrow> nat res" where
  "span_dollar_quoted_string_or_dollar_identifier s offset =
     (case find_char s (CHR ''$'') (offset + 1) of
        None \<Rightarrow> Inr (span_unquoted_identifier s offset)
      | Some endtag \<Rightarrow>
          (let tag = substr s offset (endtag + 1 - offset)
           in if \<not> is_dollar_quote_tag (substr tag 1 (length tag - 2))
              then Inr (span_unquoted_identifier s offset)
              else case find_sub s tag (offset + length tag) of
                     None \<Rightarrow> Inl (Invalid_argument (''Unterminated '' @ tag @ '' quoted string''))
                   | Some fin \<Rightarrow> Inr (fin + length tag)))"

subsection \<open>Comments\<close>

definition span_to_eol :: "string \<Rightarrow> nat \<Rightarrow> nat" where
  "span_to_eol s offset = (case find_char s newline offset of None \<Rightarrow> length s | Some p \<Rightarrow> p + 1)"

definition span_cstyle_comment :: "string \<Rightarrow> nat \<Rightarrow> nat option" where
  "span_cstyle_comment s offset =
     (if length s < 4 then None
      else case find_sub s ''*/'' (offset + 2) of None \<Rightarrow> None | Some p \<Rightarrow> Some (p + 2))"

text \<open>Where the spans end; the loops below terminate because each of them makes progress.\<close>

lemma span_quoted_loop_bounds [span_bounds]:
  "span_quoted_loop skips s offset = Some e \<Longrightarrow> offset < e \<and> e \<le> length s"
proof (induction skips s offset rule: span_quoted_loop.induct)
  case (1 skips s offset)
  show ?case
  proof (cases "offset < length s")
    case True
    with "1.prems" show ?thesis
      using "1.IH"(1) [OF True refl refl] "1.IH"(2) [OF True refl refl]
      by (subst (asm) span_quoted_loop.simps) (auto simp: Let_def split: if_splits)
  next
    case False
    with "1.prems" show ?thesis by (subst (asm) span_quoted_loop.simps) simp
  qed
qed

lemma span_identifier_loop_bounds [span_bounds]:
  "span_identifier_loop q s p = Some e \<Longrightarrow> p < e \<and> e \<le> length s"
proof (induction q s p rule: span_identifier_loop.induct)
  case (1 q s p)
  note loop = span_identifier_loop.simps [of q s p]
  from "1.prems" obtain i where i: "find_char s q p = Some i"
    by (auto simp: loop split: option.splits)
  then have b: "p \<le> i" "i < length s" by (auto simp: find_char_def dest: find_if_from_bounds)
  from "1.prems" "1.IH" [OF i] b show ?case
    by (auto simp: loop i split: if_splits)
qed

lemma span_unquoted_identifier_bounds [span_bounds]:
  "offset < length s \<Longrightarrow>
     offset < span_unquoted_identifier s offset \<and> span_unquoted_identifier s offset \<le> length s"
proof (induction s offset rule: span_unquoted_identifier.induct)
  case (1 s offset)
  show ?case
  proof (cases "find_first_not_of s k_identifier_chars (offset + 1)")
    case None
    with 1 show ?thesis by (subst (1 2) span_unquoted_identifier.simps) simp
  next
    case (Some p)
    then have b: "offset + 1 \<le> p" "p < length s"
      by (auto simp: find_first_not_of_def dest: find_if_from_bounds)
    with "1.IH" [OF Some] Some show ?thesis
      by (subst (1 2) span_unquoted_identifier.simps) auto
  qed
qed

lemma span_dollar_bounds [span_bounds]:
  assumes "span_dollar_quoted_string_or_dollar_identifier s offset = Inr e" "offset < length s"
  shows "offset < e \<and> e \<le> length s"
  using assms span_unquoted_identifier_bounds [of offset s]
  by (auto simp: span_dollar_quoted_string_or_dollar_identifier_def Let_def substr_def find_char_def
      split: option.splits if_splits dest!: find_if_from_bounds find_sub_bounds)

lemma span_to_eol_bounds [span_bounds]:
  "offset \<le> length s \<Longrightarrow> offset \<le> span_to_eol s offset \<and> span_to_eol s offset \<le> length s"
  by (auto simp: span_to_eol_def find_char_def split: option.splits dest!: find_if_from_bounds)

lemma span_cstyle_comment_bounds [span_bounds]:
  "span_cstyle_comment s offset = Some e \<Longrightarrow> offset + 2 < e \<and> e \<le> length s"
  by (auto simp: span_cstyle_comment_def split: if_splits option.splits dest!: find_sub_bounds)

lemma span_quoted_bounds [span_bounds]:
  "span_quoted_string_sq s offset = Some e \<Longrightarrow> Suc offset < e \<and> e \<le> length s"
  "span_quoted_string_dq s offset = Some e \<Longrightarrow> Suc offset < e \<and> e \<le> length s"
  "span_quoted_sql_identifier_bt s offset = Some e \<Longrightarrow> Suc offset < e \<and> e \<le> length s"
  "span_quoted_sql_identifier_dquote s offset = Some e \<Longrightarrow> Suc offset < e \<and> e \<le> length s"
  by (auto simp: span_quoted_string_sq_def span_quoted_string_dq_def span_quoted_sql_identifier_bt_def
      span_quoted_sql_identifier_dquote_def dest!: span_quoted_loop_bounds span_identifier_loop_bounds)

text \<open>The loop of \<open>span_cstyle_sql_comment\<close> over the inside of a conditional comment.\<close>

function conditional_comment_loop ::
  "(int \<Rightarrow> bool) \<Rightarrow> bool \<Rightarrow> string \<Rightarrow> nat \<Rightarrow> nat option res" where
  "conditional_comment_loop oob dollar_quote_strings s offset =
     (if offset < length s then
        (let c = s ! offset in
         if c = squote then
           (case span_quoted_string_sq s offset of
              None \<Rightarrow> Inr None | Some p \<Rightarrow> conditional_comment_loop oob dollar_quote_strings s p)
         else if c = dquote then
           (case span_quoted_string_dq s offset of
              None \<Rightarrow> Inr None | Some p \<Rightarrow> conditional_comment_loop oob dollar_quote_strings s p)
         else if c = backtick then
           (case span_quoted_sql_identifier_bt s offset of
              None \<Rightarrow> Inr None | Some p \<Rightarrow> conditional_comment_loop oob dollar_quote_strings s p)
         else if c = CHR ''*'' then
           (if offset + 1 < length s \<and> s ! (offset + 1) = CHR ''/'' then Inr (Some (offset + 2))
            else conditional_comment_loop oob dollar_quote_strings s (offset + 1))
         else if c = newline then
           (if offset + 3 < length s \<and> s ! (offset + 1) = CHR ''-'' \<and> s ! (offset + 2) = CHR ''-''
               \<and> (s ! (offset + 3) = CHR '' '' \<or> s ! (offset + 3) = CHR 0x09)
            then conditional_comment_loop oob dollar_quote_strings s (span_to_eol s (offset + 4))
            else conditional_comment_loop oob dollar_quote_strings s (offset + 1))
         else if c = CHR ''$'' then
           (if dollar_quote_strings
            then (case span_dollar_quoted_string_or_dollar_identifier s offset of
                    Inl e \<Rightarrow> Inl e | Inr p \<Rightarrow> conditional_comment_loop oob dollar_quote_strings s p)
            else conditional_comment_loop oob dollar_quote_strings s (span_unquoted_identifier s offset))
         else if is_start_of_unquoted_identifier oob c
         then conditional_comment_loop oob dollar_quote_strings s (span_unquoted_identifier s offset)
         else conditional_comment_loop oob dollar_quote_strings s (offset + 1))
      else Inr None)"
  by pat_completeness auto
termination
proof (relation "measure (\<lambda>(oob, d, s, offset). length s - offset)", goal_cases)
  case (6 oob d s offset c)
  then show ?case using span_to_eol_bounds [of "offset + 4" s] by simp linarith
next
  case (8 oob d s offset c p)
  then show ?case using span_dollar_bounds [of s offset p] by simp linarith
next
  case (9 oob d s offset c)
  then show ?case using span_unquoted_identifier_bounds [of offset s] by simp linarith
next
  case (10 oob d s offset c)
  then show ?case using span_unquoted_identifier_bounds [of offset s] by simp linarith
qed (auto dest!: span_quoted_bounds)

declare conditional_comment_loop.simps [simp del]

definition span_cstyle_sql_comment :: "(int \<Rightarrow> bool) \<Rightarrow> string \<Rightarrow> nat \<Rightarrow> bool \<Rightarrow> nat option res" where
  "span_cstyle_sql_comment oob s offset dollar_quote_strings =
     (if length s < 4 then Inr None
      else if offset + 2 < length s \<and> s ! (offset + 2) = CHR ''!''
      then conditional_comment_loop oob dollar_quote_strings s (offset + 3)
      else Inr (span_cstyle_comment s offset))"

end
