(* ===== verification/Sql_Iterator.thy ===== *)
theory Sql_Iterator
  imports Lexing
begin

text \<open>
  \<open>SQL_iterator\<close> of \<^verbatim>\<open>mysqlshdk/libs/utils/utils_lexing.{h,cc}\<close>: an offset into a statement that
  moves over the characters outside quotes and comments, and the tokenizer built on it.

  The state is the record of the class's members. \<open>m_offset\<close> is \<^const>\<open>None\<close> when the source's
  member is \<open>npos\<close> (after a token that is an unterminated quoted string); the increment of
  \<open>npos\<close> wraps to 0.
\<close>

section \<open>Definitions\<close>

record SQL_iterator =
  m_s :: string
  m_offset :: "nat option"
  m_skip_quoted :: bool
  m_dollar_quotes :: bool
  m_comment_hint :: bool

definition it_valid :: "SQL_iterator \<Rightarrow> bool" where
  "it_valid it \<longleftrightarrow> (case m_offset it of None \<Rightarrow> False | Some i \<Rightarrow> i < length (m_s it))"

definition it_get_char :: "SQL_iterator \<Rightarrow> char" where
  "it_get_char it = m_s it ! the (m_offset it)"

text \<open>\<open>if (m_offset == npos) m_offset = length\<close>, after every round of the loop.\<close>

definition or_length :: "string \<Rightarrow> nat option \<Rightarrow> nat" where
  "or_length s p = (case p of None \<Rightarrow> length s | Some i \<Rightarrow> i)"

text \<open>\<open>while (isdigit(m_s[m_offset])) ++m_offset\<close>; the byte at the end of the statement is NUL.\<close>

definition skip_digits :: "string \<Rightarrow> nat \<Rightarrow> nat" where
  "skip_digits s offset = or_length s (find_if_from (\<lambda>c. \<not> isdigit c) s offset)"

text \<open>
  One round of the loop of \<open>operator++\<close> at offset \<open>i\<close>: \<^const>\<open>None\<close> when the round sets
  \<open>incremented\<close>, otherwise the offset and the hint flag it leaves.
\<close>

definition skip_round :: "string \<Rightarrow> bool \<Rightarrow> bool \<Rightarrow> bool \<Rightarrow> nat \<Rightarrow> (nat \<times> bool) option res" where
  "skip_round s skip_quoted dollar_quotes hint i =
     (let c = s ! i; stay = Inr None; go = (\<lambda>p. Inr (Some (or_length s p, hint))) in
      if c = squote then (if skip_quoted then go (span_quoted_string_sq s i) else stay)
      else if c = dquote then (if skip_quoted then go (span_quoted_string_dq s i) else stay)
      else if c = backtick then (if skip_quoted then go (span_quoted_sql_identifier_bt s i) else stay)
      else if c = CHR ''/'' then
        (if i + 1 < length s \<and> s ! (i + 1) = CHR ''*'' then
           (if i + 2 < length s \<and> (s ! (i + 2) = CHR ''!'' \<or> s ! (i + 2) = CHR ''+'')
            then Inr (Some (skip_digits s (i + 3), True))
            else go (span_cstyle_comment s i))
         else stay)
      else if c = CHR ''*'' then
        (if hint \<and> i + 1 < length s \<and> s ! (i + 1) = CHR ''/'' then Inr (Some (i + 2, False)) else stay)
      else if c = CHR ''#'' then go (Some (span_to_eol s (i + 1)))
      else if c = CHR ''-'' then
        (if i + 2 < length s \<and> s ! (i + 1) = CHR ''-'' \<and> isspace (s ! (i + 2))
         then go (Some (span_to_eol s (i + 2))) else stay)
      else if c = CHR ''$'' \<and> dollar_quotes then
        (case span_dollar_quoted_string_or_dollar_identifier s i of
           Inl e \<Rightarrow> Inl e
         | Inr p \<Rightarrow> if s ! (p - 1) = CHR ''$'' \<and> i < p \<and> skip_quoted then go (Some p) else stay)
      else stay)"

lemma skip_digits_bounds [span_bounds]:
  "i \<le> length s \<Longrightarrow> i \<le> skip_digits s i \<and> skip_digits s i \<le> length s"
  by (auto simp: skip_digits_def or_length_def split: option.splits dest!: find_if_from_bounds)

lemma or_length_bounds:
  "(\<And>e. p = Some e \<Longrightarrow> i < e \<and> e \<le> length s) \<Longrightarrow> i < length s \<Longrightarrow>
     i < or_length s p \<and> or_length s p \<le> length s"
  by (cases p) (auto simp: or_length_def)

lemma skip_round_bounds [span_bounds]:
  assumes "skip_round s q d h i = Inr (Some (j, h'))" "i < length s"
  shows "i < j \<and> j \<le> length s"
proof -
  have "i < or_length s (span_quoted_string_sq s i) \<and> or_length s (span_quoted_string_sq s i) \<le> length s"
    "i < or_length s (span_quoted_string_dq s i) \<and> or_length s (span_quoted_string_dq s i) \<le> length s"
    "i < or_length s (span_quoted_sql_identifier_bt s i) \<and>
       or_length s (span_quoted_sql_identifier_bt s i) \<le> length s"
    "i < or_length s (span_cstyle_comment s i) \<and> or_length s (span_cstyle_comment s i) \<le> length s"
    using assms(2) by (auto intro!: or_length_bounds dest: span_quoted_bounds span_cstyle_comment_bounds)
  with assms span_to_eol_bounds [of "i + 1" s] span_to_eol_bounds [of "i + 2" s]
    skip_digits_bounds [of "i + 3" s] span_dollar_bounds [of s i]
  show ?thesis
    by (simp add: skip_round_def Let_def split: if_splits sum.splits) (auto simp: or_length_def)
qed

text \<open>The loop of \<open>operator++\<close>.\<close>

function skip_loop :: "string \<Rightarrow> bool \<Rightarrow> bool \<Rightarrow> bool \<Rightarrow> nat \<Rightarrow> (nat \<times> bool) res" where
  "skip_loop s skip_quoted dollar_quotes hint i =
     (if i < length s then
        (case skip_round s skip_quoted dollar_quotes hint i of
           Inl e \<Rightarrow> Inl e
         | Inr None \<Rightarrow> Inr (i, hint)
         | Inr (Some (j, hint')) \<Rightarrow> skip_loop s skip_quoted dollar_quotes hint' j)
      else Inr (i, hint))"
  by pat_completeness auto
termination
proof (relation "measure (\<lambda>(s, q, d, h, i). length s - i)", goal_cases)
  case (2 s q d h i x y j h')
  then show ?case using skip_round_bounds [of s q d h i j h'] by auto
qed simp

declare skip_loop.simps [simp del]

text \<open>\<open>operator++\<close> with the already incremented offset \<open>i\<close>, and the increment itself.\<close>

definition it_scan_from :: "SQL_iterator \<Rightarrow> nat \<Rightarrow> SQL_iterator res" where
  "it_scan_from it i =
     (if length (m_s it) < i then Inl (Out_of_range ''SQL_string_iterator offset out of range'')
      else bind_res (skip_loop (m_s it) (m_skip_quoted it) (m_dollar_quotes it) (m_comment_hint it) i)
             (\<lambda>(j, hint). Inr (it\<lparr>m_offset := Some j, m_comment_hint := hint\<rparr>)))"

definition it_incr :: "SQL_iterator \<Rightarrow> SQL_iterator res" where
  "it_incr it = it_scan_from it (case m_offset it of None \<Rightarrow> 0 | Some i \<Rightarrow> i + 1)"

text \<open>The constructor starts at \<^verbatim>\<open>offset - 1\<close> and increments: with 0 both wrap.\<close>

definition SQL_iterator_new :: "string \<Rightarrow> nat \<Rightarrow> bool \<Rightarrow> bool \<Rightarrow> SQL_iterator res" where
  "SQL_iterator_new str offset skip_quoted_sql_ids dollar_quotes =
     it_incr \<lparr>m_s = str, m_offset = (if offset = 0 then None else Some (offset - 1)),
       m_skip_quoted = skip_quoted_sql_ids, m_dollar_quotes = dollar_quotes, m_comment_hint = False\<rparr>"

definition it_set_position :: "nat \<Rightarrow> SQL_iterator \<Rightarrow> SQL_iterator" where
  "it_set_position position it = it\<lparr>m_offset := Some position\<rparr>"

lemma skip_loop_bounds [span_bounds]:
  "skip_loop s q d h i = Inr (j, h') \<Longrightarrow> i \<le> length s \<Longrightarrow> i \<le> j \<and> j \<le> length s"
proof (induction s q d h i rule: skip_loop.induct)
  case (1 s q d h i)
  note loop = skip_loop.simps [of s q d h i]
  show ?case
  proof (cases "i < length s")
    case True
    with "1.prems" obtain r where r: "skip_round s q d h i = Inr r" by (auto simp: loop split: sum.splits)
    show ?thesis
    proof (cases r)
      case (Some p)
      obtain k h2 where p: "p = (k, h2)" by (cases p)
      from skip_round_bounds [OF r [unfolded Some p] True]
        "1.IH" [OF True r Some p [symmetric]] "1.prems" True r Some p show ?thesis by (auto simp: loop)
    next
      case None
      with "1.prems" True r show ?thesis by (auto simp: loop)
    qed
  next
    case False
    with "1.prems" show ?thesis by (auto simp: loop)
  qed
qed

lemma it_incr_progress:
  assumes "it_incr it = Inr it'" "m_offset it = Some i"
  shows "\<exists>j. m_offset it' = Some j \<and> i < j \<and> j \<le> length (m_s it)"
    "m_s it' = m_s it" "m_skip_quoted it' = m_skip_quoted it" "m_dollar_quotes it' = m_dollar_quotes it"
  using assms
  by (auto simp: it_incr_def it_scan_from_def bind_res_eq_Inr split: if_splits dest!: skip_loop_bounds)

text \<open>\<open>while (valid() && isspace(get_char())) ++(*this)\<close>.\<close>

function it_skip_spaces :: "SQL_iterator \<Rightarrow> SQL_iterator res" where
  "it_skip_spaces it =
     (if it_valid it \<and> isspace (it_get_char it)
      then (case it_incr it of Inl e \<Rightarrow> Inl e | Inr it' \<Rightarrow> it_skip_spaces it')
      else Inr it)"
  by pat_completeness auto
termination
proof (relation "measure (\<lambda>it. length (m_s it) - the (m_offset it))", goal_cases)
  case (2 it it')
  then obtain i where "m_offset it = Some i" "i < length (m_s it)"
    by (auto simp: it_valid_def split: option.splits)
  with it_incr_progress(1,2) [OF 2(2) this(1)] show ?case by auto
qed simp

declare it_skip_spaces.simps [simp del]

text \<open>\<open>if (m_offset == start) ++(*this); return {m_s.substr(start, previous + 1 - start), start}\<close>.\<close>

definition token_finish :: "nat \<Rightarrow> nat \<Rightarrow> SQL_iterator \<Rightarrow> (string \<times> SQL_iterator) res" where
  "token_finish start previous it =
     bind_res (if m_offset it = Some start then it_incr it else Inr it)
       (\<lambda>it. Inr (substr (m_s it) start (previous + 1 - start), it))"

text \<open>\<open>m_s.substr(start, m_offset - start)\<close>, where \<open>m_offset\<close> may be \<open>npos\<close>.\<close>

definition token_until :: "string \<Rightarrow> nat \<Rightarrow> nat option \<Rightarrow> string" where
  "token_until s start p = (case p of None \<Rightarrow> drop start s | Some i \<Rightarrow> substr s start (i - start))"

text \<open>
  The switch of the \<open>do\<close> loop at a valid position: whether it breaks (\<open>Break\<close>), returns a
  quoted identifier (\<open>Return\<close>), or goes on from the offset the switch left.
\<close>

datatype token_switch = Break | Return "nat option" | Go nat

definition token_char :: "SQL_iterator \<Rightarrow> nat \<Rightarrow> nat \<Rightarrow> nat \<Rightarrow> token_switch" where
  "token_char it start previous i =
     (let s = m_s it; c = s ! i in
      if c = CHR '','' \<or> c = CHR '';'' \<or> c = CHR ''('' \<or> c = CHR '')'' \<or> c = CHR ''='' \<or> c = CHR ''@''
      then Break
      else if c = squote \<or> c = dquote then (if m_skip_quoted it then Go i else Break)
      else if c = backtick then
        (if m_skip_quoted it then Go i
         else if i = start \<or> s ! (i - 1) = CHR ''.'' then
           (case span_quoted_sql_identifier_bt s i of
              None \<Rightarrow> Return None
            | Some p \<Rightarrow> if length s \<le> p \<or> s ! p \<noteq> CHR ''.'' then Return (Some p) else Go p)
         else Break)
      else if isspace c \<or> 1 < i - previous then Break
      else Go i)"

text \<open>The \<open>do\<close> loop, from a valid position to the end of the function.\<close>

function token_loop :: "nat \<Rightarrow> nat \<Rightarrow> SQL_iterator \<Rightarrow> (string \<times> SQL_iterator) res" where
  "token_loop start previous it =
     (case m_offset it of
        None \<Rightarrow> token_finish start previous it
      | Some i \<Rightarrow>
          (if i < length (m_s it) then
             (case token_char it start previous i of
                Break \<Rightarrow> token_finish start previous it
              | Return p \<Rightarrow> Inr (token_until (m_s it) start p, it\<lparr>m_offset := p\<rparr>)
              | Go j \<Rightarrow>
                  (case it_incr (it\<lparr>m_offset := Some j\<rparr>) of
                     Inl e \<Rightarrow> Inl e
                   | Inr it' \<Rightarrow> if m_s it ! i = CHR '':'' then token_finish start j it'
                               else token_loop start j it'))
           else token_finish start previous it))"
  by pat_completeness auto

lemma token_char_Go: "token_char it start previous i = Go j \<Longrightarrow> i \<le> j"
  by (auto simp: token_char_def Let_def split: if_splits option.splits dest!: span_quoted_bounds)

termination token_loop
proof (relation "measure (\<lambda>(start, previous, it). length (m_s it) - the (m_offset it))", goal_cases)
  case (2 start previous it i j it')
  have "i \<le> j" using 2(3) by (rule token_char_Go)
  moreover have "m_offset (it\<lparr>m_offset := Some j\<rparr>) = Some j" by simp
  from it_incr_progress(1,2) [OF 2(4) this] obtain k where
    "m_offset it' = Some k" "j < k" "k \<le> length (m_s it)" "m_s it' = m_s it" by auto
  ultimately show ?case using 2(1,2) by auto
qed simp

declare token_loop.simps [simp del]

definition next_token_and_offset :: "SQL_iterator \<Rightarrow> ((string \<times> nat option) \<times> SQL_iterator) res" where
  "next_token_and_offset it0 =
     bind_res (it_skip_spaces it0) (\<lambda>it.
       if \<not> it_valid it then Inr (([], m_offset it), it)
       else
         (let s = m_s it; start = the (m_offset it); c = it_get_char it;
              quoted = (\<lambda>p. Inr ((token_until s start p, Some start), it\<lparr>m_offset := p\<rparr>));
              rest = bind_res (token_loop start start it) (\<lambda>(token, it'). Inr ((token, Some start), it'))
          in if \<not> m_skip_quoted it \<and> c = squote then quoted (span_quoted_string_sq s start)
             else if \<not> m_skip_quoted it \<and> c = dquote then quoted (span_quoted_string_dq s start)
             else if \<not> m_skip_quoted it \<and> c = CHR ''$'' \<and> m_dollar_quotes it
             then bind_res (span_dollar_quoted_string_or_dollar_identifier s start) (\<lambda>p. quoted (Some p))
             else rest))"

definition next_token :: "SQL_iterator \<Rightarrow> (string \<times> SQL_iterator) res" where
  "next_token it = bind_res (next_token_and_offset it) (\<lambda>((token, _), it'). Inr (token, it'))"

section \<open>Progress of the tokenizer\<close>

lemma it_skip_spaces_props:
  "it_skip_spaces it = Inr it' \<Longrightarrow>
     m_s it' = m_s it \<and> m_skip_quoted it' = m_skip_quoted it \<and> m_dollar_quotes it' = m_dollar_quotes it \<and>
     (case m_offset it of None \<Rightarrow> it' = it | Some i \<Rightarrow> \<exists>j. m_offset it' = Some j \<and> i \<le> j)"
proof (induction it rule: it_skip_spaces.induct)
  case (1 it)
  note loop = it_skip_spaces.simps [of it]
  show ?case
  proof (cases "it_valid it \<and> isspace (it_get_char it)")
    case True
    with "1.prems" obtain it1 i where i1: "it_incr it = Inr it1" "it_skip_spaces it1 = Inr it'" "m_offset it = Some i"
      by (auto simp: loop it_valid_def split: sum.splits option.splits)
    from "1.IH" [OF True i1(1,2)] it_incr_progress [OF i1(1,3)] i1(3) show ?thesis by auto
  next
    case False
    with "1.prems" show ?thesis by (auto simp: loop split: option.splits)
  qed
qed

lemma token_finish_props:
  assumes "token_finish start previous it = Inr (tok, it')" "m_offset it = Some i" "start \<le> i"
    "start \<le> previous" "start < length (m_s it)"
  shows "m_s it' = m_s it \<and> (\<forall>j. m_offset it' = Some j \<longrightarrow> start < j) \<and> tok \<noteq> [] \<and>
     (\<exists>n. tok = substr (m_s it) start n)"
proof (cases "i = start")
  case True
  with assms obtain it1 where "it_incr it = Inr it1" "it' = it1" "tok = substr (m_s it1) start (previous + 1 - start)"
    by (auto simp: token_finish_def bind_res_eq_Inr)
  with it_incr_progress [OF this(1) assms(2)] True assms(4,5) show ?thesis by (auto simp: substr_def)
next
  case False
  with assms show ?thesis by (auto simp: token_finish_def substr_def)
qed

lemma token_loop_props:
  "token_loop start previous it = Inr (tok, it') \<Longrightarrow> m_offset it = Some i \<Longrightarrow> start \<le> i \<Longrightarrow>
     start \<le> previous \<Longrightarrow> start < length (m_s it) \<Longrightarrow>
     m_s it' = m_s it \<and> (\<forall>j. m_offset it' = Some j \<longrightarrow> start < j) \<and> tok \<noteq> [] \<and>
     (\<exists>n. tok = substr (m_s it) start n)"
proof (induction start previous it arbitrary: i rule: token_loop.induct)
  case (1 start previous it)
  note loop = token_loop.simps [of start previous it]
  show ?case
  proof (cases "i < length (m_s it)")
    case False
    with "1.prems" have "token_finish start previous it = Inr (tok, it')" by (simp add: loop)
    then show ?thesis using "1.prems"(2-5) by (rule token_finish_props)
  next
    case valid: True
    show ?thesis
    proof (cases "token_char it start previous i")
      case Break
      with valid "1.prems" have "token_finish start previous it = Inr (tok, it')" by (simp add: loop)
      then show ?thesis using "1.prems"(2-5) by (rule token_finish_props)
    next
      case (Return p)
      with valid "1.prems" have r: "tok = token_until (m_s it) start p" "it' = it\<lparr>m_offset := p\<rparr>"
        by (auto simp: loop)
      have "p = Some j \<Longrightarrow> i < j" for j
        using Return by (auto simp: token_char_def Let_def split: if_splits option.splits dest!: span_quoted_bounds)
      with r "1.prems" show ?thesis
        by (cases p) (fastforce simp: token_until_def substr_def intro: exI [of _ "length (m_s it)"])+
    next
      case (Go j)
      from token_char_Go [OF this] have j: "i \<le> j" .
      from Go valid "1.prems" obtain it1 where it1: "it_incr (it\<lparr>m_offset := Some j\<rparr>) = Inr it1"
        by (auto simp: loop split: sum.splits)
      from it_incr_progress(1,2) [OF this, of j] obtain k where k: "m_offset it1 = Some k" "j < k" "m_s it1 = m_s it"
        by auto
      show ?thesis
      proof (cases "m_s it ! i = CHR '':''")
        case True
        with Go valid "1.prems" it1 have "token_finish start j it1 = Inr (tok, it')" by (simp add: loop)
        from token_finish_props [OF this k(1)] k j "1.prems" show ?thesis by simp
      next
        case False
        with Go valid "1.prems" it1 have "token_loop start j it1 = Inr (tok, it')" by (simp add: loop)
        from "1.IH" [OF "1.prems"(2) valid Go it1 False this k(1)] k j "1.prems" show ?thesis by simp
      qed
    qed
  qed
qed


lemma next_token_and_offset_props:
  assumes "next_token_and_offset it = Inr ((tok, off), it')"
  shows "m_s it' = m_s it \<and>
    (if tok = [] then \<not> it_valid it' \<and> off = m_offset it'
     else \<exists>i start n. m_offset it = Some i \<and> off = Some start \<and> i \<le> start \<and> start < length (m_s it) \<and>
            tok = substr (m_s it) start n \<and> (\<forall>j. m_offset it' = Some j \<longrightarrow> start < j))"
proof -
  from assms obtain it1 where it1: "it_skip_spaces it = Inr it1"
    by (auto simp: next_token_and_offset_def bind_res_eq_Inr)
  note sp = it_skip_spaces_props [OF it1]
  show ?thesis
  proof (cases "it_valid it1")
    case False
    with assms it1 sp show ?thesis by (auto simp: next_token_and_offset_def)
  next
    case True
    then obtain start where start: "m_offset it1 = Some start" "start < length (m_s it)"
      using sp by (auto simp: it_valid_def split: option.splits)
    with sp obtain i where i: "m_offset it = Some i" "i \<le> start" by (auto split: option.splits)
    have q: "m_s it' = m_s it \<and> tok \<noteq> [] \<and> off = Some start \<and> (\<exists>n. tok = substr (m_s it) start n) \<and>
        (\<forall>j. m_offset it' = Some j \<longrightarrow> start < j)"
      if "tok = token_until (m_s it) start p" "off = Some start" "it' = it1\<lparr>m_offset := p\<rparr>"
        "\<And>e. p = Some e \<Longrightarrow> start < e" for p
      using that start sp
      by (cases p) (auto simp: token_until_def substr_def intro: exI [of _ "length (m_s it)"])
    define c where "c = it_get_char it1"
    have m: "m_s it1 = m_s it" and body: "next_token_and_offset it =
        (if \<not> m_skip_quoted it1 \<and> c = squote then quoted (span_quoted_string_sq (m_s it) start)
         else if \<not> m_skip_quoted it1 \<and> c = dquote then quoted (span_quoted_string_dq (m_s it) start)
         else if \<not> m_skip_quoted it1 \<and> c = CHR ''$'' \<and> m_dollar_quotes it1
         then bind_res (span_dollar_quoted_string_or_dollar_identifier (m_s it) start) (\<lambda>p. quoted (Some p))
         else bind_res (token_loop start start it1) (\<lambda>(token, it'). Inr ((token, Some start), it')))"
      if "quoted = (\<lambda>p. Inr ((token_until (m_s it) start p, Some start), it1\<lparr>m_offset := p\<rparr>))" for quoted
      using it1 True start sp that by (simp_all add: next_token_and_offset_def Let_def c_def)
    consider (quoted) p where "tok = token_until (m_s it) start p" "off = Some start" "it' = it1\<lparr>m_offset := p\<rparr>"
        "p = span_quoted_string_sq (m_s it) start \<or> p = span_quoted_string_dq (m_s it) start \<or>
         (\<exists>e. p = Some e \<and> span_dollar_quoted_string_or_dollar_identifier (m_s it) start = Inr e)"
      | (loop) "token_loop start start it1 = Inr (tok, it')" "off = Some start"
      using assms unfolding body [OF refl]
      by (auto simp: bind_res_eq_Inr split: if_splits)
    then show ?thesis
    proof cases
      case quoted
      have "start < e" if "p = Some e" for e
        using quoted(4) that start(2) by (auto dest: span_quoted_bounds(1,2) [OF sym] span_dollar_bounds)
      from q [OF quoted(1-3) this] i start show ?thesis by auto
    next
      case loop
      from token_loop_props [OF loop(1) start(1)] start sp loop(2) i show ?thesis by auto
    qed
  qed
qed

function next_sql_function :: "SQL_iterator \<Rightarrow> (string \<times> SQL_iterator) res" where
  "next_sql_function it =
     (case next_token it of
        Inl e \<Rightarrow> Inl e
      | Inr (token, it') \<Rightarrow>
          (if token = [] then Inr ([], it')
           else if isalpha (hd token) \<and> it_valid it' \<and> it_get_char it' = CHR ''('' then Inr (token, it')
           else next_sql_function it'))"
  by pat_completeness auto

definition remaining :: "SQL_iterator \<Rightarrow> nat" where
  "remaining it = (case m_offset it of None \<Rightarrow> 0 | Some i \<Rightarrow> length (m_s it) - i)"

lemma next_token_remaining:
  assumes "next_token it = Inr (tok, it')" "tok \<noteq> []"
  shows "m_s it' = m_s it \<and> remaining it' < remaining it"
proof -
  from assms(1) obtain off where "next_token_and_offset it = Inr ((tok, off), it')"
    by (auto simp: next_token_def bind_res_eq_Inr)
  from next_token_and_offset_props [OF this] assms(2) show ?thesis
    by (force simp: remaining_def split: option.splits)
qed

termination next_sql_function
  by (relation "measure remaining") (auto dest: next_token_remaining)

declare next_sql_function.simps [simp del]

fun consume_token_list :: "SQL_iterator \<Rightarrow> string list \<Rightarrow> (bool \<times> SQL_iterator) res" where
  "consume_token_list it [] = Inr (True, it)"
| "consume_token_list it (t # ts) =
     bind_res (next_token it) (\<lambda>(token, it').
       if str_caseeq token t then consume_token_list it' ts else Inr (False, it'))"

definition consume_tokens :: "SQL_iterator \<Rightarrow> string list \<Rightarrow> (bool \<times> SQL_iterator) res" where
  "consume_tokens it tokens = (if \<not> it_valid it then Inr (False, it) else consume_token_list it tokens)"

end
