(* ===== verification/Sql_String.thy ===== *)
theory Sql_String
  imports Sql_Iterator
begin

text \<open>
  The SQL text builders of \<^verbatim>\<open>mysqlshdk/libs/utils/utils_sqlstring.{h,cc}\<close>: escaping and quoting of
  strings and identifiers, the reserved word test, wildcard helpers, and the \<open>sqlstring\<close>
  query formatter, which replaces the \<^verbatim>\<open>?\<close> and \<^verbatim>\<open>!\<close> placeholders of a format string.
\<close>

section \<open>Definitions\<close>

subsection \<open>Reserved words\<close>

definition reserved_keywords :: "string list" where
  "reserved_keywords =
    [''ACCESSIBLE'', ''ADD'', ''ADMIN'', ''ALL'', ''ALTER'', ''ANALYZE'', ''AND'', ''ARRAY'',
      ''AS'', ''ASC'', ''ASENSITIVE'', ''BEFORE'', ''BETWEEN'', ''BIGINT'', ''BINARY'', ''BLOB'',
      ''BOTH'', ''BY'', ''CALL'', ''CASCADE'', ''CASE'', ''CHANGE'', ''CHAR'', ''CHARACTER'',
      ''CHECK'', ''COLLATE'', ''COLUMN'', ''CONDITION'', ''CONSTRAINT'', ''CONTINUE'',
      ''CONVERT'', ''CREATE'', ''CROSS'', ''CUBE'', ''CUME_DIST'', ''CURRENT_DATE'',
      ''CURRENT_TIME'', ''CURRENT_TIMESTAMP'', ''CURRENT_USER'', ''CURSOR'', ''DATABASE'',
      ''DATABASES'', ''DAY_HOUR'', ''DAY_MICROSECOND'', ''DAY_MINUTE'', ''DAY_SECOND'', ''DEC'',
      ''DECIMAL'', ''DECLARE'', ''DEFAULT'', ''DELAYED'', ''DELETE'', ''DENSE_RANK'', ''DESC'',
      ''DESCRIBE'', ''DETERMINISTIC'', ''DISTINCT'', ''DISTINCTROW'', ''DIV'', ''DOUBLE'',
      ''DROP'', ''DUAL'', ''EACH'', ''ELSE'', ''ELSEIF'', ''EMPTY'', ''ENCLOSED'', ''ESCAPED'',
      ''EXCEPT'', ''EXISTS'', ''EXIT'', ''EXPLAIN'', ''FALSE'', ''FETCH'', ''FIRST_VALUE'',
      ''FLOAT'', ''FLOAT4'', ''FLOAT8'', ''FOR'', ''FORCE'', ''FOREIGN'', ''FROM'', ''FULL'',
      ''FULLTEXT'', ''FUNCTION'', ''GENERATED'', ''GET'', ''GET_MASTER_PUBLIC_KEY'', ''GRANT'',
      ''GROUP'', ''GROUPING'', ''GROUPS'', ''HAVING'', ''HIGH_PRIORITY'', ''HOUR_MICROSECOND'',
      ''HOUR_MINUTE'', ''HOUR_SECOND'', ''IF'', ''IGNORE'', ''IN'', ''INDEX'', ''INFILE'',
      ''INNER'', ''INOUT'', ''INSENSITIVE'', ''INSERT'', ''INT'', ''INT1'', ''INT2'', ''INT3'',
      ''INT4'', ''INT8'', ''INTEGER'', ''INTERVAL'', ''INTERSECT'', ''INTO'', ''IO_AFTER_GTIDS'',
      ''IO_BEFORE_GTIDS'', ''IS'', ''ITERATE'', ''JOIN'', ''JSON_TABLE'', ''KEY'', ''KEYS'',
      ''KILL'', ''LAG'', ''LAST_VALUE'', ''LATERAL'', ''LEAD'', ''LEADING'', ''LEAVE'', ''LEFT'',
      ''LIKE'', ''LIMIT'', ''LINEAR'', ''LINES'', ''LOAD'', ''LOCALTIME'', ''LOCALTIMESTAMP'',
      ''LOCK'', ''LONG'', ''LONGBLOB'', ''LONGTEXT'', ''LOOP'', ''LOW_PRIORITY'', ''MASTER_BIND'',
      ''MASTER_SSL_VERIFY_SERVER_CERT'', ''MATCH'', ''MAXVALUE'', ''MEDIUMBLOB'', ''MEDIUMINT'',
      ''MEDIUMTEXT'', ''MEMBER'', ''MIDDLEINT'', ''MINUTE_MICROSECOND'', ''MINUTE_SECOND'',
      ''MOD'', ''MODIFIES'', ''NATURAL'', ''NONBLOCKING'', ''NOT'', ''NO_WRITE_TO_BINLOG'',
      ''NTH_VALUE'', ''NTILE'', ''NULL'', ''NUMERIC'', ''OF'', ''ON'', ''OPTIMIZE'',
      ''OPTIMIZER_COSTS'', ''OPTION'', ''OPTIONALLY'', ''OR'', ''ORDER'', ''OUT'', ''OUTER'',
      ''OUTFILE'', ''OVER'', ''PARTITION'', ''PERCENT_RANK'', ''PERSIST'', ''PERSIST_ONLY'',
      ''PRECISION'', ''PRIMARY'', ''PROCEDURE'', ''PURGE'', ''RANGE'', ''RANK'', ''READ'',
      ''READS'', ''READ_WRITE'', ''REAL'', ''RECURSIVE'', ''REFERENCES'', ''REGEXP'', ''RELEASE'',
      ''RENAME'', ''REPEAT'', ''REPLACE'', ''REQUIRE'', ''RESIGNAL'', ''RESTRICT'', ''RETURN'',
      ''REVOKE'', ''RIGHT'', ''RLIKE'', ''ROLE'', ''ROW'', ''ROWS'', ''ROW_NUMBER'', ''SCHEMA'',
      ''SCHEMAS'', ''SECOND_MICROSECOND'', ''SELECT'', ''SENSITIVE'', ''SEPARATOR'', ''SET'',
      ''SHOW'', ''SIGNAL'', ''SMALLINT'', ''SPATIAL'', ''SPECIFIC'', ''SQL'', ''SQLEXCEPTION'',
      ''SQLSTATE'', ''SQLWARNING'', ''SQL_BIG_RESULT'', ''SQL_CALC_FOUND_ROWS'',
      ''SQL_SMALL_RESULT'', ''SSL'', ''STARTING'', ''STORED'', ''STRAIGHT_JOIN'', ''SYSTEM'',
      ''TABLE'', ''TERMINATED'', ''THEN'', ''TINYBLOB'', ''TINYINT'', ''TINYTEXT'', ''TO'',
      ''TRAILING'', ''TRIGGER'', ''TRUE'', ''UNDO'', ''UNION'', ''UNIQUE'', ''UNLOCK'',
      ''UNSIGNED'', ''UPDATE'', ''USAGE'', ''USE'', ''USING'', ''UTC_DATE'', ''UTC_TIME'',
      ''UTC_TIMESTAMP'', ''VALUES'', ''VARBINARY'', ''VARCHAR'', ''VARCHARACTER'', ''VARYING'',
      ''VIRTUAL'', ''WHEN'', ''WHERE'', ''WHILE'', ''WINDOW'', ''WITH'', ''WRITE'', ''XOR'',
      ''YEAR_MONTH'', ''ZEROFILL'']"

text \<open>The order of \<^verbatim>\<open>std::string_view\<close>: bytes as unsigned values, a proper prefix first.\<close>

fun str_less :: "string \<Rightarrow> string \<Rightarrow> bool" where
  "str_less [] [] = False"
| "str_less [] (y # ys) = True"
| "str_less (x # xs) [] = False"
| "str_less (x # xs) (y # ys) = (code x < code y \<or> (x = y \<and> str_less xs ys))"

text \<open>
  \<^verbatim>\<open>std::lower_bound\<close> halves the range \<open>[first, first + len)\<close>; it is correct on a range that is
  partitioned by the comparison, and the model keeps what it does on any other.
\<close>

function lower_bound_loop :: "('a \<Rightarrow> bool) \<Rightarrow> 'a list \<Rightarrow> nat \<Rightarrow> nat \<Rightarrow> nat" where
  "lower_bound_loop below xs first len =
     (if 0 < len then
        (let half = len div 2
         in if below (xs ! (first + half)) then lower_bound_loop below xs (first + half + 1) (len - half - 1)
            else lower_bound_loop below xs first half)
      else first)"
  by pat_completeness auto
termination
  by (relation "measure (\<lambda>(below, xs, first, len). len)") auto

declare lower_bound_loop.simps [simp del]

definition lower_bound :: "string list \<Rightarrow> string \<Rightarrow> nat" where
  "lower_bound xs v = lower_bound_loop (\<lambda>x. str_less x v) xs 0 (length xs)"

definition is_reserved_word :: "string \<Rightarrow> bool" where
  "is_reserved_word word =
     (let upper = str_upper word; it = lower_bound reserved_keywords upper
      in it \<noteq> length reserved_keywords \<and> upper = reserved_keywords ! it)"

subsection \<open>Escaping and quoting\<close>

definition sql_escape_char :: "bool \<Rightarrow> char \<Rightarrow> char option" where
  "sql_escape_char wildcards ch =
     (if ch = nul then Some (CHR ''0'')
      else if ch = newline then Some (CHR ''n'')
      else if ch = CHR 0x0D then Some (CHR ''r'')
      else if ch = backslash then Some backslash
      else if ch = squote then Some squote
      else if ch = dquote then Some dquote
      else if ch = CHR 0x1A then Some (CHR ''Z'')
      else if ch = CHR ''_'' then (if wildcards then Some (CHR ''_'') else None)
      else if ch = CHR ''%'' then (if wildcards then Some (CHR ''%'') else None)
      else None)"

definition escape_sql_string :: "string \<Rightarrow> bool \<Rightarrow> string" where
  "escape_sql_string s wildcards =
     concat (map (\<lambda>ch. case sql_escape_char wildcards ch of
                         Some escape \<Rightarrow> [backslash, escape] | None \<Rightarrow> [ch]) s)"

definition escape_backticks :: "string \<Rightarrow> string" where
  "escape_backticks s =
     concat (map (\<lambda>ch. if ch = nul then [backslash, CHR ''0'']
                       else if ch = newline then [backslash, CHR ''n'']
                       else if ch = CHR 0x0D then [backslash, CHR ''r'']
                       else if ch = CHR 0x1A then [backslash, CHR ''Z'']
                       else if ch = backtick then [backtick, ch]
                       else [ch]) s)"

definition escape_wildcards :: "string \<Rightarrow> string" where
  "escape_wildcards s =
     concat (map (\<lambda>ch. if ch = CHR ''%'' \<or> ch = CHR ''_'' then [backslash, ch] else [ch]) s)"

definition quote_sql_string :: "string \<Rightarrow> string" where
  "quote_sql_string s = [squote] @ escape_sql_string s False @ [squote]"

definition quote_identifier :: "string \<Rightarrow> char \<Rightarrow> string" where
  "quote_identifier identifier q = [q] @ str_replace identifier [q] [q, q] @ [q]"

definition unquoted_char :: "char \<Rightarrow> bool" where
  "unquoted_char i \<longleftrightarrow> isalpha i \<or> isdigit i \<or> i = CHR ''_'' \<or> i = CHR ''$'' \<or> 0x7F < code i"

definition quote_identifier_if_needed :: "string \<Rightarrow> char \<Rightarrow> string" where
  "quote_identifier_if_needed ident q =
     (let needs_quotation = is_reserved_word ident \<or> \<not> list_all unquoted_char ident;
          digits = (if is_reserved_word ident then 0
                    else length (filter isdigit (takeWhile unquoted_char ident)))
      in if needs_quotation \<or> digits = length ident then quote_identifier ident q else ident)"

subsection \<open>Wildcards\<close>

definition has_sql_wildcard :: "string \<Rightarrow> bool" where
  "has_sql_wildcard s \<longleftrightarrow> find_first_of s ''_%'' 0 \<noteq> None"

fun has_unescaped_sql_wildcard :: "string \<Rightarrow> bool" where
  "has_unescaped_sql_wildcard [] = False"
| "has_unescaped_sql_wildcard (c # s) =
     (if c = backslash then (case s of [] \<Rightarrow> False | _ # s' \<Rightarrow> has_unescaped_sql_wildcard s')
      else if c = CHR ''_'' \<or> c = CHR ''%'' then True
      else has_unescaped_sql_wildcard s)"

fun has_escaped_sql_wildcard :: "string \<Rightarrow> bool" where
  "has_escaped_sql_wildcard [] = False"
| "has_escaped_sql_wildcard (c # s) =
     (if c = backslash then
        (case s of
           [] \<Rightarrow> False
         | c' # s' \<Rightarrow> if c' = CHR ''_'' \<or> c' = CHR ''%'' then True else has_escaped_sql_wildcard s')
      else has_escaped_sql_wildcard s)"

fun unescape_sql_wildcards :: "string \<Rightarrow> string" where
  "unescape_sql_wildcards [] = []"
| "unescape_sql_wildcards (c # s) =
     (if c = backslash then
        (case s of
           [] \<Rightarrow> [c]
         | c' # s' \<Rightarrow> (if c' \<noteq> CHR ''_'' \<and> c' \<noteq> CHR ''%'' then [backslash] else []) @ [c']
                     @ unescape_sql_wildcards s')
      else c # unescape_sql_wildcards s)"

text \<open>
  \<open>wild_compare_full\<close> with \<open>str_is_pattern\<close> false, which is how its only caller
  \<open>match_sql_wild\<close> runs it: \<open>w_prefix\<close> is the backslash, \<open>w_one\<close> is \<^verbatim>\<open>_\<close> and \<open>w_many\<close> is
  \<^verbatim>\<open>%\<close>. The two pointers are the remaining bytes; the result is 0 for a match.

  \<open>wild_run\<close> is the loop over the wildcards that follow a \<^verbatim>\<open>%\<close> (\<^const>\<open>None\<close> is its
  \<open>return 1\<close>), and \<open>suffixes_from\<close> are the positions the last loop tries: those where the
  byte equals \<open>cmp\<close>.
\<close>

fun wild_run :: "string \<Rightarrow> string \<Rightarrow> string option" where
  "wild_run str [] = Some []"
| "wild_run str (w # ws) =
     (if w = CHR ''%'' then wild_run str ws
      else if w = CHR ''_'' then (if str = [] then None else wild_run str ws)
      else Some (w # ws))"

fun suffixes_from :: "char \<Rightarrow> string \<Rightarrow> string list" where
  "suffixes_from c [] = []"
| "suffixes_from c (x # xs) = (if x = c then (x # xs) # suffixes_from c xs else suffixes_from c xs)"

definition wild_cmp :: "string \<Rightarrow> char" where
  "wild_cmp ws = (if hd ws = backslash \<and> tl ws \<noteq> [] then hd (tl ws) else hd ws)"

lemma wild_run_length: "wild_run str ws = Some ws' \<Longrightarrow> length ws' \<le> length ws"
  by (induction ws) (auto split: if_splits)

function wild_compare_full :: "string \<Rightarrow> string \<Rightarrow> int" where
  "wild_compare_full str [] = (if str \<noteq> [] then 1 else 0)"
| "wild_compare_full str (w # ws) =
     (if w \<noteq> CHR ''%'' \<and> w \<noteq> CHR ''_'' then
        (if w = backslash \<and> ws \<noteq> []
         then (if str = [] \<or> hd ws \<noteq> hd str then 1 else wild_compare_full (tl str) (tl ws))
         else (if str = [] \<or> w \<noteq> hd str then 1 else wild_compare_full (tl str) ws))
      else if w = CHR ''_'' then
        (if str = [] then 1 else wild_compare_full (tl str) ws)
      else
        (case wild_run str ws of
           None \<Rightarrow> 1
         | Some ws' \<Rightarrow>
             (if ws' = [] then 0
              else if list_ex (\<lambda>str'. wild_compare_full str' ws' = 0) (suffixes_from (wild_cmp ws') str)
              then 0 else 1)))"
  by pat_completeness auto
termination
  by (relation "measure (\<lambda>(str, ws). length ws)") (auto dest: wild_run_length simp: less_Suc_eq_le)

definition match_sql_wild :: "string \<Rightarrow> string \<Rightarrow> bool" where
  "match_sql_wild str pattern \<longleftrightarrow> wild_compare_full str pattern = 0"

text \<open>
  \<open>get_sort(1, str)\<close> on the bytes up to the first NUL: \<open>pos\<close> is \<open>str - start\<close> and \<open>chars\<close> the
  marker that a character was seen.
\<close>

fun get_sort_loop :: "nat \<Rightarrow> nat \<Rightarrow> string \<Rightarrow> nat" where
  "get_sort_loop pos chars [] = chars"
| "get_sort_loop pos chars (c # s) =
     (if c = backslash \<and> s \<noteq> [] then get_sort_loop (pos + 2) 128 (tl s)
      else if c = CHR ''%'' \<or> c = CHR ''_'' then
        (let wild_pos = pos + 1;
             wild_pos = (if wild_pos = 1 \<and> c = CHR ''%'' \<and> s = [] then wild_pos else wild_pos + 1)
         in min wild_pos 127)
      else get_sort_loop (pos + 1) 128 s)"

definition get_sort :: "string \<Rightarrow> nat" where
  "get_sort str = get_sort_loop 0 0 (takeWhile (\<lambda>c. c \<noteq> nul) str)"

definition SQL_wild_compare :: "string \<Rightarrow> string \<Rightarrow> bool" where
  "SQL_wild_compare a b \<longleftrightarrow> get_sort b < get_sort a"

subsection \<open>The query formatter\<close>

record sqlstring =
  formatted :: string
  format_string_left :: string
  quote_only_if_needed :: bool

text \<open>\<open>for (; it.valid(); ++it) if (*it == '?' || *it == '!') break;\<close>\<close>

function find_placeholder :: "SQL_iterator \<Rightarrow> SQL_iterator res" where
  "find_placeholder it =
     (if it_valid it \<and> \<not> (it_get_char it = CHR ''?'' \<or> it_get_char it = CHR ''!'')
      then (case it_incr it of Inl e \<Rightarrow> Inl e | Inr it' \<Rightarrow> find_placeholder it')
      else Inr it)"
  by pat_completeness auto
termination
proof (relation "measure (\<lambda>it. length (m_s it) - the (m_offset it))", goal_cases)
  case (2 it it')
  then obtain i where "m_offset it = Some i" "i < length (m_s it)"
    by (auto simp: it_valid_def split: option.splits)
  with it_incr_progress(1,2) [OF 2(2) this(1)] show ?case by auto
qed simp

declare find_placeholder.simps [simp del]

definition consume_until_next_escape :: "sqlstring \<Rightarrow> (string \<times> sqlstring) res" where
  "consume_until_next_escape q =
     bind_res (SQL_iterator_new (format_string_left q) 0 True True) (\<lambda>it0.
     bind_res (find_placeholder it0) (\<lambda>it.
       let position = the (m_offset it) in
       if 0 < position
       then Inr (substr (format_string_left q) 0 position,
                 q\<lparr>format_string_left :=
                     (if position < length (format_string_left q) then drop position (format_string_left q) else [])\<rparr>)
       else Inr ([], q)))"

definition next_escape :: "sqlstring \<Rightarrow> (char \<times> sqlstring) res" where
  "next_escape q =
     (case format_string_left q of
        [] \<Rightarrow> Inl (Invalid_argument ''Error formatting SQL query: more arguments than escapes'')
      | c # rest \<Rightarrow> Inr (c, q\<lparr>format_string_left := rest\<rparr>))"

definition append_formatted :: "string \<Rightarrow> sqlstring \<Rightarrow> sqlstring" where
  "append_formatted s q = q\<lparr>formatted := formatted q @ s\<rparr>"

text \<open>\<open>append(s); append(consume_until_next_escape())\<close>, the end of every \<open>operator<<\<close>.\<close>

definition append_and_consume :: "string \<Rightarrow> sqlstring \<Rightarrow> sqlstring res" where
  "append_and_consume s q =
     bind_res (consume_until_next_escape (append_formatted s q)) (\<lambda>(lit, q'). Inr (append_formatted lit q'))"

definition sqlstring_new :: "string \<Rightarrow> bool \<Rightarrow> sqlstring res" where
  "sqlstring_new format_string only_if_needed =
     append_and_consume [] \<lparr>formatted = [], format_string_left = format_string, quote_only_if_needed = only_if_needed\<rparr>"

definition sqlstring_done :: "sqlstring \<Rightarrow> sqlstring res" where
  "sqlstring_done q =
     (if format_string_left q \<noteq> [] \<and> (hd (format_string_left q) = CHR ''!'' \<or> hd (format_string_left q) = CHR ''?'')
      then Inl (Logic_error ''Unbound placeholders left in query'')
      else Inr (q\<lparr>formatted := formatted q @ format_string_left q, format_string_left := []\<rparr>))"

definition sqlstring_str :: "sqlstring \<Rightarrow> string res" where
  "sqlstring_str q = bind_res (sqlstring_done q) (\<lambda>q. Inr (formatted q))"

text \<open>
  The overloads of \<open>operator<<\<close>. The text of a floating point value comes from \<open>dtoa\<close>, which
  is not modelled here: \<open>Double_arg\<close> carries the text it produced.
\<close>

datatype sql_arg =
    Int_arg int
  | Double_arg string
  | String_arg string
  | CString_arg "string option"
  | Sql_arg sqlstring

definition internal_escape_error :: exn where
  "internal_escape_error =
     Invalid_argument ''Error formatting SQL query: internal error, expected ? or ! escape got something else''"

definition put_number :: "string \<Rightarrow> sqlstring \<Rightarrow> sqlstring res" where
  "put_number text q =
     bind_res (next_escape q) (\<lambda>(esc, q).
       if esc \<noteq> CHR ''?''
       then Inl (Invalid_argument ''Error formatting SQL query: invalid escape for numeric argument'')
       else append_and_consume text q)"

definition quote_for_format :: "sqlstring \<Rightarrow> string \<Rightarrow> string" where
  "quote_for_format q v =
     (if quote_only_if_needed q then quote_identifier_if_needed v backtick else quote_identifier v backtick)"

definition put_string :: "string \<Rightarrow> sqlstring \<Rightarrow> sqlstring res" where
  "put_string v q =
     bind_res (next_escape q) (\<lambda>(esc, q).
       if esc = CHR ''!'' then append_and_consume (quote_for_format q v) q
       else if esc = CHR ''?'' then append_and_consume ([squote] @ escape_sql_string v False @ [squote]) q
       else Inl internal_escape_error)"

definition put_cstring :: "string option \<Rightarrow> sqlstring \<Rightarrow> sqlstring res" where
  "put_cstring v q =
     bind_res (next_escape q) (\<lambda>(esc, q).
       if esc = CHR ''!'' then
         (case v of
            None \<Rightarrow> Inl (Invalid_argument ''Error formatting SQL query: NULL value found for identifier'')
          | Some v \<Rightarrow> append_and_consume (quote_for_format q v) q)
       else if esc = CHR ''?'' then
         append_and_consume (case v of Some v \<Rightarrow> quote_sql_string v | None \<Rightarrow> ''NULL'') q
       else Inl internal_escape_error)"

definition put_sqlstring :: "sqlstring \<Rightarrow> sqlstring \<Rightarrow> sqlstring res" where
  "put_sqlstring v q =
     bind_res (next_escape q) (\<lambda>(esc, q).
     bind_res (sqlstring_str v) (\<lambda>text. append_and_consume text q))"

fun put_arg :: "sql_arg \<Rightarrow> sqlstring \<Rightarrow> sqlstring res" where
  "put_arg (Int_arg n) q = put_number (to_string n) q"
| "put_arg (Double_arg text) q = put_number text q"
| "put_arg (String_arg v) q = put_string v q"
| "put_arg (CString_arg v) q = put_cstring v q"
| "put_arg (Sql_arg v) q = put_sqlstring v q"

fun put_args :: "sql_arg list \<Rightarrow> sqlstring \<Rightarrow> sqlstring res" where
  "put_args [] q = Inr q"
| "put_args (a # as) q = bind_res (put_arg a q) (put_args as)"

definition sqlformat :: "string \<Rightarrow> sql_arg list \<Rightarrow> string res" where
  "sqlformat s args =
     bind_res (sqlstring_new s False) (\<lambda>q.
     bind_res (put_args args q) (\<lambda>q.
     bind_res (sqlstring_done q) sqlstring_str))"

end
