(* ===== verification/Object_Names.thy ===== *)
theory Object_Names
  imports Sql_String
begin

text \<open>
  Account and object names, from \<^verbatim>\<open>mysqlshdk/libs/utils/utils_general.cc\<close>: the scanners for quoted
  and unquoted identifiers and string literals, \<open>split_account\<close> and \<open>make_account\<close>, the
  splitting of qualified names, and the unquoting functions.

  The scanners append to an \<open>out_string\<close>, which their callers pass empty; they return the offset
  after the element and the text. A loop over \<open>s\<close> from \<open>p\<close> is a recursion over the remaining
  characters that carries \<open>p\<close>.
\<close>

section \<open>Definitions\<close>

definition isalnum :: "char \<Rightarrow> bool" where
  "isalnum c \<longleftrightarrow> isalpha c \<or> isdigit c"

subsection \<open>Identifiers\<close>

text \<open>The two loops of \<open>span_quotable_identifier\<close>: between quotes, and without them.\<close>

fun quoted_identifier_loop :: "char \<Rightarrow> string \<Rightarrow> nat \<Rightarrow> bool \<Rightarrow> string \<Rightarrow> (nat \<times> string) res" where
  "quoted_identifier_loop quote [] p esc out =
     (if esc then Inr (p, out) else Inl (Runtime_error ''Invalid syntax in identifier''))"
| "quoted_identifier_loop quote (c # cs) p esc out =
     (if quote = c then
        (if esc then quoted_identifier_loop quote cs (p + 1) False (out @ [c])
         else quoted_identifier_loop quote cs (p + 1) True out)
      else if esc then Inr (p, out)
      else quoted_identifier_loop quote cs (p + 1) esc (out @ [c]))"

fun plain_identifier_loop :: "nat \<Rightarrow> string \<Rightarrow> nat \<Rightarrow> bool \<Rightarrow> string \<Rightarrow> (nat \<times> bool \<times> string) res" where
  "plain_identifier_loop first [] p seen_not_a_digit out = Inr (p, seen_not_a_digit, out)"
| "plain_identifier_loop first (c # cs) p seen_not_a_digit out =
     (if \<not> isalnum c \<and> c \<noteq> CHR ''_'' \<and> c \<noteq> CHR ''$'' then
        (if first = p then Inl (Runtime_error ''Invalid character in identifier'')
         else Inr (p, seen_not_a_digit, out))
      else plain_identifier_loop first cs (p + 1) (seen_not_a_digit \<or> \<not> isdigit c) (out @ [c]))"

definition span_quotable_identifier :: "string \<Rightarrow> nat \<Rightarrow> bool \<Rightarrow> (nat \<times> string) res" where
  "span_quotable_identifier s p allow_ansi_quotes =
     (if length s \<le> p then Inr (p, [])
      else if s ! p = backtick \<or> (allow_ansi_quotes \<and> s ! p = dquote)
      then quoted_identifier_loop (s ! p) (drop (p + 1) s) (p + 1) False []
      else bind_res (plain_identifier_loop p (drop p s) p False [])
             (\<lambda>(p, seen_not_a_digit, out).
                if \<not> seen_not_a_digit
                then Inl (Runtime_error ''Invalid identifier: identifiers may begin with a digit but unless quoted may not consist solely of digits.'')
                else Inr (p, out)))"

subsection \<open>String literals\<close>

definition literal_escape :: "char \<Rightarrow> char" where
  "literal_escape c =
     (if c = CHR ''n'' then newline
      else if c = CHR ''t'' then CHR 0x09
      else if c = CHR ''b'' then CHR 0x08
      else if c = CHR ''r'' then CHR 0x0D
      else if c = CHR ''0'' then nul
      else if c = CHR ''Z'' then CHR 0x1A
      else c)"

text \<open>
  The switch of \<open>span_quotable_string_literal\<close>: what it appends, the new \<open>esc\<close> (NUL for 0) and
  whether it sets \<open>done\<close>.
\<close>

definition literal_char :: "char \<Rightarrow> char \<Rightarrow> char \<Rightarrow> string \<times> char \<times> bool" where
  "literal_char quote esc c =
     (if c = dquote \<or> c = squote then
        (if quote = c then
           (if esc = quote \<or> esc = backslash then ([c], nul, False) else ([], c, False))
         else ([c], nul, False))
      else if c = backslash then
        (if esc = backslash then ([c], nul, False)
         else if esc = nul then ([], backslash, False)
         else ([], esc, True))
      else
        (if esc = backslash then ([literal_escape c], nul, False)
         else if esc = nul then ([c], esc, False)
         else ([], esc, True)))"

fun literal_loop :: "char \<Rightarrow> string \<Rightarrow> nat \<Rightarrow> char \<Rightarrow> string \<Rightarrow> (nat \<times> string) res" where
  "literal_loop quote [] p esc out =
     (if esc = quote then Inr (p, out) else Inl (Runtime_error ''Invalid syntax in string literal''))"
| "literal_loop quote (c # cs) p esc out =
     (if esc = quote \<and> c \<noteq> esc then Inr (p, out)
      else case literal_char quote esc c of
             (o', esc', True) \<Rightarrow> Inr (p + 1, out @ o')
           | (o', esc', False) \<Rightarrow> literal_loop quote cs (p + 1) esc' (out @ o'))"

definition plain_literal_char :: "char \<Rightarrow> bool" where
  "plain_literal_char c \<longleftrightarrow> isalnum c \<or> c = CHR ''_'' \<or> c = CHR ''$'' \<or> c = CHR ''.'' \<or> c = CHR ''%''"

definition span_quotable_string_literal :: "string \<Rightarrow> nat \<Rightarrow> bool \<Rightarrow> (nat \<times> string) res" where
  "span_quotable_string_literal s p allow_number_at_beginning =
     (if length s \<le> p then Inr (p, [])
      else if s ! p \<noteq> squote \<and> s ! p \<noteq> dquote then
        (if \<not> isalpha (s ! p) \<and> \<not> (allow_number_at_beginning \<and> isdigit (s ! p))
            \<and> s ! p \<noteq> CHR ''_'' \<and> s ! p \<noteq> CHR ''$'' \<and> s ! p \<noteq> CHR ''%''
         then Inl (Runtime_error ''Invalid character in string literal'')
         else let text = takeWhile plain_literal_char (drop p s) in Inr (p + length text, text))
      else literal_loop (s ! p) (drop (p + 1) s) (p + 1) nul [])"

subsection \<open>Accounts\<close>

datatype Auto_quote = NO | HOST | USER_AND_HOST

text \<open>
  A \<^verbatim>\<open>runtime_error\<close> of the first scan is caught; when the host is not to be quoted \<open>res\<close> is then
  still 0, which makes \<open>split_account\<close> refuse the account.
\<close>

definition span_account_hostname_relaxed :: "string \<Rightarrow> nat \<Rightarrow> bool \<Rightarrow> (nat \<times> string) res" where
  "span_account_hostname_relaxed s p auto_quote_hosts =
     (if length s \<le> p then Inr (p, [])
      else if find_char s (CHR ''@'') p \<noteq> None
      then Inl (Runtime_error (''Malformed hostname (illegal symbol: '' @ [squote] @ ''@'' @ [squote] @ '')''))
      else if s ! p = backtick then span_quotable_identifier s p False
      else
        (let quoted = (s ! p = s ! (length s - 1) \<and> (s ! p = squote \<or> s ! p = dquote)) in
         if \<not> quoted \<and> (find_char s squote p \<noteq> None \<or> find_char s dquote p \<noteq> None)
         then Inl (Runtime_error (''Malformed hostname. Cannot use '' @ [dquote, squote, dquote] @ '' or ''
                @ [squote, dquote, squote] @ '' characters on the hostname without quotes''))
         else
           (let first = span_quotable_string_literal s p True;
                try_quoting = (case first of
                                 Inr (res, _) \<Rightarrow> res < length s \<and> auto_quote_hosts \<and> \<not> quoted
                               | Inl _ \<Rightarrow> auto_quote_hosts)
            in if try_quoting
               then span_quotable_string_literal
                      (take p s @ [squote] @ escape_backticks (drop p s) @ [squote]) p True
               else case first of Inr r \<Rightarrow> Inr r | Inl _ \<Rightarrow> Inr (0, []))))"

text \<open>\<^verbatim>\<open>std::string::rfind(c)\<close>.\<close>

definition rfind_char :: "string \<Rightarrow> char \<Rightarrow> nat option" where
  "rfind_char s c = map_option (\<lambda>i. length s - 1 - i) (index_of (\<lambda>x. x = c) (rev s))"

text \<open>The user part of \<open>split_account\<close>: where it ends (\<^const>\<open>None\<close> for \<open>npos\<close>) and its text.\<close>

definition split_account_user :: "string \<Rightarrow> Auto_quote \<Rightarrow> (nat option \<times> string) res" where
  "split_account_user account auto_quote =
     (if account = [] then Inl (Runtime_error ''User name must not be empty.'')
      else if account ! 0 = backtick
      then bind_res (span_quotable_identifier account 0 False) (\<lambda>(pos, user). Inr (Some pos, user))
      else if account ! 0 = squote \<or> account ! 0 = dquote
      then bind_res (span_quotable_string_literal account 0 False) (\<lambda>(pos, user). Inr (Some pos, user))
      else case rfind_char account (CHR ''@'') of
             None \<Rightarrow> Inr (None, account)
           | Some pos \<Rightarrow>
               (if pos = 0 then Inl (Runtime_error ''User name must not be empty.'')
                else if auto_quote \<noteq> USER_AND_HOST \<and> CHR ''@'' \<in> set (take pos account)
                then Inl (Runtime_error (''Invalid user name: '' @ substr account 0 pos))
                else Inr (Some pos, substr account 0 pos)))"

definition invalid_account :: "string \<Rightarrow> exn" where
  "invalid_account account =
     Runtime_error (''Invalid syntax in account name '' @ [squote] @ account @ [squote])"

definition split_account :: "string \<Rightarrow> Auto_quote \<Rightarrow> (string \<times> string) res" where
  "split_account account auto_quote =
     bind_res (split_account_user account auto_quote) (\<lambda>(upos, user).
       case upos of
         None \<Rightarrow> Inr (user, [])
       | Some pos \<Rightarrow>
           bind_res
             (if pos < length account \<and> account ! pos = CHR ''@'' then
                (if pos + 1 < length account then
                   (if drop (pos + 1) account = ''skip-grants host'' then Inr (length account, ''skip-grants host'')
                    else span_account_hostname_relaxed account (pos + 1) (auto_quote \<noteq> NO))
                 else Inr (pos + 1, []))
              else Inr (pos, []))
             (\<lambda>(pos, host).
                if pos < length account then Inl (invalid_account account) else Inr (user, host)))"

definition make_account :: "string \<Rightarrow> string \<Rightarrow> string res" where
  "make_account user host =
     bind_res (sqlstring_new ''?@?'' False) (\<lambda>q.
     bind_res (put_string user q) (\<lambda>q.
     bind_res (put_string host q) sqlstring_str))"

subsection \<open>Qualified names\<close>

definition ensure_dot :: "string \<Rightarrow> nat \<Rightarrow> unit res" where
  "ensure_dot str pos =
     (if str ! pos \<noteq> CHR ''.''
      then Inl (Runtime_error (''Invalid object name, expected '' @ [squote] @ ''.'' @ [squote]
             @ '', but got: '' @ [squote, str ! pos, squote, CHR ''.'']))
      else Inr ())"

definition ensure_eos :: "string \<Rightarrow> nat \<Rightarrow> unit res" where
  "ensure_eos str pos =
     (if pos < length str
      then Inl (Runtime_error (''Invalid object name, expected end of name, but got: ''
             @ [squote, str ! pos, squote, CHR ''.'']))
      else Inr ())"

definition split_schema_and_table :: "string \<Rightarrow> bool \<Rightarrow> (string \<times> string) res" where
  "split_schema_and_table str allow_ansi_quotes =
     bind_res (span_quotable_identifier str 0 allow_ansi_quotes) (\<lambda>(pos, schema).
     bind_res
       (if pos < length str then
          bind_res (ensure_dot str pos) (\<lambda>_.
          bind_res (span_quotable_identifier str (pos + 1) allow_ansi_quotes) (\<lambda>(pos, table).
          bind_res (ensure_eos str pos) (\<lambda>_. Inr (schema, table))))
        else Inr ([], schema))
       (\<lambda>(schema, table).
          if table = [] then Inl (Runtime_error ''Invalid object name, table name cannot be empty.'')
          else Inr (schema, table)))"

definition split_schema_table_and_object :: "string \<Rightarrow> bool \<Rightarrow> (string \<times> string \<times> string) res" where
  "split_schema_table_and_object str allow_ansi_quotes =
     bind_res (span_quotable_identifier str 0 allow_ansi_quotes) (\<lambda>(pos, schema).
     bind_res
       (if pos < length str then
          bind_res (ensure_dot str pos) (\<lambda>_.
          bind_res (span_quotable_identifier str (pos + 1) allow_ansi_quotes) (\<lambda>(pos, table).
            if pos < length str then
              bind_res (ensure_dot str pos) (\<lambda>_.
              bind_res (span_quotable_identifier str (pos + 1) allow_ansi_quotes) (\<lambda>(pos, object).
              bind_res (ensure_eos str pos) (\<lambda>_. Inr (schema, table, object))))
            else Inr ([], schema, table)))
        else Inr ([], [], schema))
       (\<lambda>(schema, table, object).
          if object = [] then Inl (Runtime_error ''Invalid identifier, object name cannot be empty.'')
          else Inr (schema, table, object)))"

text \<open>
  \<open>split_priv_level\<close>: schema, object and, when the caller takes it, the offset of the text left.
\<close>

definition split_priv_level :: "string \<Rightarrow> bool \<Rightarrow> (string \<times> string \<times> nat option) res" where
  "split_priv_level str takes_leftover =
     (if str = [] then Inr ([], [], None)
      else
        bind_res (if hd str = CHR ''*'' then Inr (1, ''*'') else span_quotable_identifier str 0 False) (\<lambda>(pos, schema).
          if pos < length str then
            (if str ! pos \<noteq> CHR ''.''
             then Inl (Runtime_error (''Invalid object name '' @ [squote] @ str @ [squote] @ '', expected ''
                    @ [squote] @ ''.'' @ [squote] @ '', but got: '' @ [squote, str ! pos, squote, CHR ''.'']))
             else if pos + 1 < length str then
               bind_res (if str ! (pos + 1) = CHR ''*'' then Inr (pos + 2, ''*'')
                         else span_quotable_identifier str (pos + 1) False) (\<lambda>(pos, object).
                 if pos < length str then
                   (if takes_leftover then Inr (schema, object, Some pos)
                    else Inl (Runtime_error (''Invalid object name '' @ [squote] @ str @ [squote]
                           @ '', expected end of name, but got: '' @ [squote, str ! pos, squote, CHR ''.''])))
                 else Inr (schema, object, None))
             else Inl (Runtime_error (''Invalid object name '' @ [squote] @ str @ [squote]
                    @ '', expected object name after '' @ [squote] @ ''.'' @ [squote])))
          else Inr (schema, [], None)))"

subsection \<open>Unquoting\<close>

definition unquote_identifier :: "string \<Rightarrow> bool \<Rightarrow> string res" where
  "unquote_identifier str allow_ansi_quotes =
     bind_res (span_quotable_identifier str 0 allow_ansi_quotes) (\<lambda>(pos, object).
     bind_res (ensure_eos str pos) (\<lambda>_.
       if object = [] then Inl (Runtime_error ''Object name cannot be empty.'') else Inr object))"

definition sql_unescape :: "char \<Rightarrow> char" where
  "sql_unescape c =
     (if c = CHR ''0'' then nul
      else if c = CHR ''n'' then newline
      else if c = CHR ''r'' then CHR 0x0D
      else if c = CHR ''Z'' then CHR 0x1A
      else c)"

definition not_properly_quoted :: exn where
  "not_properly_quoted = Invalid_argument ''string is not properly quoted''"

text \<open>The loop of \<open>unquote_sql_string\<close>; \<open>s[s.length()]\<close> is NUL.\<close>

function unquote_sql_loop :: "string \<Rightarrow> nat \<Rightarrow> string \<Rightarrow> string res" where
  "unquote_sql_loop s offs result =
     (case find_first_of s [squote, backslash] offs of
        None \<Rightarrow> Inl not_properly_quoted
      | Some p \<Rightarrow>
          (let result = result @ substr s offs (p - offs); c = c_str s (p + 1)
           in if s ! p = backslash then
                (if c = nul then Inl not_properly_quoted
                 else unquote_sql_loop s (p + 2) (result @ [sql_unescape c]))
              else if c = squote then unquote_sql_loop s (p + 2) (result @ [squote])
              else if p + 1 = length s then Inr result
              else Inl not_properly_quoted))"
  by pat_completeness auto
termination
  by (relation "measure (\<lambda>(s, offs, result). length s - offs)")
    (auto simp: find_first_of_def dest!: find_if_from_bounds)

declare unquote_sql_loop.simps [simp del]

definition unquote_sql_string :: "string \<Rightarrow> string res" where
  "unquote_sql_string s =
     (if length s < 2 \<or> s ! 0 \<noteq> squote \<or> s ! 0 \<noteq> last s then Inl not_properly_quoted
      else unquote_sql_loop s 1 [])"

end
