(* ===== verification/Lexing_Facts.thy ===== *)
theory Lexing_Facts
  imports Lexing
begin

text \<open>
  What the scanners of \<open>Lexing\<close> find: a quoted string ends at the first quote that is not
  escaped, a quoted identifier at the first quote that is not doubled.
\<close>

section \<open>Reference definitions\<close>

text \<open>
  \<open>quoted_body q\<close> is the inside of a string quoted with \<open>q\<close>; \<open>qspan\<close> and \<open>ispan\<close> are the two
  scans by recursion on the text; \<open>doubled q s\<close> is \<open>s\<close> with every \<open>q\<close> written twice.
\<close>

fun quoted_body :: "char \<Rightarrow> string \<Rightarrow> bool" where
  "quoted_body q [] = True"
| "quoted_body q (c # t) =
     (if c = backslash then (case t of [] \<Rightarrow> False | _ # u \<Rightarrow> quoted_body q u)
      else c \<noteq> q \<and> quoted_body q t)"

fun qspan :: "char \<Rightarrow> string \<Rightarrow> nat option" where
  "qspan q [] = None"
| "qspan q (c # t) =
     (if c = backslash then (case t of [] \<Rightarrow> None | _ # u \<Rightarrow> map_option ((+) 2) (qspan q u))
      else if c = q then Some 1 else map_option Suc (qspan q t))"

fun ispan :: "char \<Rightarrow> string \<Rightarrow> nat option" where
  "ispan q [] = None"
| "ispan q (c # t) =
     (if c = q then (case t of [] \<Rightarrow> Some 1 | d # u \<Rightarrow> if d = q then map_option ((+) 2) (ispan q u) else Some 1)
      else map_option Suc (ispan q t))"

definition doubled :: "char \<Rightarrow> string \<Rightarrow> string" where
  "doubled q s = concat (map (\<lambda>c. if c = q then [q, q] else [c]) s)"

definition quote_row :: "char \<Rightarrow> (nat \<Rightarrow> nat) \<Rightarrow> bool" where
  "quote_row q skips \<longleftrightarrow> q \<noteq> backslash \<and> q \<noteq> nul \<and>
     (\<forall>c. skips (code c) = (if c = nul \<or> c = q then 0 else if c = backslash then 2 else 1))"

text \<open>What may follow a closing quote: not another one, which would make it a doubled quote.\<close>

definition ends_quote :: "char \<Rightarrow> string \<Rightarrow> bool" where
  "ends_quote q r \<longleftrightarrow> r = [] \<or> hd r \<noteq> q"

section \<open>The scans as recursions\<close>

lemma qspan_body: "quoted_body q b \<Longrightarrow> q \<noteq> backslash \<Longrightarrow> qspan q (b @ q # r) = Some (Suc (length b))"
  by (induction q b rule: quoted_body.induct) (auto split: list.splits)

lemma qspan_sound:
  "qspan q t = Some n \<Longrightarrow> \<exists>b r. t = b @ q # r \<and> quoted_body q b \<and> n = Suc (length b)"
proof (induction q t arbitrary: n rule: qspan.induct)
  case (2 q c t)
  consider (esc) x u m where "c = backslash" "t = x # u" "qspan q u = Some m" "n = m + 2"
    | (quote) "c \<noteq> backslash" "c = q" "n = 1"
    | (plain) m where "c \<noteq> backslash" "c \<noteq> q" "qspan q t = Some m" "n = Suc m"
    using "2.prems" by (auto split: if_splits list.splits)
  then show ?case
  proof cases
    case esc
    with "2.IH"(1) [OF esc(1,2) esc(3)] obtain b r where "u = b @ q # r" "quoted_body q b" "m = Suc (length b)"
      by auto
    with esc show ?thesis by (intro exI [of _ "c # x # b"] exI [of _ r]) simp
  next
    case quote
    then show ?thesis by (intro exI [of _ "[]"] exI [of _ t]) simp
  next
    case plain
    with "2.IH"(2) [OF plain(1,2) plain(3)] obtain b r where "t = b @ q # r" "quoted_body q b" "m = Suc (length b)"
      by auto
    with plain show ?thesis by (intro exI [of _ "c # b"] exI [of _ r]) simp
  qed
qed simp

lemma code_eq_iff: "code c = 0 \<longleftrightarrow> c = nul" "code c = 39 \<longleftrightarrow> c = squote" "code c = 34 \<longleftrightarrow> c = dquote" "code c = 92 \<longleftrightarrow> c = backslash"
  using code_inject [of c nul] code_inject [of c squote] code_inject [of c dquote] code_inject [of c backslash]
  by simp_all

lemma quote_rows:
  "quote_row squote (k_quoted_string_span_skips_sq 0)" "quote_row dquote (k_quoted_string_span_skips_dq 0)"
  by (simp_all add: quote_row_def k_quoted_string_span_skips_sq_def k_quoted_string_span_skips_dq_def code_eq_iff)

lemma span_quoted_loop_qspan:
  assumes "quote_row q skips"
  shows "span_quoted_loop skips s i = map_option ((+) i) (qspan q (drop i s))"
  using assms
proof (induction skips s i rule: span_quoted_loop.induct)
  case (1 skips s i)
  note loop = span_quoted_loop.simps [of skips s i]
  show ?case
  proof (cases "i < length s")
    case True
    let ?c = "s ! i"
    have d: "drop i s = ?c # drop (Suc i) s" using True by (simp add: Cons_nth_drop_Suc)
    note row = "1.prems" [unfolded quote_row_def]
    have row': "skips (code ?c) = (if ?c = nul \<or> ?c = q then 0 else if ?c = backslash then 2 else 1)"
      using row by simp
    note IH = "1.IH" [OF True refl refl]
    consider "?c = backslash" | "?c = q" "?c \<noteq> backslash" | "?c \<noteq> q" "?c \<noteq> backslash" by blast
    then show ?thesis
    proof cases
      case 1
      then have "skips (code ?c) = 2" using row row' by auto
      then have "span_quoted_loop skips s i = map_option (\<lambda>a. Suc (Suc (i + a))) (qspan q (drop (i + 2) s))"
        using IH(1) "1.prems" True by (simp add: loop Let_def)
      moreover have "qspan q (drop i s) = map_option ((+) 2) (qspan q (drop (i + 2) s))"
        using 1 d by (cases "drop (Suc i) s") (simp_all add: drop_Suc [of "Suc i"] drop_tl tl_drop flip: drop_Suc)
      ultimately show ?thesis by (simp add: option.map_comp o_def add_ac)
    next
      case 2
      then show ?thesis using row row' d True by (auto simp: loop Let_def)
    next
      case 3
      then have "span_quoted_loop skips s i = span_quoted_loop skips s (i + 1)" using row' True by (simp add: loop Let_def)
      then have "span_quoted_loop skips s i = map_option (\<lambda>a. Suc (i + a)) (qspan q (drop (i + 1) s))"
        using IH "1.prems" 3 row' by (cases "?c = nul") auto
      with 3 d show ?thesis by (simp add: option.map_comp o_def add_ac)
    qed
  qed (simp add: loop)
qed


lemma ispan_skip: "q \<notin> set a \<Longrightarrow> ispan q (a @ b) = map_option ((+) (length a)) (ispan q b)"
  by (induction a; cases "ispan q b") auto

lemma span_identifier_loop_ispan:
  "span_identifier_loop q s p = map_option ((+) p) (ispan q (drop p s))"
proof (induction q s p rule: span_identifier_loop.induct)
  case (1 q s p)
  note loop = span_identifier_loop.simps [of q s p]
  show ?case
  proof (cases "index_of (\<lambda>x. x = q) (drop p s)")
    case None
    then have "q \<notin> set (drop p s)" by (auto simp: index_of_None_iff)
    then have "ispan q (drop p s) = None" using ispan_skip [of q "drop p s" "[]"] by simp
    with None show ?thesis by (simp add: loop find_defs)
  next
    case (Some i)
    then have f: "find_char s q p = Some (p + i)" by (simp add: find_defs)
    from index_of_split [OF Some] have d: "drop p s = take i (drop p s) @ q # drop (Suc i) (drop p s)"
      and n: "q \<notin> set (take i (drop p s))" and l: "i < length (drop p s)"
      using index_of_lengthD [OF Some] by auto
    have len: "length (take i (drop p s)) = i" using l by simp
    define t where "t = drop (Suc (p + i)) s"
    have t: "drop (Suc i) (drop p s) = t" by (simp add: t_def add.commute)
    have step: "ispan q (drop p s) = map_option ((+) i) (ispan q (q # t))"
      by (subst d) (simp only: ispan_skip [OF n] len t)
    show ?thesis
    proof (cases "Suc (p + i) < length s \<and> s ! Suc (p + i) = q")
      case True
      then have "t = q # drop (p + i + 2) s" by (simp add: t_def Cons_nth_drop_Suc [symmetric])
      with step "1.IH" [OF f] True f show ?thesis by (simp add: loop option.map_comp o_def add_ac)
    next
      case False
      then have "ispan q (q # t) = Some 1" by (cases t) (auto simp: t_def nth_via_drop drop_eq_Nil2)
      with step False f show ?thesis by (auto simp: loop)
    qed
  qed
qed

lemma ispan_doubled:
  "r = [] \<or> hd r \<noteq> q \<Longrightarrow> ispan q (doubled q s @ q # r) = Some (Suc (length (doubled q s)))"
  by (induction s) (auto simp: doubled_def split: list.splits)

lemma ispan_sound:
  "ispan q t = Some n \<Longrightarrow> \<exists>s r. t = doubled q s @ q # r \<and> (r = [] \<or> hd r \<noteq> q) \<and> n = Suc (length (doubled q s))"
proof (induction q t arbitrary: n rule: ispan.induct)
  case (2 q c t)
  consider (double) u m where "c = q" "t = q # u" "ispan q u = Some m" "n = m + 2"
    | (close) "c = q" "t = [] \<or> hd t \<noteq> q" "n = 1"
    | (plain) m where "c \<noteq> q" "ispan q t = Some m" "n = Suc m"
    using "2.prems" by (auto split: if_splits list.splits)
  then show ?case
  proof cases
    case double
    with "2.IH"(1) [OF double(1,2) refl double(3)] obtain s r
      where "u = doubled q s @ q # r" "r = [] \<or> hd r \<noteq> q" "m = Suc (length (doubled q s))" by auto
    with double show ?thesis by (intro exI [of _ "q # s"] exI [of _ r]) (simp add: doubled_def)
  next
    case close
    then show ?thesis by (intro exI [of _ "[]"] exI [of _ t]) (simp add: doubled_def)
  next
    case plain
    with "2.IH"(2) [OF plain(1,2)] obtain s r
      where "t = doubled q s @ q # r" "r = [] \<or> hd r \<noteq> q" "m = Suc (length (doubled q s))" by auto
    with plain show ?thesis by (intro exI [of _ "c # s"] exI [of _ r]) (simp add: doubled_def)
  qed
qed simp


section \<open>Literals\<close>

text \<open>
  The contract between a quoting function and the scanner that reads its output: the scan over a
  quoted text stops exactly at its end, wherever it stands and whatever it holds. \<open>ends\<close> says what
  may follow.
\<close>

locale literal =
  fixes enc :: "string \<Rightarrow> string" and span :: "string \<Rightarrow> nat \<Rightarrow> nat option" and ends :: "string \<Rightarrow> bool"
  assumes span_enc: "ends rest \<Longrightarrow> span (pre @ enc s @ rest) (length pre) = Some (length pre + length (enc s))"
begin

lemma span_first: "ends rest \<Longrightarrow> span (enc s @ rest) 0 = Some (length (enc s))"
  using span_enc [of rest "[]"] by simp

lemma enc_split:
  assumes "ends r" "ends r'" "enc s @ r = enc s' @ r'"
  shows "enc s = enc s'" "r = r'"
proof -
  have "length (enc s) = length (enc s')"
    using span_first [OF assms(1), of s] span_first [OF assms(2), of s'] assms(3) by simp
  with assms(3) show "enc s = enc s'" "r = r'" by simp_all
qed

end

section \<open>Properties\<close>

text \<open>
  C38. \<open>span_quoted_string_sq\<close> and \<open>span_quoted_string_dq\<close> return the offset after the first
  unescaped closing quote, and \<open>npos\<close> exactly when there is none.
\<close>

theorem span_quoted_string_exact:
  "(span_quoted_string_sq s i = Some e \<longleftrightarrow>
      (\<exists>b r. drop (i + 1) s = b @ squote # r \<and> quoted_body squote b \<and> e = i + length b + 2)) \<and>
   (span_quoted_string_dq s i = Some e \<longleftrightarrow>
      (\<exists>b r. drop (i + 1) s = b @ dquote # r \<and> quoted_body dquote b \<and> e = i + length b + 2))"
proof -
  have *: "map_option ((+) (i + 1)) (qspan q t) = Some e \<longleftrightarrow>
      (\<exists>b r. t = b @ q # r \<and> quoted_body q b \<and> e = i + length b + 2)" if "q \<noteq> backslash" for q t
    using qspan_sound [of q t] qspan_body [OF _ that] by fastforce
  show ?thesis
    unfolding span_quoted_string_sq_def span_quoted_string_dq_def
      span_quoted_loop_qspan [OF quote_rows(1)] span_quoted_loop_qspan [OF quote_rows(2)]
    by (intro conjI *) simp_all
qed

text \<open>
  The identifier scanners return the offset after the first quote that is not doubled, so what
  they delimit is the doubled form of some identifier; \<open>npos\<close> exactly when there is none.
\<close>

lemma span_quoted_identifier_exact:
  "(span_quoted_sql_identifier_bt s i = Some e \<longleftrightarrow>
      (\<exists>n r. drop (i + 1) s = doubled backtick n @ backtick # r \<and> ends_quote backtick r \<and>
        e = i + length (doubled backtick n) + 2)) \<and>
   (span_quoted_sql_identifier_dquote s i = Some e \<longleftrightarrow>
      (\<exists>n r. drop (i + 1) s = doubled dquote n @ dquote # r \<and> ends_quote dquote r \<and>
        e = i + length (doubled dquote n) + 2))"
proof -
  have *: "map_option ((+) (i + 1)) (ispan q t) = Some e \<longleftrightarrow>
      (\<exists>n r. t = doubled q n @ q # r \<and> ends_quote q r \<and> e = i + length (doubled q n) + 2)" for q t
    using ispan_sound [of q t] ispan_doubled [of _ q] unfolding ends_quote_def by fastforce
  show ?thesis
    unfolding span_quoted_sql_identifier_bt_def span_quoted_sql_identifier_dquote_def span_identifier_loop_ispan
    by (simp only: *)
qed

text \<open>The scan of a conditional comment without bytes above 0x7F does not read in front of the table.\<close>

lemma schar_ascii: "code c < 128 \<Longrightarrow> 0 \<le> schar c"
  by (simp add: schar_def)

lemma comment_loop_ascii:
  assumes "list_all (\<lambda>c. code c < 128) s"
  shows "conditional_comment_loop oob d s offset = conditional_comment_loop oob' d s offset"
proof (induction "length s - offset" arbitrary: offset rule: less_induct)
  case less
  show ?case
  proof (cases "offset < length s")
    case True
    have IH: "conditional_comment_loop oob d s p = conditional_comment_loop oob' d s p" if "offset < p" for p
      using less.hyps [of p] that True by simp
    have start: "is_start_of_unquoted_identifier oob (s ! offset) = is_start_of_unquoted_identifier oob' (s ! offset)"
      using assms True schar_ascii [of "s ! offset"] by (auto simp: is_start_of_unquoted_identifier_def list_all_length)
    show ?thesis
      unfolding conditional_comment_loop.simps [of oob d s offset] conditional_comment_loop.simps [of oob' d s offset] Let_def start
      using True span_to_eol_bounds [of "offset + 4" s] span_unquoted_identifier_bounds [of offset s]
      by (intro if_cong option.case_cong sum.case_cong refl IH) (auto dest!: span_quoted_bounds span_dollar_bounds)
  qed (simp add: conditional_comment_loop.simps)
qed

text \<open>
  C40. The end of a conditional comment without bytes above 0x7F does not depend on the memory around the lookup table of
  \<open>is_start_of_unquoted_identifier\<close>. For every byte above 0x7F it can depend on the byte in front of the table that is read for it: for
  \<^verbatim>\<open>/*!\<close>, the byte and \<^verbatim>\<open>$x$ */\<close>, \<open>span_cstyle_sql_comment\<close> finds the end if that is not 0, and otherwise takes the dollar sign for a
  quote and throws.
\<close>

theorem span_cstyle_sql_comment_out_of_bounds:
  "(list_all (\<lambda>c. code c < 128) s \<longrightarrow> span_cstyle_sql_comment oob s i d = span_cstyle_sql_comment oob' s i d) \<and>
   (128 \<le> code c \<longrightarrow>
      span_cstyle_sql_comment oob (''/*!'' @ c # ''$x$ */'') 0 True =
        (if oob (schar c) then Inr (Some 10) else Inl (Invalid_argument ''Unterminated $x$ quoted string'')))"
proof (intro conjI impI)
  assume "list_all (\<lambda>c. code c < 128) s"
  then show "span_cstyle_sql_comment oob s i d = span_cstyle_sql_comment oob' s i d"
    using comment_loop_ascii [of s oob d "i + 3" oob'] by (simp add: span_cstyle_sql_comment_def)
next
  assume c: "128 \<le> code c"
  then have "schar c < 0" and "c \<notin> {squote, dquote, backtick, CHR ''*'', newline, CHR ''$''}"
    using code_less [of c] by (auto simp: schar_def simp del: code_less)
  then show "span_cstyle_sql_comment oob (''/*!'' @ c # ''$x$ */'') 0 True =
      (if oob (schar c) then Inr (Some 10) else Inl (Invalid_argument ''Unterminated $x$ quoted string''))"
    by (simp add: span_cstyle_sql_comment_def conditional_comment_loop.simps is_start_of_unquoted_identifier_def
      schar_def span_unquoted_identifier.simps find_defs find_sub_def substr_def k_identifier_chars_def
      span_dollar_quoted_string_or_dollar_identifier_def is_dollar_quote_tag_def
      k_dollar_quoted_string_span_chars_def Let_def)
qed

theorem span_cstyle_sql_comment_out_of_bounds_witness:
  "span_cstyle_sql_comment (\<lambda>_. True) ''/*!1*/'' 0 True = span_cstyle_sql_comment (\<lambda>_. False) ''/*!1*/'' 0 True \<and>
   span_cstyle_sql_comment (\<lambda>_. True) (''/*!'' @ CHR 0xC3 # ''$x$ */'') 0 True = Inr (Some 10)"
  using span_cstyle_sql_comment_out_of_bounds [of "''/*!1*/''" "\<lambda>_. True" 0 True "\<lambda>_. False" "CHR 0xC3"] by simp

end
