(* ===== verification/Sql_String_Facts.thy ===== *)
theory Sql_String_Facts
  imports Sql_String Lexing_Facts Strings_Facts
begin

text \<open>
  What the SQL text builders of \<open>Sql_String\<close> guarantee: quoted values are read back as one literal
  by the lexer, the query formatter substitutes exactly its arguments, and the wildcard functions
  agree with \<open>LIKE\<close>.
\<close>

section \<open>Reference definitions\<close>

text \<open>\<open>visible\<close>: the characters that \<open>for (SQL_iterator it(s); it.valid(); ++it)\<close> sees.\<close>

function collect :: "SQL_iterator \<Rightarrow> string res" where
  "collect it =
     (if it_valid it then
        (case it_incr it of
           Inl e \<Rightarrow> Inl e
         | Inr it' \<Rightarrow> bind_res (collect it') (\<lambda>t. Inr (it_get_char it # t)))
      else Inr [])"
  by pat_completeness auto
termination
proof (relation "measure (\<lambda>it. length (m_s it) - the (m_offset it))", goal_cases)
  case (2 it it')
  then obtain i where "m_offset it = Some i" "i < length (m_s it)"
    by (auto simp: it_valid_def split: option.splits)
  with it_incr_progress(1,2) [OF 2(2) this(1)] show ?case by auto
qed simp

declare collect.simps [simp del]

definition visible :: "string \<Rightarrow> bool \<Rightarrow> string res" where
  "visible s dollar_quotes = bind_res (SQL_iterator_new s 0 True dollar_quotes) collect"

abbreviation it_at :: "string \<Rightarrow> bool \<Rightarrow> bool \<Rightarrow> nat \<Rightarrow> SQL_iterator" where
  "it_at s d h i \<equiv> \<lparr>m_s = s, m_offset = Some i, m_skip_quoted = True, m_dollar_quotes = d, m_comment_hint = h\<rparr>"

definition visible_from :: "string \<Rightarrow> bool \<Rightarrow> bool \<Rightarrow> nat \<Rightarrow> string res" where
  "visible_from s d h i = bind_res (skip_loop s True d h i) (\<lambda>(j, h'). collect (it_at s d h' j))"

definition plain_char :: "char \<Rightarrow> bool" where
  "plain_char c \<longleftrightarrow> c \<notin> {squote, dquote, backtick, CHR ''/'', CHR ''*'', CHR ''#'', CHR ''-'', CHR ''$''}"

text \<open>
  A query as a sequence of parts: plain text without quotes and comments, values quoted as strings
  and values quoted as identifiers. \<open>part_text\<close> is the query, \<open>part_format\<close> and \<open>part_args\<close> the
  format string and arguments it is built from, \<open>part_skeleton\<close> what is not a value.
\<close>

datatype sql_part = Plain string | Str string | Ident string

fun part_text :: "sql_part \<Rightarrow> string" where
  "part_text (Plain p) = p"
| "part_text (Str v) = quote_sql_string v"
| "part_text (Ident v) = quote_identifier v backtick"

fun part_skeleton :: "sql_part \<Rightarrow> string" where
  "part_skeleton (Plain p) = p"
| "part_skeleton _ = []"

fun parts_ok :: "sql_part list \<Rightarrow> bool" where
  "parts_ok [] = True"
| "parts_ok (Plain p # ps) = (list_all plain_char p \<and> parts_ok ps)"
| "parts_ok (Str v # ps) = parts_ok ps"
| "parts_ok (Ident v # ps) = ((case ps of [] \<Rightarrow> True | Plain (c # p) # _ \<Rightarrow> True | _ \<Rightarrow> False) \<and> parts_ok ps)"

fun part_format :: "sql_part \<Rightarrow> string" where
  "part_format (Plain p) = p"
| "part_format (Str v) = ''?''"
| "part_format (Ident v) = ''!''"

fun part_args :: "sql_part \<Rightarrow> sql_arg list" where
  "part_args (Plain p) = []"
| "part_args (Str v) = [String_arg v]"
| "part_args (Ident v) = [String_arg v]"

definition format_char :: "char \<Rightarrow> bool" where
  "format_char c \<longleftrightarrow> plain_char c \<and> c \<noteq> CHR ''?'' \<and> c \<noteq> CHR ''!''"

fun format_ok :: "sql_part \<Rightarrow> bool" where
  "format_ok (Plain p) = list_all format_char p"
| "format_ok _ = True"

text \<open>The SQL \<open>LIKE\<close> relation with the backslash as escape character.\<close>

function sql_like :: "string \<Rightarrow> string \<Rightarrow> bool" where
  "sql_like [] s = (s = [])"
| "sql_like (w # ws) s =
     (if w = CHR ''%'' then (\<exists>k \<le> length s. sql_like ws (drop k s))
      else if w = CHR ''_'' then s \<noteq> [] \<and> sql_like ws (tl s)
      else if w = backslash \<and> ws \<noteq> [] then s \<noteq> [] \<and> hd s = hd ws \<and> sql_like (tl ws) (tl s)
      else s \<noteq> [] \<and> hd s = w \<and> sql_like ws (tl s))"
  by pat_completeness auto
termination
  by (relation "measure (\<lambda>(ws, s). length ws)") auto

text \<open>No underscore in the run of wildcards that follows a percent sign.\<close>

function wild_separated :: "string \<Rightarrow> bool" where
  "wild_separated [] = True"
| "wild_separated (w # ws) =
     (if w = CHR ''%'' then
        (case dropWhile (\<lambda>c. c = CHR ''%'') ws of [] \<Rightarrow> True | c # _ \<Rightarrow> c \<noteq> CHR ''_'') \<and> wild_separated ws
      else if w = backslash \<and> ws \<noteq> [] then wild_separated (tl ws)
      else wild_separated ws)"
  by pat_completeness auto
termination
  by (relation "measure length") auto

text \<open>The offset of the first wildcard that is not escaped.\<close>

fun first_wildcard :: "string \<Rightarrow> nat option" where
  "first_wildcard [] = None"
| "first_wildcard (c # s) =
     (if c = backslash \<and> s \<noteq> [] then map_option ((+) 2) (first_wildcard (tl s))
      else if c = CHR ''%'' \<or> c = CHR ''_'' then Some 0
      else map_option Suc (first_wildcard s))"

fun str_ascending :: "string list \<Rightarrow> bool" where
  "str_ascending (x # y # ys) = (str_less x y \<and> str_ascending (y # ys))"
| "str_ascending _ = True"

section \<open>Quoting and scanning\<close>

lemma quote_identifier_doubled: "quote_identifier s q = q # doubled q s @ [q]"
  by (simp add: quote_identifier_def str_replace_ref replace_ref_char doubled_def)

lemma quoted_body_append: "quoted_body q a \<Longrightarrow> quoted_body q b \<Longrightarrow> quoted_body q (a @ b)"
  by (induction q a rule: quoted_body.induct) (auto split: list.splits if_splits)

lemma escape_sql_body: "q = squote \<or> q = dquote \<Longrightarrow> quoted_body q (escape_sql_string s w)"
proof (induction s)
  case (Cons c s)
  have "quoted_body q (case sql_escape_char w c of Some e \<Rightarrow> [backslash, e] | None \<Rightarrow> [c])"
    using Cons.prems by (auto simp: sql_escape_char_def)
  with Cons quoted_body_append show ?case by (simp add: escape_sql_string_def)
qed (simp add: escape_sql_string_def)

interpretation sq: literal quote_sql_string span_quoted_string_sq "\<lambda>_. True"
proof
  fix rest pre s
  show "span_quoted_string_sq (pre @ quote_sql_string s @ rest) (length pre) =
      Some (length pre + length (quote_sql_string s))"
    by (simp add: span_quoted_string_sq_def span_quoted_loop_qspan [OF quote_rows(1)] quote_sql_string_def
        qspan_body escape_sql_body)
qed

interpretation bt: literal "\<lambda>s. quote_identifier s backtick" span_quoted_sql_identifier_bt
  "\<lambda>rest. rest = [] \<or> hd rest \<noteq> backtick"
proof
  fix rest pre s :: string
  assume "rest = [] \<or> hd rest \<noteq> backtick"
  then show "span_quoted_sql_identifier_bt (pre @ quote_identifier s backtick @ rest) (length pre) =
      Some (length pre + length (quote_identifier s backtick))"
    by (simp add: span_quoted_sql_identifier_bt_def span_identifier_loop_ispan quote_identifier_doubled ispan_doubled)
qed

interpretation dqi: literal "\<lambda>s. quote_identifier s dquote" span_quoted_sql_identifier_dquote
  "\<lambda>rest. rest = [] \<or> hd rest \<noteq> dquote"
proof
  fix rest pre s :: string
  assume "rest = [] \<or> hd rest \<noteq> dquote"
  then show "span_quoted_sql_identifier_dquote (pre @ quote_identifier s dquote @ rest) (length pre) =
      Some (length pre + length (quote_identifier s dquote))"
    by (simp add: span_quoted_sql_identifier_dquote_def span_identifier_loop_ispan quote_identifier_doubled ispan_doubled)
qed

section \<open>Iterating over a query\<close>

lemma it_incr_at:
  "i < length s \<Longrightarrow> it_incr (it_at s d h i) = bind_res (skip_loop s True d h (Suc i)) (\<lambda>(j, h'). Inr (it_at s d h' j))"
  by (auto simp: it_incr_def it_scan_from_def bind_res_def split: sum.splits)

lemma SQL_iterator_new_0:
  "SQL_iterator_new s 0 True d = bind_res (skip_loop s True d False 0) (\<lambda>(j, h'). Inr (it_at s d h' j))"
  by (auto simp: SQL_iterator_new_def it_incr_def it_scan_from_def bind_res_def split: sum.splits)

lemma visible_visible_from: "visible s d = visible_from s d False 0"
  by (auto simp: visible_def SQL_iterator_new_0 visible_from_def bind_res_def split: sum.splits prod.splits)

lemma collect_at:
  "collect (it_at s d h i) =
     (if i < length s then bind_res (visible_from s d h (Suc i)) (\<lambda>t. Inr (s ! i # t)) else Inr [])"
  by (subst collect.simps)
    (auto simp: it_valid_def it_incr_at it_get_char_def visible_from_def bind_res_def split: sum.splits prod.splits)

lemma visible_from_end: "visible_from s d h (length s) = Inr []"
  by (simp add: visible_from_def collect_at skip_loop.simps [of s True d h "length s"])

lemma skip_round_plain: "plain_char (s ! i) \<Longrightarrow> skip_round s q d h i = Inr None"
  by (simp add: skip_round_def plain_char_def Let_def)

lemma skip_loop_plain: "i < length s \<Longrightarrow> plain_char (s ! i) \<Longrightarrow> skip_loop s q d h i = Inr (i, h)"
  by (subst skip_loop.simps) (simp add: skip_round_plain)

lemma visible_from_plain:
  "i < length s \<Longrightarrow> plain_char (s ! i) \<Longrightarrow>
     visible_from s d h i = bind_res (visible_from s d h (Suc i)) (\<lambda>t. Inr (s ! i # t))"
  by (subst visible_from_def) (simp add: skip_loop_plain collect_at)

lemma visible_from_sq:
  assumes "i < length s" "s ! i = squote" "span_quoted_string_sq s i = Some j"
  shows "visible_from s d h i = visible_from s d h j"
  unfolding visible_from_def using assms
  by (subst skip_loop.simps) (simp add: skip_round_def or_length_def)

lemma visible_from_bt:
  assumes "i < length s" "s ! i = backtick" "span_quoted_sql_identifier_bt s i = Some j"
  shows "visible_from s d h i = visible_from s d h j"
  unfolding visible_from_def using assms
  by (subst skip_loop.simps) (simp add: skip_round_def or_length_def)

lemma visible_from_plains:
  "list_all plain_char p \<Longrightarrow>
     visible_from (pre @ p @ rest) d h (length pre) =
       bind_res (visible_from (pre @ p @ rest) d h (length pre + length p)) (\<lambda>t. Inr (p @ t))"
proof (induction p arbitrary: pre)
  case Nil
  show ?case by (cases "visible_from (pre @ rest) d h (length pre)") simp_all
next
  case (Cons c p)
  have "visible_from (pre @ (c # p) @ rest) d h (length pre) =
      bind_res (visible_from (pre @ (c # p) @ rest) d h (Suc (length pre))) (\<lambda>t. Inr (c # t))"
    using Cons.prems visible_from_plain [of "length pre" "pre @ (c # p) @ rest" d h] by simp
  with Cons.IH [of "pre @ [c]"] Cons.prems show ?case
    by (simp add: bind_res_def split: sum.splits)
qed

lemma visible_from_parts:
  "parts_ok ps \<Longrightarrow>
     visible_from (pre @ concat (map part_text ps)) d h (length pre) = Inr (concat (map part_skeleton ps))"
proof (induction ps arbitrary: pre rule: parts_ok.induct)
  case 1
  show ?case using visible_from_end [of pre] by simp
next
  case (2 p ps)
  from 2(1) [of "pre @ p"] 2(2) visible_from_plains [of p pre "concat (map part_text ps)" d h]
  show ?case by simp
next
  case (3 v ps)
  let ?r = "concat (map part_text ps)"
  have "visible_from (pre @ quote_sql_string v @ ?r) d h (length pre) =
      visible_from (pre @ quote_sql_string v @ ?r) d h (length pre + length (quote_sql_string v))"
    by (rule visible_from_sq) (simp_all add: quote_sql_string_def sq.span_enc [unfolded quote_sql_string_def, simplified])
  with 3(1) [of "pre @ quote_sql_string v"] 3(2) show ?case by simp
next
  case (4 v ps)
  let ?r = "concat (map part_text ps)"
  have "?r = [] \<or> hd ?r \<noteq> backtick"
    using 4(2) by (cases ps rule: parts_ok.cases) (auto simp: plain_char_def split: list.splits)
  then have "visible_from (pre @ quote_identifier v backtick @ ?r) d h (length pre) =
      visible_from (pre @ quote_identifier v backtick @ ?r) d h (length pre + length (quote_identifier v backtick))"
    using bt.span_enc [of ?r pre v] by (intro visible_from_bt) (simp_all add: quote_identifier_doubled)
  with 4(1) [of "pre @ quote_identifier v backtick"] 4(2) show ?case by simp
qed

lemma visible_parts:
  "parts_ok ps \<Longrightarrow> visible (concat (map part_text ps)) d = Inr (concat (map part_skeleton ps))"
  using visible_from_parts [of ps "[]"] by (simp add: visible_visible_from)

section \<open>The query formatter\<close>

lemma find_placeholder_at:
  assumes "i \<le> k" "k \<le> length s" "\<forall>j. i \<le> j \<longrightarrow> j < k \<longrightarrow> format_char (s ! j)"
    "k < length s \<Longrightarrow> s ! k = CHR ''?'' \<or> s ! k = CHR ''!''"
  shows "find_placeholder (it_at s d h i) = Inr (it_at s d h k)"
  using assms
proof (induction "k - i" arbitrary: i)
  case 0
  then show ?case by (subst find_placeholder.simps) (auto simp: it_valid_def it_get_char_def)
next
  case (Suc n)
  then have i: "i < k" by simp
  have c: "format_char (s ! i)" using Suc.prems(3) i by simp
  have "skip_loop s True d h (Suc i) = Inr (Suc i, h)"
  proof (cases "Suc i < length s")
    case True
    have "plain_char (s ! Suc i)"
    proof (cases "Suc i < k")
      case True
      with Suc.prems(3) show ?thesis by (simp add: format_char_def)
    next
      case False
      with i have "Suc i = k" by simp
      with True Suc.prems(4) show ?thesis by (auto simp: plain_char_def)
    qed
    with True show ?thesis by (rule skip_loop_plain)
  next
    case False
    then show ?thesis by (subst skip_loop.simps) simp
  qed
  moreover have "find_placeholder (it_at s d h (Suc i)) = Inr (it_at s d h k)"
    using Suc by simp
  ultimately show ?case
    using c i Suc.prems(2)
    by (subst find_placeholder.simps) (simp add: it_valid_def it_get_char_def it_incr_at format_char_def)
qed

lemma skip_loop_0_format:
  assumes "list_all format_char p" "r = [] \<or> hd r = CHR ''?'' \<or> hd r = CHR ''!''"
  shows "skip_loop (p @ r) True d h 0 = Inr (0, h)"
proof (cases "p @ r")
  case Nil
  then show ?thesis by (subst skip_loop.simps) simp
next
  case (Cons c t)
  then have "plain_char c" using assms by (cases p) (auto simp: format_char_def plain_char_def)
  with Cons show ?thesis by (intro skip_loop_plain) simp_all
qed

lemma consume_format:
  assumes "list_all format_char p" "r = [] \<or> hd r = CHR ''?'' \<or> hd r = CHR ''!''"
    "format_string_left q = p @ r"
  shows "consume_until_next_escape q = Inr (p, q\<lparr>format_string_left := r\<rparr>)"
proof -
  have "find_placeholder (it_at (p @ r) True False 0) = Inr (it_at (p @ r) True False (length p))"
  proof (rule find_placeholder_at)
    show "\<forall>j. 0 \<le> j \<longrightarrow> j < length p \<longrightarrow> format_char ((p @ r) ! j)"
      using assms(1) by (simp add: nth_append list_all_length)
    show "length p < length (p @ r) \<Longrightarrow> (p @ r) ! length p = CHR ''?'' \<or> (p @ r) ! length p = CHR ''!''"
      using assms(2) by (cases r) (auto simp: nth_append)
  qed simp_all
  moreover have "SQL_iterator_new (p @ r) 0 True True = Inr (it_at (p @ r) True False 0)"
    using skip_loop_0_format [OF assms(1,2)] by (simp add: SQL_iterator_new_0)
  ultimately have c: "consume_until_next_escape q =
      (if 0 < length p then Inr (p, q\<lparr>format_string_left := if r \<noteq> [] then r else []\<rparr>) else Inr ([], q))"
    using assms(3) by (simp add: consume_until_next_escape_def substr_def)
  show ?thesis
  proof (cases "p = []")
    case True
    with assms(3) have "q = q\<lparr>format_string_left := r\<rparr>" by simp
    with True c show ?thesis by simp
  next
    case False
    with c show ?thesis by (cases r) simp_all
  qed
qed

lemma append_and_consume_format:
  assumes "list_all format_char p" "r = [] \<or> hd r = CHR ''?'' \<or> hd r = CHR ''!''"
    "format_string_left q = p @ r"
  shows "append_and_consume t q = Inr (q\<lparr>formatted := formatted q @ t @ p, format_string_left := r\<rparr>)"
proof -
  have "format_string_left (append_formatted t q) = p @ r" using assms(3) by (simp add: append_formatted_def)
  from consume_format [OF assms(1,2) this] show ?thesis
    by (simp add: append_and_consume_def append_formatted_def)
qed

lemma append_put_args:
  assumes "list_all format_char p" "list_all format_ok ps"
    "format_string_left q = p @ concat (map part_format ps)" "\<not> quote_only_if_needed q"
  shows "bind_res (append_and_consume t q) (put_args (concat (map part_args ps))) =
      Inr (q\<lparr>formatted := formatted q @ t @ p @ concat (map part_text ps), format_string_left := []\<rparr>)"
  using assms
proof (induction ps arbitrary: p q t)
  case Nil
  then show ?case using append_and_consume_format [of p "[]" q t] by simp
next
  case (Cons x ps)
  show ?case
  proof (cases x)
    case (Plain p')
    with Cons.IH [of "p @ p'"] Cons.prems show ?thesis by simp
  next
    case (Str v)
    with Cons.prems append_and_consume_format [of p "CHR ''?'' # concat (map part_format ps)" q t]
    have "append_and_consume t q = Inr (q\<lparr>formatted := formatted q @ t @ p,
        format_string_left := CHR ''?'' # concat (map part_format ps)\<rparr>)" by simp
    moreover note Cons.IH [of "[]" "q\<lparr>formatted := formatted q @ t @ p, format_string_left := concat (map part_format ps)\<rparr>"
        "quote_sql_string v"]
    ultimately show ?thesis using Str Cons.prems
      by (simp add: put_string_def next_escape_def quote_sql_string_def)
  next
    case (Ident v)
    with Cons.prems append_and_consume_format [of p "CHR ''!'' # concat (map part_format ps)" q t]
    have "append_and_consume t q = Inr (q\<lparr>formatted := formatted q @ t @ p,
        format_string_left := CHR ''!'' # concat (map part_format ps)\<rparr>)" by simp
    moreover note Cons.IH [of "[]" "q\<lparr>formatted := formatted q @ t @ p, format_string_left := concat (map part_format ps)\<rparr>"
        "quote_identifier v backtick"]
    ultimately show ?thesis using Ident Cons.prems
      by (simp add: put_string_def next_escape_def quote_for_format_def)
  qed
qed

lemma sqlformat_parts:
  assumes "list_all format_ok ps"
  shows "sqlformat (concat (map part_format ps)) (concat (map part_args ps)) = Inr (concat (map part_text ps))"
proof -
  define q where "q = \<lparr>formatted = [], format_string_left = concat (map part_format ps), quote_only_if_needed = False\<rparr>"
  have "bind_res (append_and_consume [] q) (put_args (concat (map part_args ps))) =
      Inr (q\<lparr>formatted := concat (map part_text ps), format_string_left := []\<rparr>)"
    using append_put_args [of "[]" ps q "[]"] assms by (simp add: q_def)
  then show ?thesis
    unfolding sqlformat_def sqlstring_new_def q_def
    by (auto simp: bind_res_def sqlstring_done_def sqlstring_str_def split: sum.splits)
qed

section \<open>Reserved words\<close>

lemma str_less_trans: "str_less a b \<Longrightarrow> str_less b c \<Longrightarrow> str_less a c"
proof (induction a b arbitrary: c rule: str_less.induct)
  case (2 y ys)
  then show ?case by (cases c) auto
next
  case (4 x xs y ys)
  then show ?case by (cases c) auto
qed auto

lemma str_less_irrefl [simp]: "\<not> str_less a a"
  by (induction a) auto

lemma str_less_asym: "str_less a b \<Longrightarrow> \<not> str_less b a"
  using str_less_trans [of a b a] by auto

lemma str_less_total: "a = b \<or> str_less a b \<or> str_less b a"
proof (induction a b rule: str_less.induct)
  case (4 x xs y ys)
  then show ?case using code_inject [of x y] by (auto simp del: code_inject)
qed auto

lemma lower_bound_loop_partition:
  assumes "first \<le> k" "k \<le> first + len" "\<forall>i. first \<le> i \<and> i < k \<longrightarrow> below (xs ! i)"
    "\<forall>i. k \<le> i \<and> i < first + len \<longrightarrow> \<not> below (xs ! i)"
  shows "lower_bound_loop below xs first len = k"
  using assms
proof (induction below xs first len rule: lower_bound_loop.induct)
  case (1 below xs first len)
  note loop = lower_bound_loop.simps [of below xs first len]
  show ?case
  proof (cases "0 < len")
    case True
    let ?h = "len div 2"
    have h: "?h < len" using True by simp
    show ?thesis
    proof (cases "below (xs ! (first + ?h))")
      case b: True
      then have "\<not> k \<le> first + ?h" using "1.prems"(4) h by auto
      with "1.IH"(1) [OF True refl b] "1.prems" True b show ?thesis by (auto simp: loop Let_def)
    next
      case b: False
      then have k: "k \<le> first + ?h" using "1.prems"(3) by (meson le_add1 not_le)
      have "\<not> below (xs ! i)" if "k \<le> i" "i < first + ?h" for i
        using "1.prems"(4) that h by auto
      with "1.IH"(2) [OF True refl b] "1.prems" True b k show ?thesis by (auto simp: loop Let_def)
    qed
  next
    case False
    with "1.prems" show ?thesis by (subst loop) simp
  qed
qed

lemma lower_bound_append:
  assumes "\<forall>x \<in> set l. str_less x v" "\<forall>x \<in> set r. \<not> str_less x v"
  shows "lower_bound (l @ r) v = length l"
  unfolding lower_bound_def using assms
  by (intro lower_bound_loop_partition) (auto simp: nth_append)

lemma lower_bound_found:
  assumes "lower_bound xs v \<noteq> length xs" "v = xs ! lower_bound xs v" "lower_bound xs v \<le> length xs"
  shows "v \<in> set xs"
  using assms by (metis le_neq_implies_less nth_mem)

lemma lower_bound_loop_le: "lower_bound_loop below xs first len \<le> first + len"
proof (induction below xs first len rule: lower_bound_loop.induct)
  case (1 below xs first len)
  note loop = lower_bound_loop.simps [of below xs first len]
  show ?case
  proof (cases "0 < len")
    case True
    with "1.IH" [OF True refl] show ?thesis by (auto simp: loop Let_def)
  next
    case False
    then show ?thesis by (subst loop) simp
  qed
qed

lemma reserved_nth: "reserved_keywords ! 113 = ''INTERVAL''" "reserved_keywords ! 114 = ''INTERSECT''"
  "length reserved_keywords = 271"
  by (simp_all add: reserved_keywords_def)

lemma str_ascending_sorted: "str_ascending xs \<Longrightarrow> sorted_wrt str_less xs"
proof (induction xs rule: str_ascending.induct)
  case (1 x y ys)
  then show ?case by (auto intro: str_less_trans)
qed simp_all

lemma reserved_ascending:
  "str_ascending (take 113 reserved_keywords @ [''INTERSECT'', ''INTERVAL''] @ drop 115 reserved_keywords)"
  by (simp add: reserved_keywords_def)

lemma reserved_split:
  "reserved_keywords = take 113 reserved_keywords @ [''INTERVAL'', ''INTERSECT''] @ drop 115 reserved_keywords"
proof -
  have "reserved_keywords = take 113 reserved_keywords @ reserved_keywords ! 113 # reserved_keywords ! 114 # drop 115 reserved_keywords"
    using id_take_nth_drop [of 113 reserved_keywords] Cons_nth_drop_Suc [of 114 reserved_keywords]
    by (simp add: reserved_nth(3))
  then show ?thesis by (simp add: reserved_nth(1,2))
qed

lemma reserved_found:
  assumes v: "v \<in> set reserved_keywords" "v \<noteq> ''INTERVAL''" "v \<noteq> ''INTERSECT''"
  shows "lower_bound reserved_keywords v < length reserved_keywords"
    "reserved_keywords ! lower_bound reserved_keywords v = v"
proof -
  let ?a = "take 113 reserved_keywords" and ?b = "drop 115 reserved_keywords"
  have s: "sorted_wrt str_less (?a @ [''INTERSECT'', ''INTERVAL''] @ ?b)"
    by (rule str_ascending_sorted [OF reserved_ascending])
  obtain l r where split: "reserved_keywords = l @ v # r" "\<forall>x \<in> set l. str_less x v" "\<forall>x \<in> set r. str_less v x"
  proof (cases "v \<in> set ?a")
    case True
    then obtain a1 a2 where "?a = a1 @ v # a2" by (auto simp: in_set_conv_decomp)
    with s reserved_split show ?thesis
      by (intro that [of a1 "a2 @ [''INTERVAL'', ''INTERSECT''] @ ?b"]) (auto simp: sorted_wrt_append)
  next
    case False
    from v have "v \<in> set (?a @ [''INTERVAL'', ''INTERSECT''] @ ?b)" by (subst reserved_split [symmetric])
    with False v have "v \<in> set ?b" by auto
    then obtain b1 b2 where "?b = b1 @ v # b2" by (auto simp: in_set_conv_decomp)
    with s reserved_split show ?thesis
      by (intro that [of "?a @ [''INTERVAL'', ''INTERSECT''] @ b1" b2]) (auto simp: sorted_wrt_append)
  qed
  have "lower_bound (l @ v # r) v = length l"
    using split(2,3) by (intro lower_bound_append) (auto dest: str_less_asym)
  then show "lower_bound reserved_keywords v < length reserved_keywords"
    "reserved_keywords ! lower_bound reserved_keywords v = v" unfolding split(1) by simp_all
qed

lemma lower_bound_INTER:
  "lower_bound reserved_keywords ''INTERVAL'' = 115" "lower_bound reserved_keywords ''INTERSECT'' = 113"
  unfolding lower_bound_def reserved_nth(3)
  by (simp_all add: lower_bound_loop.simps reserved_keywords_def)


lemma is_reserved_word_iff:
  "is_reserved_word w \<longleftrightarrow> str_upper w \<in> set reserved_keywords - {''INTERVAL'', ''INTERSECT''}"
proof -
  have nth: "reserved_keywords ! 115 = ''INTO''" by (simp add: reserved_keywords_def)
  have le: "lower_bound reserved_keywords v \<le> length reserved_keywords" for v
    using lower_bound_loop_le [of _ reserved_keywords 0 "length reserved_keywords"] by (simp add: lower_bound_def)
  show ?thesis
    using reserved_found [of "str_upper w"] lower_bound_found [OF _ _ le, of "str_upper w"]
      lower_bound_INTER nth reserved_nth
    by (auto simp: is_reserved_word_def Let_def)
qed

section \<open>Wildcards\<close>

lemma wild_run_separated:
  "wild_separated (CHR ''%'' # ws) \<Longrightarrow> wild_run s ws = Some (dropWhile (\<lambda>c. c = CHR ''%'') ws)"
proof (induction ws)
  case (Cons w ws)
  show ?case
  proof (cases "w = CHR ''%''")
    case True
    with Cons show ?thesis by simp
  next
    case False
    with Cons.prems show ?thesis by auto
  qed
qed simp

lemma wild_separated_drop:
  "wild_separated ws \<Longrightarrow> wild_separated (dropWhile (\<lambda>c. c = CHR ''%'') ws)"
  by (induction ws) (auto split: if_splits)

lemma sql_like_many_many: "sql_like (CHR ''%'' # CHR ''%'' # ws) s = sql_like (CHR ''%'' # ws) s"
proof
  assume "sql_like (CHR ''%'' # CHR ''%'' # ws) s"
  then obtain k j where "k \<le> length s" "j \<le> length s - k" "sql_like ws (drop (j + k) s)" by auto
  then show "sql_like (CHR ''%'' # ws) s" by (auto intro: exI [of _ "j + k"])
next
  assume "sql_like (CHR ''%'' # ws) s"
  then obtain k where "k \<le> length s" "sql_like ws (drop k s)" by auto
  then show "sql_like (CHR ''%'' # CHR ''%'' # ws) s"
    by simp (rule exI [of _ 0], simp, rule exI [of _ k], simp)
qed

lemma sql_like_run:
  "sql_like (CHR ''%'' # ws) s \<longleftrightarrow> (\<exists>k \<le> length s. sql_like (dropWhile (\<lambda>c. c = CHR ''%'') ws) (drop k s))"
proof (induction ws)
  case (Cons w ws)
  show ?case
  proof (cases "w = CHR ''%''")
    case True
    with Cons sql_like_many_many [of ws s] show ?thesis by (simp del: sql_like.simps)
  qed simp
qed simp

lemma suffixes_from_set:
  "t \<in> set (suffixes_from c s) \<longleftrightarrow> (\<exists>k. k < length s \<and> s ! k = c \<and> t = drop k s)"
proof (induction s)
  case (Cons x xs)
  have "(\<exists>k. k < length (x # xs) \<and> (x # xs) ! k = c \<and> t = drop k (x # xs)) \<longleftrightarrow>
      (x = c \<and> t = x # xs) \<or> (\<exists>k. k < length xs \<and> xs ! k = c \<and> t = drop k xs)" (is "?l = ?r")
  proof
    assume ?l
    then obtain k where "k < length (x # xs)" "(x # xs) ! k = c" "t = drop k (x # xs)" by blast
    then show ?r by (cases k) auto
  next
    assume ?r
    then show ?l by (elim disjE exE conjE) (auto intro: exI [of _ 0] exI [of _ "Suc _"])
  qed
  with Cons show ?case by auto
qed simp

lemma sql_like_cmp:
  "sql_like ws s \<Longrightarrow> ws \<noteq> [] \<Longrightarrow> hd ws \<noteq> CHR ''%'' \<Longrightarrow> hd ws \<noteq> CHR ''_'' \<Longrightarrow> s \<noteq> [] \<and> hd s = wild_cmp ws"
  by (cases ws) (auto simp: wild_cmp_def split: if_splits)

lemma dropWhile_hd: "dropWhile P xs = y # ys \<Longrightarrow> \<not> P y"
  by (metis hd_dropWhile list.discI list.sel(1))

lemma wild_compare_like: "wild_separated ws \<Longrightarrow> wild_compare_full s ws = 0 \<longleftrightarrow> sql_like ws s"
proof (induction s ws rule: wild_compare_full.induct)
  case (2 s w ws)
  show ?case
  proof (cases "w = CHR ''%''")
    case False
    consider (one) "w = CHR ''_''" | (esc) "w \<noteq> CHR ''_''" "w = backslash" "ws \<noteq> []"
      | (char) "w \<noteq> CHR ''_''" "\<not> (w = backslash \<and> ws \<noteq> [])" by blast
    then show ?thesis
    proof cases
      case one
      with "2.IH"(3) "2.prems" show ?thesis by (cases "s = []") simp_all
    next
      case esc
      with "2.IH"(1) "2.prems" False show ?thesis by (cases "s = [] \<or> hd ws \<noteq> hd s") auto
    next
      case char
      with "2.IH"(2) "2.prems" False show ?thesis by (cases "s = [] \<or> w \<noteq> hd s") auto
    qed
  next
    case True
    let ?r = "dropWhile (\<lambda>c. c = CHR ''%'') ws"
    from "2.prems" True have run: "wild_run s ws = Some ?r" by (simp add: wild_run_separated del: wild_separated.simps)
    have like: "sql_like (w # ws) s \<longleftrightarrow> (\<exists>k \<le> length s. sql_like ?r (drop k s))"
      unfolding True by (rule sql_like_run)
    show ?thesis
    proof (cases ?r)
      case Nil
      have "sql_like (w # ws) s" unfolding like Nil by (intro exI [of _ "length s"]) simp
      moreover have "wild_compare_full s (w # ws) = 0" using True run Nil by simp
      ultimately show ?thesis by blast
    next
      case (Cons c cs)
      have c: "c \<noteq> CHR ''%''" "c \<noteq> CHR ''_''"
        using dropWhile_hd [OF Cons] "2.prems" True Cons by auto
      have sep: "wild_separated ?r" using "2.prems" True by (intro wild_separated_drop) (simp split: if_splits)
      have IH: "wild_compare_full t ?r = 0 \<longleftrightarrow> sql_like ?r t" if "t \<in> set (suffixes_from (wild_cmp ?r) s)" for t
        using "2.IH"(4) [OF _ _ run _ that sep] True Cons by simp
      have cand: "k < length s \<and> s ! k = wild_cmp ?r" if "k \<le> length s" "sql_like ?r (drop k s)" for k
        using sql_like_cmp [OF that(2)] Cons c that(1) by (auto simp: hd_drop_conv_nth)
      have "(\<exists>k \<le> length s. sql_like ?r (drop k s)) \<longleftrightarrow>
          (\<exists>t \<in> set (suffixes_from (wild_cmp ?r) s). wild_compare_full t ?r = 0)"
      proof
        assume "\<exists>k \<le> length s. sql_like ?r (drop k s)"
        then obtain k where k: "k \<le> length s" "sql_like ?r (drop k s)" by blast
        with cand [OF k] have "drop k s \<in> set (suffixes_from (wild_cmp ?r) s)"
          unfolding suffixes_from_set by blast
        with IH k show "\<exists>t \<in> set (suffixes_from (wild_cmp ?r) s). wild_compare_full t ?r = 0" by blast
      next
        assume "\<exists>t \<in> set (suffixes_from (wild_cmp ?r) s). wild_compare_full t ?r = 0"
        then obtain t where "t \<in> set (suffixes_from (wild_cmp ?r) s)" "sql_like ?r t" using IH by blast
        then show "\<exists>k \<le> length s. sql_like ?r (drop k s)"
          unfolding suffixes_from_set by (auto intro: less_imp_le)
      qed
      moreover have "wild_compare_full s (w # ws) = 0 \<longleftrightarrow>
          (\<exists>t \<in> set (suffixes_from (wild_cmp ?r) s). wild_compare_full t ?r = 0)"
        using True run Cons by (simp add: list_ex_iff)
      ultimately show ?thesis unfolding like by (simp only:)
    qed
  qed
qed simp

lemma get_sort_loop_value:
  "0 < pos \<Longrightarrow> get_sort_loop pos 128 s = (case first_wildcard s of None \<Rightarrow> 128 | Some k \<Rightarrow> min (pos + k + 2) 127)"
proof (induction pos "128 :: nat" s rule: get_sort_loop.induct)
  case (2 pos c s)
  then show ?case by (auto simp: Let_def split: option.splits)
qed simp

lemma get_sort_value:
  assumes "nul \<notin> set s"
  shows "get_sort s =
    (if s = [] then 0 else if s = ''%'' then 1
     else case first_wildcard s of None \<Rightarrow> 128 | Some k \<Rightarrow> min (k + 2) 127)"
proof -
  have "takeWhile (\<lambda>c. c \<noteq> nul) s = s" using assms by (simp add: takeWhile_eq_all_conv) metis
  then show ?thesis
    by (cases s) (auto simp: get_sort_def get_sort_loop_value Let_def split: option.splits)
qed

lemma escape_wildcards_Cons:
  "escape_wildcards (c # s) = (if c = CHR ''%'' \<or> c = CHR ''_'' then [backslash, c] else [c]) @ escape_wildcards s"
  by (simp add: escape_wildcards_def)

lemma unescape_escape_wildcards:
  "backslash \<notin> set s \<Longrightarrow> unescape_sql_wildcards (escape_wildcards s) = s"
  by (induction s) (auto simp: escape_wildcards_Cons, simp_all add: escape_wildcards_def)

lemma escaped_no_wildcard: "backslash \<notin> set s \<Longrightarrow> \<not> has_unescaped_sql_wildcard (escape_wildcards s)"
  by (induction s) (auto simp: escape_wildcards_Cons, simp_all add: escape_wildcards_def)

lemma wild_separated_escape: "backslash \<notin> set s \<Longrightarrow> wild_separated (escape_wildcards s)"
  by (induction s) (auto simp: escape_wildcards_Cons, simp_all add: escape_wildcards_def)

lemma sql_like_escape: "backslash \<notin> set s \<Longrightarrow> sql_like (escape_wildcards s) t \<longleftrightarrow> t = s"
proof (induction s arbitrary: t)
  case (Cons c s)
  then show ?case by (cases t) (auto simp: escape_wildcards_Cons)
qed (simp add: escape_wildcards_def)

lemma match_escape_wildcards: "backslash \<notin> set s \<Longrightarrow> match_sql_wild t (escape_wildcards s) \<longleftrightarrow> t = s"
  by (simp add: match_sql_wild_def wild_compare_like wild_separated_escape sql_like_escape)

section \<open>Properties\<close>

text \<open>
  C11. Scanning a query built from plain text and quoted values, the SQL iterator sees exactly the
  plain text: no value, whatever quotes, backslashes or comment marks it holds, leaks out of its
  literal or hides anything after it.
\<close>

theorem quoted_values_invisible:
  "parts_ok ps \<Longrightarrow> visible (concat (map part_text ps)) dollar_quotes = Inr (concat (map part_skeleton ps))"
  by (rule visible_parts)

theorem quoted_values_invisible_witness:
  "visible (''a='' @ quote_sql_string (squote # '' -- '') @ '' b='' @ quote_identifier ''x'' backtick) True = Inr ''a= b=''"
  using quoted_values_invisible [of "[Plain ''a='', Str (squote # '' -- ''), Plain '' b='', Ident ''x'']" True]
  by (simp add: plain_char_def)

text \<open>
  C12. \<open>sqlformat\<close> replaces each \<^verbatim>\<open>?\<close> by the quoted string and each \<^verbatim>\<open>!\<close> by the quoted identifier
  given for it, in order, copies the text between them, and succeeds; placeholders inside a value
  are never expanded.
\<close>

theorem sqlformat_substitutes:
  "list_all format_ok ps \<Longrightarrow>
     sqlformat (concat (map part_format ps)) (concat (map part_args ps)) = Inr (concat (map part_text ps))"
  by (rule sqlformat_parts)

theorem sqlformat_substitutes_witness:
  "sqlformat ''SELECT ? FROM !'' [String_arg ''?'', String_arg ''t''] =
     Inr (''SELECT '' @ quote_sql_string ''?'' @ '' FROM '' @ quote_identifier ''t'' backtick)"
  using sqlformat_substitutes [of "[Plain ''SELECT '', Str ''?'', Plain '' FROM '', Ident ''t'']"]
  by (simp add: format_char_def plain_char_def)

text \<open>
  C16. \<open>is_reserved_word\<close> recognises every word of the table but two: \<^verbatim>\<open>INTERVAL\<close> and \<^verbatim>\<open>INTERSECT\<close> stand
  in the wrong order, and the binary search misses both.
\<close>

theorem is_reserved_word_table:
  "is_reserved_word w \<longleftrightarrow> str_upper w \<in> set reserved_keywords - {''INTERVAL'', ''INTERSECT''}"
  by (rule is_reserved_word_iff)

text \<open>
  C15. \<open>match_sql_wild\<close> is the SQL \<open>LIKE\<close> relation for every pattern in which no \<^verbatim>\<open>_\<close> stands in the run of
  wildcards after a \<^verbatim>\<open>%\<close>.
\<close>

theorem match_sql_wild_like:
  "wild_separated pattern \<Longrightarrow> match_sql_wild str pattern \<longleftrightarrow> sql_like pattern str"
  by (simp add: match_sql_wild_def wild_compare_like)

theorem match_sql_wild_like_witness:
  "match_sql_wild ''abc'' ''a%c'' \<longleftrightarrow> sql_like ''a%c'' ''abc''"
  by (rule match_sql_wild_like) simp

text \<open>A run of wildcards behind a percent sign, for the code and for \<open>LIKE\<close>.\<close>

lemma wild_run_append:
  assumes "set w \<subseteq> {CHR ''%'', CHR ''_''}"
  shows "wild_run str (w @ q) = (if str = [] \<and> CHR ''_'' \<in> set w then None else wild_run str q)"
  using assms by (induction w) auto

lemma sql_like_one: "sql_like (CHR ''_'' # ws) s \<longleftrightarrow> s \<noteq> [] \<and> sql_like ws (tl s)"
  by simp

lemma sql_like_many: "sql_like (CHR ''%'' # ws) s \<longleftrightarrow> (\<exists>k \<le> length s. sql_like ws (drop k s))"
  by simp

lemma ex_Suc_le: "(\<exists>k. Suc c \<le> k \<and> P k) \<longleftrightarrow> (\<exists>k. c \<le> k \<and> P (Suc k))"
  by (metis Suc_le_D Suc_le_mono)

lemma sql_like_run_append:
  assumes "set w \<subseteq> {CHR ''%'', CHR ''_''}"
  shows "sql_like (CHR ''%'' # w @ q) s \<longleftrightarrow> (\<exists>k. count_list w CHR ''_'' \<le> k \<and> k \<le> length s \<and> sql_like q (drop k s))"
  using assms
proof (induction w arbitrary: s)
  case Nil
  then show ?case
    by (simp add: sql_like_many)
next
  case (Cons c w)
  then have IH: "sql_like (CHR ''%'' # w @ q) s \<longleftrightarrow> (\<exists>k. count_list w CHR ''_'' \<le> k \<and> k \<le> length s \<and> sql_like q (drop k s))" for s
    by simp
  show ?case
  proof (cases "c = CHR ''%''")
    case True
    then show ?thesis
      using IH [of s] sql_like_many_many [of "w @ q" s] by (simp del: sql_like.simps)
  next
    case False
    then have c: "c = CHR ''_''"
      using Cons.prems by simp
    have swap: "sql_like (CHR ''%'' # CHR ''_'' # ws) s \<longleftrightarrow> s \<noteq> [] \<and> sql_like (CHR ''%'' # ws) (tl s)" for ws
    proof (cases s)
      case Nil
      then show ?thesis
        by simp
    next
      case (Cons x xs)
      have "k \<le> length s \<and> drop k s \<noteq> [] \<longleftrightarrow> k \<le> length xs" "tl (drop k s) = drop k xs" for k
        using Cons by (auto simp: tl_drop not_le)
      then have "(\<exists>k \<le> length s. drop k s \<noteq> [] \<and> sql_like ws (tl (drop k s))) \<longleftrightarrow> (\<exists>k \<le> length xs. sql_like ws (drop k xs))"
        by metis
      then show ?thesis
        using Cons by (simp only: sql_like_many sql_like_one) simp
    qed
    have "(\<exists>k. count_list w CHR ''_'' \<le> k \<and> k \<le> length s - 1 \<and> sql_like q (drop k (tl s))) \<and> s \<noteq> [] \<longleftrightarrow>
        (\<exists>k. Suc (count_list w CHR ''_'') \<le> k \<and> k \<le> length s \<and> sql_like q (drop k s))"
      unfolding ex_Suc_le by (cases s) (auto simp del: sql_like.simps)
    then show ?thesis
      using swap [of "w @ q"] IH [of "tl s"] c by (auto simp del: sql_like.simps)
  qed
qed

text \<open>
  C39. In \<open>match_sql_wild\<close> the underscores \<open>w\<close> behind a percent sign take no character: for every text but the empty one the pattern
  \<^verbatim>\<open>%wq\<close> matches what \<^verbatim>\<open>%q\<close> matches. \<open>LIKE\<close> wants a character for each of them; so \<^verbatim>\<open>%_a\<close> matches \<^verbatim>\<open>a\<close> for the former only.
\<close>

theorem match_sql_wild_one_after_many:
  assumes "set w \<subseteq> {CHR ''%'', CHR ''_''}"
  shows "(match_sql_wild str (CHR ''%'' # w @ q) \<longleftrightarrow> (str = [] \<longrightarrow> CHR ''_'' \<notin> set w) \<and> match_sql_wild str (CHR ''%'' # q)) \<and>
    (sql_like (CHR ''%'' # w @ q) str \<longleftrightarrow> (\<exists>k. count_list w CHR ''_'' \<le> k \<and> k \<le> length str \<and> sql_like q (drop k str)))"
  using sql_like_run_append [OF assms] by (simp add: match_sql_wild_def wild_run_append [OF assms] del: sql_like.simps)

theorem match_sql_wild_one_after_many_witness:
  "match_sql_wild ''a'' (CHR ''%'' # ''_'' @ ''a'') \<and> \<not> sql_like (CHR ''%'' # ''_'' @ ''a'') ''a''"
proof -
  have "match_sql_wild ''a'' (CHR ''%'' # ''a'')" by (simp add: match_sql_wild_def wild_cmp_def)
  moreover have "\<not> (\<exists>k. count_list ''_'' CHR ''_'' \<le> k \<and> k \<le> length ''a'' \<and> sql_like ''a'' (drop k ''a''))" by auto
  ultimately show ?thesis using match_sql_wild_one_after_many [of "''_''" "''a''" "''a''"] by simp
qed

text \<open>
  A text without backslash, escaped by \<open>escape_wildcards\<close>, has no active wildcard, matches itself
  and nothing else, and is recovered by \<open>unescape_sql_wildcards\<close>.
\<close>

lemma escape_wildcards_literal:
  "backslash \<notin> set s \<Longrightarrow>
     unescape_sql_wildcards (escape_wildcards s) = s \<and>
     \<not> has_unescaped_sql_wildcard (escape_wildcards s) \<and>
     (\<forall>t. match_sql_wild t (escape_wildcards s) \<longleftrightarrow> t = s)"
  by (simp add: unescape_escape_wildcards escaped_no_wildcard match_escape_wildcards)

text \<open>
  \<open>SQL_wild_compare\<close> orders privilege patterns by \<open>get_sort\<close>, descending: patterns without
  wildcard first, then by the offset of the first wildcard (all offsets from 125 on are equal),
  then the single \<^verbatim>\<open>%\<close>, then the empty pattern.
\<close>

lemma SQL_wild_compare_groups:
  assumes "nul \<notin> set a" "nul \<notin> set b"
  shows "SQL_wild_compare a b \<longleftrightarrow>
    (let rank = \<lambda>s. if s = [] then 0 else if s = ''%'' then 1
                     else case first_wildcard s of None \<Rightarrow> 128 | Some k \<Rightarrow> min (k + 2) 127
     in rank b < rank a)"
  using assms by (simp add: SQL_wild_compare_def get_sort_value)

end
