(* ===== verification/Object_Names_Facts.thy ===== *)
theory Object_Names_Facts
  imports Object_Names Sql_String_Facts
begin

text \<open>
  Round trips of account names, qualified object names, identifiers and string literals through the
  functions of \<open>Object_Names\<close> and \<open>Sql_String\<close>.
\<close>

section \<open>Reference definitions\<close>

text \<open>\<open>unquote_sql_string\<close> by recursion on the text after the opening quote.\<close>

fun unquote_ref :: "string \<Rightarrow> string \<Rightarrow> string res" where
  "unquote_ref [] out = Inl not_properly_quoted"
| "unquote_ref (c # t) out =
     (if c = backslash then
        (case t of [] \<Rightarrow> Inl not_properly_quoted
         | d # u \<Rightarrow> if d = nul then Inl not_properly_quoted else unquote_ref u (out @ [sql_unescape d]))
      else if c = squote then
        (case t of [] \<Rightarrow> Inr out
         | d # u \<Rightarrow> if d = squote then unquote_ref u (out @ [squote]) else Inl not_properly_quoted)
      else unquote_ref t (out @ [c]))"

section \<open>Accounts and qualified names\<close>

lemma make_account_text: "make_account u h = Inr (quote_sql_string u @ CHR ''@'' # quote_sql_string h)"
proof -
  define q where "q = \<lparr>formatted = [], format_string_left = ''?@?'', quote_only_if_needed = False\<rparr>"
  have "bind_res (append_and_consume [] q) (put_args [String_arg u, String_arg h]) =
      Inr (q\<lparr>formatted := quote_sql_string u @ ''@'' @ quote_sql_string h, format_string_left := []\<rparr>)"
    using append_put_args [of "[]" "[Str u, Plain ''@'', Str h]" q "[]"]
    by (simp add: q_def format_char_def plain_char_def)
  then show ?thesis
    unfolding make_account_def sqlstring_new_def q_def
    by (auto simp: bind_res_def sqlstring_done_def sqlstring_str_def split: sum.splits)
qed

lemma escape_sql_string_Cons:
  "escape_sql_string (c # s) w =
     (case sql_escape_char w c of Some e \<Rightarrow> [backslash, e] | None \<Rightarrow> [c]) @ escape_sql_string s w"
  by (simp add: escape_sql_string_def)

lemma literal_loop_escaped:
  "sql_escape_char False c = Some e \<Longrightarrow>
     literal_loop squote (backslash # e # t) p nul out = literal_loop squote t (p + 2) nul (out @ [c])"
  by (auto simp: sql_escape_char_def literal_char_def literal_escape_def split: if_splits)

lemma literal_loop_plain:
  "sql_escape_char False c = None \<Longrightarrow>
     literal_loop squote (c # t) p nul out = literal_loop squote t (p + 1) nul (out @ [c])"
  by (auto simp: sql_escape_char_def literal_char_def split: if_splits)

lemma literal_loop_escape:
  assumes "rest = [] \<or> hd rest \<noteq> squote"
  shows "literal_loop squote (escape_sql_string s False @ squote # rest) p nul out =
      Inr (p + length (escape_sql_string s False) + 1, out @ s)"
proof (induction s arbitrary: p out)
  case Nil
  show ?case using assms by (cases rest) (auto simp: escape_sql_string_def literal_char_def)
next
  case (Cons c s)
  show ?case
  proof (cases "sql_escape_char False c")
    case None
    with Cons show ?thesis by (simp add: escape_sql_string_Cons literal_loop_plain del: literal_loop.simps)
  next
    case (Some e)
    with Cons show ?thesis by (simp add: escape_sql_string_Cons literal_loop_escaped del: literal_loop.simps)
  qed
qed

lemma span_literal_quote:
  assumes "rest = [] \<or> hd rest \<noteq> squote"
  shows "span_quotable_string_literal (pre @ quote_sql_string s @ rest) (length pre) b =
      Inr (length pre + length (quote_sql_string s), s)"
  using literal_loop_escape [OF assms, of s "length pre + 1" "[]"]
  by (simp add: span_quotable_string_literal_def quote_sql_string_def)

lemma at_escape: "CHR ''@'' \<in> set (escape_sql_string s w) \<longleftrightarrow> CHR ''@'' \<in> set s"
  by (induction s) (auto simp: escape_sql_string_def sql_escape_char_def split: option.splits if_splits)

lemma find_char_None_iff: "find_char s c p = None \<longleftrightarrow> c \<notin> set (drop p s)"
  by (auto simp: find_defs index_of_None_iff)

lemma split_account_quoted:
  assumes "CHR ''@'' \<notin> set h"
  shows "split_account (quote_sql_string u @ CHR ''@'' # quote_sql_string h) mode = Inr (u, h)"
proof -
  let ?qu = "quote_sql_string u" and ?qh = "quote_sql_string h"
  let ?a = "?qu @ CHR ''@'' # ?qh"
  have hd: "?qu = squote # escape_sql_string u False @ [squote]" "?qh = squote # escape_sql_string h False @ [squote]"
    by (simp_all add: quote_sql_string_def)
  have u: "split_account_user ?a mode = Inr (Some (length ?qu), u)"
    using span_literal_quote [of "CHR ''@'' # ?qh" "[]" u False] hd by (simp add: split_account_user_def)
  have at: "find_char ?a (CHR ''@'') (length ?qu + 1) = None"
    using assms hd by (simp add: find_char_None_iff at_escape)
  have nth: "?a ! Suc (length ?qu) = squote" "?a ! (length ?a - 1) = squote"
    using hd by (simp_all add: nth_append)
  have "span_quotable_string_literal ?a (length ?qu + 1) True = Inr (length ?a, h)"
    using span_literal_quote [of "[]" "?qu @ ''@''" h True] by simp
  with at nth have h: "span_account_hostname_relaxed ?a (length ?qu + 1) b = Inr (length ?a, h)" for b
    by (simp add: span_account_hostname_relaxed_def Let_def hd(2))
  have "?qh \<noteq> ''skip-grants host''" "0 < length ?qh" by (simp_all add: hd(2))
  with u h show ?thesis by (simp add: split_account_def nth_append)
qed

lemma quoted_identifier_loop_doubled:
  assumes "rest = [] \<or> hd rest \<noteq> q"
  shows "quoted_identifier_loop q (doubled q s @ q # rest) p False out = Inr (p + length (doubled q s) + 1, out @ s)"
proof (induction s arbitrary: p out)
  case Nil
  show ?case using assms by (cases rest) (auto simp: doubled_def)
qed (auto simp: doubled_def)

lemma span_identifier_quote:
  assumes "rest = [] \<or> hd rest \<noteq> q" "q = backtick \<or> (b \<and> q = dquote)"
  shows "span_quotable_identifier (pre @ quote_identifier s q @ rest) (length pre) b =
      Inr (length pre + length (quote_identifier s q), s)"
  using quoted_identifier_loop_doubled [OF assms(1), of s "length pre + 1" "[]"] assms(2)
  by (auto simp: span_quotable_identifier_def quote_identifier_doubled)

lemma span_identifier_first:
  assumes "rest = [] \<or> hd rest \<noteq> q" "q = backtick \<or> (b \<and> q = dquote)"
  shows "span_quotable_identifier (quote_identifier s q @ rest) 0 b = Inr (length (quote_identifier s q), s)"
  using span_identifier_quote [OF assms, of "[]"] by simp

lemma split_schema_and_table_quoted:
  assumes "q = backtick \<or> (b \<and> q = dquote)"
  shows "split_schema_and_table (quote_identifier s q @ CHR ''.'' # quote_identifier t q) b =
    (if t = [] then Inl (Runtime_error ''Invalid object name, table name cannot be empty.'') else Inr (s, t))"
proof -
  let ?s = "quote_identifier s q" and ?t = "quote_identifier t q"
  have "span_quotable_identifier (?s @ CHR ''.'' # ?t) 0 b = Inr (length ?s, s)"
    using assms by (intro span_identifier_first) auto
  moreover have "span_quotable_identifier (?s @ CHR ''.'' # ?t) (Suc (length ?s)) b = Inr (length (?s @ CHR ''.'' # ?t), t)"
    using span_identifier_quote [of "[]" q b "?s @ ''.''" t] assms by simp
  ultimately show ?thesis by (simp add: split_schema_and_table_def ensure_dot_def ensure_eos_def nth_append)
qed

lemma split_object_quoted:
  assumes "q = backtick \<or> (b \<and> q = dquote)"
  shows "split_schema_table_and_object
      (quote_identifier s q @ CHR ''.'' # quote_identifier t q @ CHR ''.'' # quote_identifier u q) b =
    (if u = [] then Inl (Runtime_error ''Invalid identifier, object name cannot be empty.'') else Inr (s, t, u))"
proof -
  let ?s = "quote_identifier s q" and ?t = "quote_identifier t q" and ?u = "quote_identifier u q"
  let ?a = "?s @ CHR ''.'' # ?t @ CHR ''.'' # ?u"
  have "span_quotable_identifier ?a 0 b = Inr (length ?s, s)"
    using assms by (intro span_identifier_first) auto
  moreover have "span_quotable_identifier ?a (Suc (length ?s)) b = Inr (Suc (length ?s + length ?t), t)"
    using span_identifier_quote [of "CHR ''.'' # ?u" q b "?s @ ''.''" t] assms by auto
  moreover have "span_quotable_identifier ?a (Suc (Suc (length ?s + length ?t))) b = Inr (length ?a, u)"
    using span_identifier_quote [of "[]" q b "?s @ CHR ''.'' # ?t @ ''.''" u] assms by (simp add: add_ac)
  ultimately show ?thesis
    by (simp add: split_schema_table_and_object_def ensure_dot_def ensure_eos_def nth_append)
qed

lemma unquote_quote_identifier:
  assumes "q = backtick \<or> (b \<and> q = dquote)" "s \<noteq> []"
  shows "unquote_identifier (quote_identifier s q) b = Inr s"
  using span_identifier_first [of "[]" q b s] assms by (simp add: unquote_identifier_def ensure_eos_def)

section \<open>Unquoting\<close>

lemma unquote_ref_skip:
  "\<forall>x \<in> set a. x \<noteq> squote \<and> x \<noteq> backslash \<Longrightarrow> unquote_ref (a @ b) out = unquote_ref b (out @ a)"
  by (induction a arbitrary: out) auto

lemma unquote_sql_loop_ref: "unquote_sql_loop s offs out = unquote_ref (drop offs s) out"
proof (induction s offs out rule: unquote_sql_loop.induct)
  case (1 s offs out)
  let ?P = "\<lambda>x. x \<in> set [squote, backslash]"
  note loop = unquote_sql_loop.simps [of s offs out]
  show ?case
  proof (cases "index_of ?P (drop offs s)")
    case None
    then have "unquote_ref (drop offs s @ []) out = unquote_ref [] (out @ drop offs s)"
      by (intro unquote_ref_skip) (simp add: index_of_None_iff)
    with None show ?thesis by (simp add: loop find_defs)
  next
    case (Some i)
    let ?p = "offs + i"
    from Some have f: "find_first_of s [squote, backslash] offs = Some ?p" by (simp add: find_defs)
    note sp = index_of_split [OF Some]
    have l: "?p < length s" using index_of_lengthD [OF Some] by simp
    then have p: "drop offs s ! i = s ! ?p" by simp
    have r: "unquote_ref (drop offs s) out = unquote_ref (s ! ?p # drop (Suc ?p) s) (out @ substr s offs i)"
      using sp(2) unquote_ref_skip [of "take i (drop offs s)" "s ! ?p # drop (Suc ?p) s" out]
      by (subst sp(1)) (simp add: p substr_def add.commute)
    have pc: "s ! ?p = squote \<or> s ! ?p = backslash" using sp(3) p by auto
    show ?thesis
    proof (cases "Suc ?p < length s")
      case True
      then have d: "drop (Suc ?p) s = c_str s (?p + 1) # drop (?p + 2) s"
        by (simp add: c_str_def Cons_nth_drop_Suc [symmetric])
      show ?thesis unfolding r using pc d f "1.IH"(1) [OF f refl refl] "1.IH"(2) [OF f refl refl] True
        by (auto simp: loop Let_def)
    next
      case False
      with l have e: "Suc ?p = length s" by simp
      then have "c_str s (?p + 1) = nul" "drop (Suc ?p) s = []" by (simp_all add: c_str_def)
      with r pc f e show ?thesis by (auto simp: loop Let_def)
    qed
  qed
qed

lemma unquote_ref_escape: "unquote_ref (escape_sql_string s False @ [squote]) out = Inr (out @ s)"
proof (induction s arbitrary: out)
  case Nil
  show ?case by (simp add: escape_sql_string_def)
next
  case (Cons c s)
  have "unquote_ref ((case sql_escape_char False c of Some e \<Rightarrow> [backslash, e] | None \<Rightarrow> [c]) @ t) out
      = unquote_ref t (out @ [c])" for t
    by (auto simp: sql_escape_char_def sql_unescape_def split: option.splits if_splits)
  with Cons show ?case by (simp add: escape_sql_string_Cons)
qed

lemma unquote_quote_sql_string: "unquote_sql_string (quote_sql_string s) = Inr s"
  by (simp add: unquote_sql_string_def quote_sql_string_def unquote_sql_loop_ref unquote_ref_escape)

lemma plain_identifier_loop_all:
  "list_all (\<lambda>c. isalnum c \<or> c = CHR ''_'' \<or> c = CHR ''$'') cs \<Longrightarrow>
     plain_identifier_loop first cs p seen out = Inr (p + length cs, seen \<or> \<not> list_all isdigit cs, out @ cs)"
  by (induction cs arbitrary: p seen out) auto

lemma length_filter_all: "length (filter P xs) = length xs \<longleftrightarrow> list_all P xs"
proof (induction xs)
  case (Cons x xs)
  then show ?case using length_filter_le [of P xs] by (cases "P x") (simp_all del: length_filter_le)
qed simp

lemma quote_if_needed_unquoted:
  assumes "quote_identifier_if_needed s q \<noteq> quote_identifier s q"
  shows "quote_identifier_if_needed s q = s" "list_all unquoted_char s" "\<not> list_all isdigit s"
    "str_upper s \<in> {''INTERVAL'', ''INTERSECT''} \<or> str_upper s \<notin> set reserved_keywords"
proof -
  from assms have u: "list_all unquoted_char s" "\<not> is_reserved_word s"
      "length (filter isdigit (takeWhile unquoted_char s)) \<noteq> length s" "quote_identifier_if_needed s q = s"
    by (auto simp: quote_identifier_if_needed_def Let_def split: if_splits)
  have "takeWhile unquoted_char s = s" using u(1) by (simp add: takeWhile_eq_all_conv list_all_iff)
  with u(3) have "length (filter isdigit s) \<noteq> length s" by argo
  then show "quote_identifier_if_needed s q = s" "list_all unquoted_char s" "\<not> list_all isdigit s"
    "str_upper s \<in> {''INTERVAL'', ''INTERSECT''} \<or> str_upper s \<notin> set reserved_keywords"
    using u is_reserved_word_iff [of s] length_filter_all [of isdigit s] by auto
qed

lemma unquote_quote_if_needed:
  assumes "s \<noteq> []" "list_all (\<lambda>c. code c \<le> 0x7F) s"
  shows "unquote_identifier (quote_identifier_if_needed s backtick) b = Inr s"
proof (cases "quote_identifier_if_needed s backtick = quote_identifier s backtick")
  case True
  then show ?thesis using unquote_quote_identifier [of backtick b s] assms(1) by simp
next
  case False
  note f = quote_if_needed_unquoted [OF False]
  have v: "list_all (\<lambda>c. isalnum c \<or> c = CHR ''_'' \<or> c = CHR ''$'') s"
    using f(2) assms(2) unfolding list_all_iff unquoted_char_def isalnum_def by (meson not_le)
  then have "s ! 0 \<noteq> backtick" "s ! 0 \<noteq> dquote"
    using assms(1) by (cases s; auto simp: isalnum_def isalpha_def isdigit_def)+
  with v f(3) assms(1) show ?thesis
    by (simp add: f(1) unquote_identifier_def span_quotable_identifier_def plain_identifier_loop_all ensure_eos_def)
qed

interpretation sql_quote: codec quote_sql_string unquote_sql_string "\<lambda>_. True" Inr
  by unfold_locales (simp add: unquote_quote_sql_string)

interpretation ident_quote: codec "\<lambda>s. quote_identifier s backtick" "\<lambda>t. unquote_identifier t False" "\<lambda>s. s \<noteq> []" Inr
  by unfold_locales (simp add: unquote_quote_identifier)

section \<open>Properties\<close>

text \<open>
  C13. \<open>make_account\<close> succeeds for every user and host, and \<open>split_account\<close> recovers both from its result,
  in every quoting mode, as long as the host has no \<^verbatim>\<open>@\<close>.
\<close>

theorem split_account_make_account:
  "CHR ''@'' \<notin> set host \<Longrightarrow>
     bind_res (make_account user host) (\<lambda>account. split_account account auto_quote) = Inr (user, host)"
  by (simp add: make_account_text split_account_quoted)

theorem split_account_make_account_witness:
  "bind_res (make_account (squote # ''@%'') ''%'') (\<lambda>account. split_account account NO) = Inr (squote # ''@%'', ''%'')"
  by (rule split_account_make_account) simp

text \<open>
  Quoted schema, table and object names joined with dots are split back into the same names by
  \<open>split_schema_and_table\<close> and \<open>split_schema_table_and_object\<close>, whatever dots and quotes they hold.
\<close>

lemma split_qualified_names:
  assumes "q = backtick \<or> (allow_ansi_quotes \<and> q = dquote)" "table \<noteq> []" "object \<noteq> []"
  shows "split_schema_and_table (quote_identifier schema q @ CHR ''.'' # quote_identifier table q) allow_ansi_quotes
      = Inr (schema, table) \<and>
    split_schema_table_and_object
      (quote_identifier schema q @ CHR ''.'' # quote_identifier table q @ CHR ''.'' # quote_identifier object q)
      allow_ansi_quotes = Inr (schema, table, object)"
  using assms by (simp add: split_schema_and_table_quoted split_object_quoted)

text \<open>
  C34. \<open>unquote_sql_string\<close> recovers every string from its quoted form, so quoting is injective.
\<close>

theorem unquote_sql_string_quote:
  "unquote_sql_string (quote_sql_string s) = Inr s \<and> (quote_sql_string s = quote_sql_string t \<longleftrightarrow> s = t)"
  using sql_quote.enc_determines [of s t] by (auto simp: unquote_quote_sql_string)

text \<open>
  \<open>unquote_identifier\<close> recovers every non-empty ASCII identifier from
  \<open>quote_identifier_if_needed\<close>, whether or not that added quotes.
\<close>

lemma unquote_identifier_quote_if_needed:
  "s \<noteq> [] \<Longrightarrow> list_all (\<lambda>c. code c \<le> 0x7F) s \<Longrightarrow>
     unquote_identifier (quote_identifier_if_needed s backtick) allow_ansi_quotes = Inr s"
  by (rule unquote_quote_if_needed)

end
