(* ===== verification/Sync_Queue.thy ===== *)
theory Sync_Queue
  imports Shell_Prelude "HOL-Library.Multiset"
begin

text \<open>
  \<open>Synchronized_queue\<close> of \<^verbatim>\<open>mysqlshdk/libs/utils/synchronized_queue.h\<close>: an array of deques, one per
  priority, with a counter. Every public operation holds the mutex, so it is one atomic step
  on the record; a \<open>pop\<close> that would wait on the condition variable is \<^const>\<open>None\<close>.
\<close>

section \<open>Definitions\<close>

datatype Queue_priority = LOWEST | LOW | MEDIUM | HIGH

fun map_priority :: "Queue_priority \<Rightarrow> nat" where
  "map_priority LOWEST = 1"
| "map_priority LOW = 2"
| "map_priority MEDIUM = 3"
| "map_priority HIGH = 4"

definition k_shutdown_priority :: nat where "k_shutdown_priority = 0"
definition k_max_priority :: nat where "k_max_priority = map_priority HIGH"

record 'a sync_queue =
  m_queues :: "'a list list"
  m_size :: nat

definition sync_queue_new :: "'a sync_queue" where
  "sync_queue_new = \<lparr>m_queues = replicate (1 + k_max_priority) [], m_size = 0\<rparr>"

definition unsynchronized_push :: "'a \<Rightarrow> nat \<Rightarrow> 'a sync_queue \<Rightarrow> 'a sync_queue" where
  "unsynchronized_push u p q =
     (let i = k_max_priority - p
      in q\<lparr>m_queues := (m_queues q)[i := m_queues q ! i @ [u]], m_size := m_size q + 1\<rparr>)"

text \<open>The loop of \<open>unsynchronized_pop\<close> over the deques.\<close>

fun pop_first :: "'a list list \<Rightarrow> ('a \<times> 'a list list) option" where
  "pop_first [] = None"
| "pop_first (queue # queues) =
     (case queue of
        r # queue' \<Rightarrow> Some (r, queue' # queues)
      | [] \<Rightarrow> (case pop_first queues of None \<Rightarrow> None | Some (r, queues') \<Rightarrow> Some (r, queue # queues')))"

definition unsynchronized_pop :: "'a sync_queue \<Rightarrow> ('a \<times> 'a sync_queue) res" where
  "unsynchronized_pop q =
     (case pop_first (m_queues q) of
        Some (r, queues) \<Rightarrow> Inr (r, q\<lparr>m_queues := queues, m_size := m_size q - 1\<rparr>)
      | None \<Rightarrow> Inl (Logic_error ''Trying to pop from an empty queue.''))"

definition unsynchronized_empty :: "'a sync_queue \<Rightarrow> bool" where
  "unsynchronized_empty q \<longleftrightarrow> m_size q = 0"

definition push :: "'a \<Rightarrow> Queue_priority \<Rightarrow> 'a sync_queue \<Rightarrow> 'a sync_queue" where
  "push r p q = unsynchronized_push r (map_priority p) q"

text \<open>
  \<open>pop\<close> returns when the queue is not empty; \<^const>\<open>None\<close> means that it waits. \<open>try_pop\<close> looks at the
  queue when its wait ends, and returns nothing when it is still empty.
\<close>

definition pop :: "'a sync_queue \<Rightarrow> ('a \<times> 'a sync_queue) res option" where
  "pop q = (if unsynchronized_empty q then None else Some (unsynchronized_pop q))"

definition try_pop :: "'a sync_queue \<Rightarrow> ('a option \<times> 'a sync_queue) res" where
  "try_pop q =
     (if \<not> unsynchronized_empty q
      then bind_res (unsynchronized_pop q) (\<lambda>(r, q'). Inr (Some r, q'))
      else Inr (None, q))"

text \<open>\<open>shutdown(n)\<close> pushes \<open>n\<close> default-constructed values \<open>T()\<close>, here \<open>guard\<close>, with the lowest priority.\<close>

fun push_guards :: "'a \<Rightarrow> nat \<Rightarrow> 'a sync_queue \<Rightarrow> 'a sync_queue" where
  "push_guards guard 0 q = q"
| "push_guards guard (Suc n) q = push_guards guard n (unsynchronized_push guard k_shutdown_priority q)"

definition shutdown :: "'a \<Rightarrow> int \<Rightarrow> 'a sync_queue \<Rightarrow> 'a sync_queue" where
  "shutdown guard n q = push_guards guard (nat n) q"

subsection \<open>Well-formedness and the abstract queue\<close>

definition queue_ok :: "'a sync_queue \<Rightarrow> bool" where
  "queue_ok q \<longleftrightarrow> length (m_queues q) = 1 + k_max_priority \<and> m_size q = length (concat (m_queues q))"

text \<open>The waiting values of one priority, in the order they will be popped.\<close>

definition lane :: "'a sync_queue \<Rightarrow> nat \<Rightarrow> 'a list" where
  "lane q p = m_queues q ! (k_max_priority - p)"

text \<open>
  What the class promises: the values in the order of arrival with their priorities, and a pop that
  takes the earliest of the highest priority.
\<close>

definition best :: "(nat \<times> 'a) list \<Rightarrow> nat" where
  "best l = Max (set (map fst l))"

fun remove_first :: "nat \<Rightarrow> (nat \<times> 'a) list \<Rightarrow> ('a \<times> (nat \<times> 'a) list) option" where
  "remove_first p [] = None"
| "remove_first p ((r, x) # l) =
     (if r = p then Some (x, l) else map_option (\<lambda>(y, l'). (y, (r, x) # l')) (remove_first p l))"

definition spec_pop :: "(nat \<times> 'a) list \<Rightarrow> ('a \<times> (nat \<times> 'a) list) option" where
  "spec_pop l = (if l = [] then None else remove_first (best l) l)"

definition with_prio :: "nat \<Rightarrow> (nat \<times> 'a) list \<Rightarrow> 'a list" where
  "with_prio p l = map snd (filter (\<lambda>(r, x). r = p) l)"

definition refines :: "'a sync_queue \<Rightarrow> (nat \<times> 'a) list \<Rightarrow> bool" where
  "refines q l \<longleftrightarrow> queue_ok q \<and> (\<forall>p \<in> fst ` set l. p \<le> k_max_priority) \<and>
     (\<forall>p \<le> k_max_priority. lane q p = with_prio p l)"

text \<open>Runs of operations on the queue and on the specification, with the values that come out.\<close>

datatype 'a queue_op = Push 'a Queue_priority | Pop | Shutdown 'a nat

fun run_queue :: "'a queue_op list \<Rightarrow> 'a sync_queue \<Rightarrow> 'a list \<times> 'a sync_queue" where
  "run_queue [] q = ([], q)"
| "run_queue (Push x p # ops) q = run_queue ops (push x p q)"
| "run_queue (Shutdown g n # ops) q = run_queue ops (shutdown g (int n) q)"
| "run_queue (Pop # ops) q =
     (case pop q of
        Some (Inr (x, q')) \<Rightarrow> (case run_queue ops q' of (out, r) \<Rightarrow> (x # out, r))
      | _ \<Rightarrow> run_queue ops q)"

fun run_spec :: "'a queue_op list \<Rightarrow> (nat \<times> 'a) list \<Rightarrow> 'a list \<times> (nat \<times> 'a) list" where
  "run_spec [] l = ([], l)"
| "run_spec (Push x p # ops) l = run_spec ops (l @ [(map_priority p, x)])"
| "run_spec (Shutdown g n # ops) l = run_spec ops (l @ replicate n (k_shutdown_priority, g))"
| "run_spec (Pop # ops) l =
     (case spec_pop l of
        Some (x, l') \<Rightarrow> (case run_spec ops l' of (out, r) \<Rightarrow> (x # out, r))
      | None \<Rightarrow> run_spec ops l)"

section \<open>The deques\<close>

lemma top_priority [simp]: "k_max_priority = 4" "k_shutdown_priority = 0"
  by (simp_all add: k_max_priority_def k_shutdown_priority_def)

lemma map_priority_range: "0 < map_priority p \<and> map_priority p \<le> 4"
  by (cases p) simp_all

lemma pop_first_None: "pop_first qs = None \<longleftrightarrow> concat qs = []"
  by (induction qs) (auto split: list.splits option.splits)

lemma pop_first_Some:
  "pop_first qs = Some (x, qs') \<Longrightarrow>
     \<exists>i ys. i < length qs \<and> qs ! i = x # ys \<and> (\<forall>j < i. qs ! j = []) \<and> qs' = qs[i := ys]"
proof (induction qs arbitrary: qs')
  case (Cons queue qs)
  show ?case
  proof (cases queue)
    case Nil
    with Cons.prems obtain qs1 where "pop_first qs = Some (x, qs1)" and qs': "qs' = [] # qs1"
      by (auto split: option.splits)
    from Cons.IH [OF this(1)] obtain i ys where
      "i < length qs \<and> qs ! i = x # ys \<and> (\<forall>j < i. qs ! j = []) \<and> qs1 = qs[i := ys]"
      by blast
    then show ?thesis
      using Nil qs' by (intro exI [of _ "Suc i"] exI [of _ ys]) (auto simp: less_Suc_eq_0_disj)
  next
    case (Cons r queue')
    with Cons.prems show ?thesis
      by (intro exI [of _ 0]) auto
  qed
qed simp

lemma length_concat_update:
  "i < length qs \<Longrightarrow>
     length (concat (qs[i := ys])) + length (qs ! i) = length (concat qs) + length ys"
proof (induction qs arbitrary: i)
  case (Cons q qs)
  then show ?case by (cases i) auto
qed simp

lemma sync_queue_new_ok: "queue_ok sync_queue_new"
  by (simp add: queue_ok_def sync_queue_new_def)

lemma lane_new: "p \<le> 4 \<Longrightarrow> lane sync_queue_new p = []"
  by (simp add: lane_def sync_queue_new_def)

lemma unsynchronized_push_ok:
  assumes "queue_ok q" and "p \<le> 4"
  shows "queue_ok (unsynchronized_push x p q)"
proof -
  have "4 - p < length (m_queues q)" using assms by (simp add: queue_ok_def)
  from length_concat_update [OF this, of "m_queues q ! (4 - p) @ [x]"] show ?thesis
    using assms by (simp add: queue_ok_def unsynchronized_push_def Let_def)
qed

lemma lane_push:
  assumes "queue_ok q" and "p \<le> 4" and "r \<le> 4"
  shows "lane (unsynchronized_push x p q) r = (if r = p then lane q r @ [x] else lane q r)"
  using assms by (auto simp: lane_def unsynchronized_push_def Let_def queue_ok_def nth_list_update)

lemma unsynchronized_pop_Inr:
  assumes ok: "queue_ok q" and r: "unsynchronized_pop q = Inr (x, q')"
  shows "queue_ok q' \<and> (\<exists>p \<le> 4. lane q p = x # lane q' p \<and>
           (\<forall>r \<le> 4. r \<noteq> p \<longrightarrow> lane q' r = lane q r) \<and> (\<forall>r \<le> 4. p < r \<longrightarrow> lane q r = []))"
proof -
  from r obtain qs where pf: "pop_first (m_queues q) = Some (x, qs)"
    and q': "q' = q\<lparr>m_queues := qs, m_size := m_size q - 1\<rparr>"
    by (auto simp: unsynchronized_pop_def split: option.splits)
  from pop_first_Some [OF pf] obtain i ys where i: "i < length (m_queues q)"
    "m_queues q ! i = x # ys" "\<forall>j < i. m_queues q ! j = []" "qs = (m_queues q)[i := ys]"
    by blast
  have len: "length (m_queues q) = 5" using ok by (simp add: queue_ok_def)
  have "queue_ok q'"
    using length_concat_update [OF i(1), of ys] ok i by (simp add: queue_ok_def q')
  moreover have "lane q (4 - i) = x # lane q' (4 - i)"
    using i len by (simp add: lane_def q')
  moreover have "lane q' r = lane q r" if "r \<le> 4" "r \<noteq> 4 - i" for r
  proof -
    have "4 - r \<noteq> i" using that i(1) len by linarith
    then show ?thesis by (simp add: lane_def q' i(4))
  qed
  moreover have "lane q r = []" if "r \<le> 4" "4 - i < r" for r
    using that i len by (simp add: lane_def)
  ultimately show ?thesis by (metis diff_le_self)
qed

lemma concat_lanes:
  assumes "queue_ok q"
  shows "concat (m_queues q) = [] \<longleftrightarrow> (\<forall>p \<le> 4. lane q p = [])"
proof -
  have len: "length (m_queues q) = 5" using assms by (simp add: queue_ok_def)
  have "concat (m_queues q) = [] \<longleftrightarrow> (\<forall>i < 5. m_queues q ! i = [])"
    by (simp add: concat_eq_Nil_conv all_set_conv_all_nth len)
  also have "\<dots> \<longleftrightarrow> (\<forall>p \<le> 4. lane q p = [])"
  proof (safe)
    fix p :: nat assume "\<forall>i < 5. m_queues q ! i = []" "p \<le> 4"
    then show "lane q p = []" by (simp add: lane_def)
  next
    fix i :: nat assume h: "\<forall>p \<le> 4. lane q p = []" and "i < 5"
    then have "lane q (4 - i) = []" "4 - (4 - i) = i" by simp_all
    then show "m_queues q ! i = []" by (simp add: lane_def)
  qed
  finally show ?thesis .
qed

lemma unsynchronized_empty_lanes:
  "queue_ok q \<Longrightarrow> unsynchronized_empty q \<longleftrightarrow> (\<forall>p \<le> 4. lane q p = [])"
  using concat_lanes [of q] by (simp add: unsynchronized_empty_def queue_ok_def)

lemma pop_None: "queue_ok q \<Longrightarrow> pop q = None \<longleftrightarrow> (\<forall>p \<le> 4. lane q p = [])"
  by (simp add: pop_def unsynchronized_empty_lanes)

lemma pop_no_error: "queue_ok q \<Longrightarrow> pop q \<noteq> Some (Inl e)"
  by (auto simp: pop_def unsynchronized_pop_def unsynchronized_empty_def queue_ok_def pop_first_None
      split: option.splits)

lemma pop_Some:
  "queue_ok q \<Longrightarrow> pop q = Some (Inr (x, q')) \<Longrightarrow>
   queue_ok q' \<and> (\<exists>p \<le> 4. lane q p = x # lane q' p \<and>
     (\<forall>r \<le> 4. r \<noteq> p \<longrightarrow> lane q' r = lane q r) \<and> (\<forall>r \<le> 4. p < r \<longrightarrow> lane q r = []))"
  by (simp add: pop_def unsynchronized_pop_Inr split: if_splits)

section \<open>The interface\<close>

lemma sum_mset_empty:
  "finite A \<Longrightarrow> (\<Sum>p \<in> A. mset (f p)) = {#} \<longleftrightarrow> (\<forall>p \<in> A. f p = [])"
  by (induction A rule: finite_induct) auto

text \<open>
  What a client needs: an insertion appends to the lane of its priority, and a pop takes the head of
  the highest lane that is not empty.
\<close>

locale prio_lanes =
  fixes ok :: "'q \<Rightarrow> bool" and lanes :: "'q \<Rightarrow> nat \<Rightarrow> 'a list" and top :: nat
    and insert_at :: "'a \<Rightarrow> nat \<Rightarrow> 'q \<Rightarrow> 'q" and take :: "'q \<Rightarrow> ('a \<times> 'q) res option"
  assumes insert_ok: "ok q \<Longrightarrow> p \<le> top \<Longrightarrow> ok (insert_at x p q)"
    and lanes_insert: "ok q \<Longrightarrow> p \<le> top \<Longrightarrow> r \<le> top \<Longrightarrow>
      lanes (insert_at x p q) r = (if r = p then lanes q r @ [x] else lanes q r)"
    and take_None: "ok q \<Longrightarrow> take q = None \<longleftrightarrow> (\<forall>p \<le> top. lanes q p = [])"
    and take_no_error: "ok q \<Longrightarrow> take q \<noteq> Some (Inl e)"
    and take_Some: "ok q \<Longrightarrow> take q = Some (Inr (x, q')) \<Longrightarrow>
      ok q' \<and> (\<exists>p \<le> top. lanes q p = x # lanes q' p \<and>
        (\<forall>r \<le> top. r \<noteq> p \<longrightarrow> lanes q' r = lanes q r) \<and> (\<forall>r \<le> top. p < r \<longrightarrow> lanes q r = []))"
begin

text \<open>The jobs are the lanes above the lowest one, which holds the guards.\<close>

definition jobs :: "'q \<Rightarrow> 'a multiset" where
  "jobs q = (\<Sum>p \<in> {1..top}. mset (lanes q p))"

definition guards :: "'q \<Rightarrow> 'a list" where
  "guards q = lanes q 0"

lemma jobs_insert:
  assumes "ok q" and "0 < p" and "p \<le> top"
  shows "jobs (insert_at x p q) = add_mset x (jobs q) \<and> guards (insert_at x p q) = guards q"
proof -
  have p: "p \<in> {1..top}" using assms by simp
  have "jobs (insert_at x p q) = (\<Sum>r \<in> {1..top}. mset (lanes q r) + (if r = p then {#x#} else {#}))"
    unfolding jobs_def using assms by (intro sum.cong) (simp_all add: lanes_insert)
  also have "\<dots> = jobs q + {#x#}"
    using p by (simp add: sum.distrib sum.delta jobs_def)
  finally show ?thesis using assms by (simp add: guards_def lanes_insert)
qed

lemma guards_insert:
  assumes "ok q"
  shows "jobs (insert_at x 0 q) = jobs q \<and> guards (insert_at x 0 q) = guards q @ [x]"
  using assms by (simp add: jobs_def guards_def lanes_insert)

lemma take_cases:
  assumes "ok q" and "take q = Some (Inr (x, q'))"
  shows "jobs q = add_mset x (jobs q') \<and> guards q' = guards q \<or>
         jobs q = {#} \<and> jobs q' = {#} \<and> guards q = x # guards q'"
proof -
  from take_Some [OF assms] obtain p where p: "p \<le> top" "lanes q p = x # lanes q' p"
    "\<And>r. r \<le> top \<Longrightarrow> r \<noteq> p \<Longrightarrow> lanes q' r = lanes q r"
    "\<And>r. r \<le> top \<Longrightarrow> p < r \<Longrightarrow> lanes q r = []"
    by blast
  show ?thesis
  proof (cases "p = 0")
    case True
    then have "jobs q = {#}" "jobs q' = {#}"
      using p by (simp_all add: jobs_def)
    then show ?thesis using True p(2) by (simp add: guards_def)
  next
    case False
    have "jobs q = (\<Sum>r \<in> {1..top}. mset (lanes q' r) + (if r = p then {#x#} else {#}))"
      unfolding jobs_def using p by (intro sum.cong) auto
    also have "\<dots> = jobs q' + {#x#}"
      using False p(1) by (simp add: sum.distrib sum.delta jobs_def)
    finally show ?thesis using False p by (simp add: guards_def)
  qed
qed

lemma take_waits:
  assumes "ok q"
  shows "take q = None \<longleftrightarrow> jobs q = {#} \<and> guards q = []"
proof -
  have "(\<forall>p \<le> top. lanes q p = []) \<longleftrightarrow> (\<forall>p \<in> {1..top}. lanes q p = []) \<and> lanes q 0 = []"
    by (metis atLeastAtMost_iff le0 less_one linorder_not_le)
  moreover have "jobs q = {#} \<longleftrightarrow> (\<forall>p \<in> {1..top}. lanes q p = [])"
    unfolding jobs_def by (rule sum_mset_empty) simp
  ultimately show ?thesis
    unfolding take_None [OF assms] by (simp only: guards_def)
qed

lemma take_ok: "ok q \<Longrightarrow> take q = Some (Inr (x, q')) \<Longrightarrow> ok q'"
  using take_Some by blast

lemma take_result: "ok q \<Longrightarrow> take q \<noteq> None \<Longrightarrow> \<exists>x q'. take q = Some (Inr (x, q'))"
  using take_no_error by (metis option.exhaust old.sum.exhaust surj_pair)

end

interpretation sq: prio_lanes queue_ok lane 4 unsynchronized_push pop
  by unfold_locales
    (simp_all add: unsynchronized_push_ok lane_push pop_None pop_no_error pop_Some)

abbreviation queue_jobs :: "'a sync_queue \<Rightarrow> 'a multiset" where
  "queue_jobs \<equiv> prio_lanes.jobs lane 4"

abbreviation queue_guards :: "'a sync_queue \<Rightarrow> 'a list" where
  "queue_guards \<equiv> prio_lanes.guards lane"

lemma push_ok: "queue_ok q \<Longrightarrow> queue_ok (push x p q)"
  using map_priority_range [of p] by (simp add: push_def unsynchronized_push_ok)

lemma push_jobs:
  "queue_ok q \<Longrightarrow> queue_jobs (push x p q) = add_mset x (queue_jobs q) \<and>
     queue_guards (push x p q) = queue_guards q"
  using map_priority_range [of p] by (simp add: push_def sq.jobs_insert)

lemma push_guards_facts:
  "queue_ok q \<Longrightarrow> queue_ok (push_guards g n q) \<and> queue_jobs (push_guards g n q) = queue_jobs q \<and>
     queue_guards (push_guards g n q) = queue_guards q @ replicate n g"
proof (induction n arbitrary: q)
  case (Suc n)
  then show ?case
    using Suc.IH [OF unsynchronized_push_ok, of q 0 g] sq.guards_insert [OF Suc.prems, of g]
    by (simp add: replicate_app_Cons_same)
qed simp

lemma shutdown_facts:
  "queue_ok q \<Longrightarrow> queue_ok (shutdown g (int n) q) \<and> queue_jobs (shutdown g (int n) q) = queue_jobs q \<and>
     queue_guards (shutdown g (int n) q) = queue_guards q @ replicate n g"
  by (simp add: shutdown_def push_guards_facts)

lemma new_jobs: "queue_jobs sync_queue_new = {#} \<and> queue_guards sync_queue_new = []"
  by (simp add: sq.jobs_def sq.guards_def lane_new)

section \<open>Refinement of the specification\<close>

lemma with_prio_append: "with_prio p (l @ [(r, x)]) = with_prio p l @ (if r = p then [x] else [])"
  by (simp add: with_prio_def)

lemma with_prio_empty: "with_prio p l = [] \<longleftrightarrow> p \<notin> fst ` set l"
  by (force simp: with_prio_def filter_empty_conv)

lemma remove_first_Some:
  "with_prio p l = x # ys \<Longrightarrow>
     \<exists>l'. remove_first p l = Some (x, l') \<and> with_prio p l' = ys \<and>
       (\<forall>r. r \<noteq> p \<longrightarrow> with_prio r l' = with_prio r l) \<and> set l' \<subseteq> set l"
proof (induction l)
  case (Cons a l)
  obtain r y where a: "a = (r, y)" by fastforce
  show ?case
  proof (cases "r = p")
    case True
    with Cons.prems show ?thesis by (auto simp: a with_prio_def)
  next
    case False
    then have "with_prio p l = x # ys" using Cons.prems by (simp add: a with_prio_def)
    from Cons.IH [OF this] False show ?thesis by (auto simp: a with_prio_def)
  qed
qed (simp add: with_prio_def)

lemma refines_push:
  assumes "refines q l" and "p \<le> 4"
  shows "refines (unsynchronized_push x p q) (l @ [(p, x)])"
  using assms
  by (auto simp: refines_def unsynchronized_push_ok lane_push with_prio_append)

lemma refines_guards:
  "refines q l \<Longrightarrow> refines (push_guards g n q) (l @ replicate n (k_shutdown_priority, g))"
proof (induction n arbitrary: q l)
  case (Suc n)
  from Suc.IH [OF refines_push [OF Suc.prems, of 0 g]] show ?case by simp
qed simp

lemma refines_pop_None:
  assumes "refines q l"
  shows "pop q = None \<longleftrightarrow> l = []"
proof -
  have "(\<forall>p \<le> 4. lane q p = []) \<longleftrightarrow> (\<forall>p \<le> 4. p \<notin> fst ` set l)"
    using assms by (simp add: refines_def with_prio_empty)
  also have "\<dots> \<longleftrightarrow> l = []"
  proof
    assume h: "\<forall>p \<le> 4. p \<notin> fst ` set l"
    show "l = []"
    proof (rule ccontr)
      assume "l \<noteq> []"
      then have m: "fst (hd l) \<in> fst ` set l" by simp
      moreover have "\<forall>p \<in> fst ` set l. p \<le> 4" using assms unfolding refines_def top_priority by (elim conjE)
      ultimately have "fst (hd l) \<le> 4" by (rule bspec [rotated])
      with h m show False by (meson)
    qed
  qed simp
  finally show ?thesis using assms by (simp add: pop_None refines_def)
qed

lemma best_eqI:
  assumes "p \<in> fst ` set l" and "\<And>r. r \<in> fst ` set l \<Longrightarrow> r \<le> p"
  shows "best l = p"
  unfolding best_def using assms by (intro Max_eqI) auto

lemma refines_pop_Some:
  assumes R: "refines q l" and pop: "pop q = Some (Inr (x, q'))"
  shows "\<exists>l'. spec_pop l = Some (x, l') \<and> refines q' l'"
proof -
  have ok: "queue_ok q" and bound: "\<And>r. r \<in> fst ` set l \<Longrightarrow> r \<le> 4"
    and lanes: "\<And>r. r \<le> 4 \<Longrightarrow> lane q r = with_prio r l"
    using R by (auto simp: refines_def)
  from pop_Some [OF ok pop] obtain p where ok': "queue_ok q'" and p: "p \<le> 4"
    "lane q p = x # lane q' p" "\<And>r. r \<le> 4 \<Longrightarrow> r \<noteq> p \<Longrightarrow> lane q' r = lane q r"
    "\<And>r. r \<le> 4 \<Longrightarrow> p < r \<Longrightarrow> lane q r = []" by blast
  have head: "with_prio p l = x # lane q' p" using p(1,2) lanes by simp
  have "best l = p"
  proof (rule best_eqI)
    show "p \<in> fst ` set l" using head with_prio_empty [of p l] by auto
    show "r \<le> p" if "r \<in> fst ` set l" for r
      using that bound [OF that] p(4) [of r] lanes [of r] with_prio_empty [of r l] by fastforce
  qed
  moreover from remove_first_Some [OF head] obtain l' where l': "remove_first p l = Some (x, l')"
    "with_prio p l' = lane q' p" "\<And>r. r \<noteq> p \<Longrightarrow> with_prio r l' = with_prio r l" "set l' \<subseteq> set l"
    by blast
  moreover have "lane q' r = with_prio r l'" if "r \<le> 4" for r
    using that p(3) [of r] lanes [of r] l'(2) l'(3) [of r] by (cases "r = p") auto
  then have "refines q' l'"
    using ok' l'(4) bound by (force simp: refines_def)
  moreover have "l \<noteq> []" using head by (auto simp: with_prio_def)
  ultimately show ?thesis by (simp add: spec_pop_def)
qed

lemma refines_run:
  "refines q l \<Longrightarrow>
     fst (run_queue ops q) = fst (run_spec ops l) \<and> refines (snd (run_queue ops q)) (snd (run_spec ops l))"
proof (induction ops arbitrary: q l)
  case (Cons op ops)
  show ?case
  proof (cases op)
    case (Push x p)
    with refines_push [OF Cons.prems, of "map_priority p" x] map_priority_range [of p]
    show ?thesis using Cons.IH by (simp add: push_def)
  next
    case (Shutdown g n)
    with refines_guards [OF Cons.prems] show ?thesis using Cons.IH by (simp add: shutdown_def)
  next
    case Pop
    have ok: "queue_ok q" using Cons.prems by (simp add: refines_def)
    show ?thesis
    proof (cases "pop q")
      case None
      then show ?thesis
        using Cons.IH [OF Cons.prems] refines_pop_None [OF Cons.prems]
        by (simp add: \<open>op = Pop\<close> spec_pop_def)
    next
      case (Some r)
      with sq.take_result [OF ok] obtain x q' where p: "pop q = Some (Inr (x, q'))" by auto
      from refines_pop_Some [OF Cons.prems p] obtain l' where
        "spec_pop l = Some (x, l')" "refines q' l'" by blast
      then show ?thesis
        using Cons.IH [of q' l'] p by (auto simp: \<open>op = Pop\<close> split: prod.splits)
    qed
  qed
qed simp

lemma refines_new: "refines sync_queue_new []"
  by (simp add: refines_def sync_queue_new_ok lane_new with_prio_def)

section \<open>Properties\<close>

text \<open>
  C19. Every sequence of pushes, shutdowns and pops on a fresh \<open>Synchronized_queue\<close> gives out the
  values that the specification gives out: a pop takes the earliest value of the highest priority,
  and the guards of a shutdown come after every value pushed with a priority. The counter is the
  number of waiting values after every sequence.
\<close>

theorem sync_queue_refines:
  "fst (run_queue ops sync_queue_new) = fst (run_spec ops []) \<and>
   m_size (snd (run_queue ops sync_queue_new)) = length (concat (m_queues (snd (run_queue ops sync_queue_new)))) \<and>
   refines (snd (run_queue ops sync_queue_new)) (snd (run_spec ops []))"
  using refines_run [OF refines_new, of ops] by (simp add: refines_def queue_ok_def)

end
