(* ===== verification/Thread_Pool.thy ===== *)
theory Thread_Pool
  imports Sync_Queue
begin

text \<open>
  \<open>Thread_pool\<close> of \<^verbatim>\<open>mysqlshdk/libs/utils/thread_pool.cc\<close>. The threads of the pool, the thread that runs
  \<open>process()\<close> and the thread that owns the pool interleave in any order; a step is one access to the
  shared state: one operation of a queue, one read or write of a flag, one call of a task's
  function. Each thread has a program counter that names the statement it is about to execute. The
  functions of the tasks are parameters: \<open>produce t\<close> gives the data or the exception that
  \<open>produce_data()\<close> throws, \<open>process t d\<close> the exception that \<open>process_data(d)\<close> throws, if any.
\<close>

section \<open>Definitions\<close>

datatype Async_state = IDLE | PRODUCING | PROCESSING | DONE | TERMINATED

text \<open>The statements of \<open>emergency_shutdown()\<close>.\<close>

datatype emergency = ETest | ESet_interrupt | ESet_state | EStop_workers | EStop_main | EReturn

text \<open>The statements of a worker of \<open>start_threads()\<close>; \<open>maybe_shutdown_main_thread()\<close> is the last three before the end.\<close>

datatype ('t, 'd) worker =
    WSpawn
  | WPop
  | WGot "'t option"
  | WProduce 't
  | WPush 't 'd
  | WPushed
  | WDecrement
  | WSet_processing
  | WStop_main
  | WCatch 't exn
  | WEmergency 't emergency
  | WExit

text \<open>The statements of \<open>process()\<close>; \<open>MReturn\<close> and \<open>MThrow\<close> are its two ends.\<close>

datatype ('t, 'd) main =
    MStart
  | MPop
  | MGot "('t \<times> 'd) option"
  | MTask 't 'd
  | MRan
  | MLoop_end
  | MSet_done
  | MKill exn emergency
  | MJoin "exn option"
  | MReturn
  | MThrow exn

text \<open>The thread that owns the pool, between and inside \<open>tasks_done()\<close> and \<open>terminate()\<close>.\<close>

datatype owner = OIdle | OStop_workers | OTerminate emergency

text \<open>
  A default-constructed \<open>Task\<close> or \<open>std::function\<close> is \<^const>\<open>None\<close>. The last two fields are not in the
  code: they record the tasks that were added and the data that was processed.
\<close>

record ('t, 'd) pool =
  m_active_threads :: nat
  m_worker_exceptions :: "exn option list"
  m_worker_interrupt :: bool
  m_all_tasks_pushed :: bool
  m_worker_tasks :: "'t option sync_queue"
  m_main_thread_tasks :: "('t \<times> 'd) option sync_queue"
  m_async_state :: Async_state
  m_workers :: "('t, 'd) worker list"
  main_thread :: "('t, 'd) main"
  owner_thread :: owner
  added :: "'t list"
  processed :: "('t \<times> 'd) list"

definition pool_new :: "nat \<Rightarrow> ('t, 'd) pool" where
  "pool_new threads =
     \<lparr>m_active_threads = threads, m_worker_exceptions = replicate threads None,
      m_worker_interrupt = False, m_all_tasks_pushed = False,
      m_worker_tasks = sync_queue_new, m_main_thread_tasks = sync_queue_new,
      m_async_state = IDLE, m_workers = replicate threads WSpawn, main_thread = MStart,
      owner_thread = OIdle, added = [], processed = []\<rparr>"

definition shutdown_main_thread :: "('t, 'd) pool \<Rightarrow> ('t, 'd) pool" where
  "shutdown_main_thread s = s\<lparr>m_main_thread_tasks := shutdown None 1 (m_main_thread_tasks s)\<rparr>"

definition shutdown_workers :: "nat \<Rightarrow> ('t, 'd) pool \<Rightarrow> ('t, 'd) pool" where
  "shutdown_workers threads s = s\<lparr>m_worker_tasks := shutdown None (int threads) (m_worker_tasks s)\<rparr>"

definition add_task :: "'t \<Rightarrow> Queue_priority \<Rightarrow> ('t, 'd) pool \<Rightarrow> ('t, 'd) pool res" where
  "add_task t p s =
     (if \<not> m_all_tasks_pushed s
      then Inr (s\<lparr>m_worker_tasks := push (Some t) p (m_worker_tasks s), added := added s @ [t]\<rparr>)
      else Inl (Logic_error ''Cannot add a task after the worker queue has been shut down''))"

definition tasks_done :: "('t, 'd) pool \<Rightarrow> ('t, 'd) pool res" where
  "tasks_done s =
     (if \<not> m_all_tasks_pushed s
      then Inr (s\<lparr>m_all_tasks_pushed := True, owner_thread := OStop_workers\<rparr>)
      else Inl (Logic_error ''Worker queue is already shut down''))"

text \<open>One statement of \<open>emergency_shutdown()\<close>, for the thread at it.\<close>

fun emergency_shutdown :: "nat \<Rightarrow> emergency \<Rightarrow> ('t, 'd) pool \<Rightarrow> emergency \<times> ('t, 'd) pool" where
  "emergency_shutdown threads ETest s = (if \<not> m_worker_interrupt s then ESet_interrupt else EReturn, s)"
| "emergency_shutdown threads ESet_interrupt s = (ESet_state, s\<lparr>m_worker_interrupt := True\<rparr>)"
| "emergency_shutdown threads ESet_state s = (EStop_workers, s\<lparr>m_async_state := TERMINATED\<rparr>)"
| "emergency_shutdown threads EStop_workers s = (EStop_main, shutdown_workers threads s)"
| "emergency_shutdown threads EStop_main s = (EReturn, shutdown_main_thread s)"
| "emergency_shutdown threads EReturn s = (EReturn, s)"

definition at_worker :: "nat \<Rightarrow> ('t, 'd) worker \<Rightarrow> ('t, 'd) pool \<Rightarrow> ('t, 'd) pool" where
  "at_worker i w s = s\<lparr>m_workers := (m_workers s)[i := w]\<rparr>"

text \<open>The next statement of worker \<open>i\<close>, which is at \<open>w\<close>; \<^const>\<open>None\<close> when it waits or has ended.\<close>

fun worker_step :: "('t \<Rightarrow> 'd res) \<Rightarrow> nat \<Rightarrow> nat \<Rightarrow> ('t, 'd) worker \<Rightarrow> ('t, 'd) pool \<Rightarrow> ('t, 'd) pool option" where
  "worker_step produce threads i WSpawn s = Some (at_worker i WPop s)"
| "worker_step produce threads i WPop s =
     (case pop (m_worker_tasks s) of
        Some (Inr (task, q)) \<Rightarrow> Some (at_worker i (WGot task) (s\<lparr>m_worker_tasks := q\<rparr>))
      | _ \<Rightarrow> None)"
| "worker_step produce threads i (WGot task) s =
     Some (at_worker i
       (if m_worker_interrupt s then WExit
        else case task of None \<Rightarrow> WDecrement | Some t \<Rightarrow> WProduce t) s)"
| "worker_step produce threads i (WProduce t) s =
     Some (at_worker i (case produce t of Inl e \<Rightarrow> WCatch t e | Inr d \<Rightarrow> WPush t d) s)"
| "worker_step produce threads i (WPush t d) s =
     Some (at_worker i WPushed
       (s\<lparr>m_main_thread_tasks := push (Some (t, d)) MEDIUM (m_main_thread_tasks s)\<rparr>))"
| "worker_step produce threads i WPushed s =
     Some (at_worker i (if m_worker_interrupt s then WExit else WPop) s)"
| "worker_step produce threads i WDecrement s =
     (let n = (if m_active_threads s = 0 then 2 ^ 64 - 1 else m_active_threads s - 1)
      in Some (at_worker i (if n = 0 then WSet_processing else WExit) (s\<lparr>m_active_threads := n\<rparr>)))"
| "worker_step produce threads i WSet_processing s =
     Some (at_worker i WStop_main (s\<lparr>m_async_state := PROCESSING\<rparr>))"
| "worker_step produce threads i WStop_main s = Some (at_worker i WExit (shutdown_main_thread s))"
| "worker_step produce threads i (WCatch t e) s =
     Some (at_worker i (WEmergency t ETest)
       (s\<lparr>m_worker_exceptions := (m_worker_exceptions s)[i := Some e]\<rparr>))"
| "worker_step produce threads i (WEmergency t g) s =
     (case emergency_shutdown threads g s of
        (g', s') \<Rightarrow> Some (at_worker i (if g' = EReturn then WExit else WEmergency t g') s'))"
| "worker_step produce threads i WExit s = None"

text \<open>\<open>rethrow()\<close>: the exception of the first worker that has one.\<close>

fun rethrow :: "exn option list \<Rightarrow> exn option" where
  "rethrow [] = None"
| "rethrow (exc # excs) = (case exc of Some e \<Rightarrow> Some e | None \<Rightarrow> rethrow excs)"

text \<open>
  The next statement of the thread in \<open>process()\<close>. \<open>MJoin\<close> is \<open>wait_for_worker_threads()\<close>: with an
  exception it is the one in \<open>kill_threads()\<close>, after which the exception is thrown again.
\<close>

fun main_step :: "('t \<Rightarrow> 'd \<Rightarrow> exn option) \<Rightarrow> nat \<Rightarrow> ('t, 'd) main \<Rightarrow> ('t, 'd) pool \<Rightarrow> ('t, 'd) pool option" where
  "main_step process threads MStart s = None"
| "main_step process threads MPop s =
     (case pop (m_main_thread_tasks s) of
        Some (Inr (task, q)) \<Rightarrow> Some (s\<lparr>m_main_thread_tasks := q, main_thread := MGot task\<rparr>)
      | _ \<Rightarrow> None)"
| "main_step process threads (MGot task) s =
     Some (s\<lparr>main_thread :=
       (if m_worker_interrupt s then MLoop_end
        else case task of None \<Rightarrow> MLoop_end | Some (t, d) \<Rightarrow> MTask t d)\<rparr>)"
| "main_step process threads (MTask t d) s =
     (case process t d of
        None \<Rightarrow> Some (s\<lparr>main_thread := MRan, processed := processed s @ [(t, d)]\<rparr>)
      | Some e \<Rightarrow> Some (s\<lparr>main_thread := MKill e ETest\<rparr>))"
| "main_step process threads MRan s =
     Some (s\<lparr>main_thread := (if m_worker_interrupt s then MLoop_end else MPop)\<rparr>)"
| "main_step process threads MLoop_end s =
     Some (s\<lparr>main_thread := (if \<not> m_worker_interrupt s then MSet_done else MJoin None)\<rparr>)"
| "main_step process threads MSet_done s = Some (s\<lparr>m_async_state := DONE, main_thread := MJoin None\<rparr>)"
| "main_step process threads (MKill e g) s =
     (case emergency_shutdown threads g s of
        (g', s') \<Rightarrow> Some (s'\<lparr>main_thread := (if g' = EReturn then MJoin (Some e) else MKill e g')\<rparr>))"
| "main_step process threads (MJoin exc) s =
     (if list_all (\<lambda>w. w = WExit) (m_workers s)
      then Some (s\<lparr>main_thread :=
        (case exc of
           Some e \<Rightarrow> MThrow e
         | None \<Rightarrow> (case rethrow (m_worker_exceptions s) of Some e \<Rightarrow> MThrow e | None \<Rightarrow> MReturn))\<rparr>)
      else None)"
| "main_step process threads MReturn s = None"
| "main_step process threads (MThrow e) s = None"

text \<open>\<open>process()\<close> is called by the owner, or started by \<open>process_async()\<close>.\<close>

definition start_process :: "bool \<Rightarrow> ('t, 'd) pool \<Rightarrow> ('t, 'd) pool" where
  "start_process async s =
     s\<lparr>m_async_state := (if async then PRODUCING else m_async_state s), main_thread := MPop\<rparr>"

definition owner_step :: "nat \<Rightarrow> ('t, 'd) pool \<Rightarrow> ('t, 'd) pool option" where
  "owner_step threads s =
     (case owner_thread s of
        OIdle \<Rightarrow> None
      | OStop_workers \<Rightarrow> Some (shutdown_workers threads s\<lparr>owner_thread := OIdle\<rparr>)
      | OTerminate g \<Rightarrow>
          (case emergency_shutdown threads g s of
             (g', s') \<Rightarrow> Some (s'\<lparr>owner_thread := (if g' = EReturn then OIdle else OTerminate g')\<rparr>)))"

text \<open>The steps of the threads, and with them the calls of the owner.\<close>

inductive internal :: "('t \<Rightarrow> 'd res) \<Rightarrow> ('t \<Rightarrow> 'd \<Rightarrow> exn option) \<Rightarrow> nat \<Rightarrow> ('t, 'd) pool \<Rightarrow> ('t, 'd) pool \<Rightarrow> bool"
  for produce process threads where
  Worker: "i < length (m_workers s) \<Longrightarrow>
     worker_step produce threads i (m_workers s ! i) s = Some s' \<Longrightarrow> internal produce process threads s s'"
| Main: "main_step process threads (main_thread s) s = Some s' \<Longrightarrow> internal produce process threads s s'"
| Owner: "owner_step threads s = Some s' \<Longrightarrow> internal produce process threads s s'"

inductive step :: "('t \<Rightarrow> 'd res) \<Rightarrow> ('t \<Rightarrow> 'd \<Rightarrow> exn option) \<Rightarrow> nat \<Rightarrow> ('t, 'd) pool \<Rightarrow> ('t, 'd) pool \<Rightarrow> bool"
  for produce process threads where
  Internal: "internal produce process threads s s' \<Longrightarrow> step produce process threads s s'"
| Add_task: "owner_thread s = OIdle \<Longrightarrow> add_task t p s = Inr s' \<Longrightarrow> step produce process threads s s'"
| Tasks_done: "owner_thread s = OIdle \<Longrightarrow> tasks_done s = Inr s' \<Longrightarrow> step produce process threads s s'"
| Terminate: "owner_thread s = OIdle \<Longrightarrow>
     step produce process threads s (s\<lparr>owner_thread := OTerminate ETest\<rparr>)"
| Process: "owner_thread s = OIdle \<Longrightarrow> main_thread s = MStart \<Longrightarrow>
     step produce process threads s (start_process async s)"

inductive reachable :: "('t \<Rightarrow> 'd res) \<Rightarrow> ('t \<Rightarrow> 'd \<Rightarrow> exn option) \<Rightarrow> nat \<Rightarrow> ('t, 'd) pool \<Rightarrow> bool"
  for produce process threads where
  New: "reachable produce process threads (pool_new threads)"
| Step: "reachable produce process threads s \<Longrightarrow> step produce process threads s s' \<Longrightarrow>
     reachable produce process threads s'"

end
