(* ===== verification/Thread_Pool_Inv.thy ===== *)
theory Thread_Pool_Inv
  imports Thread_Pool
begin

text \<open>
  The invariants of the thread pool, by induction over the steps: the shape of the queues, the flag
  of the emergency shutdown, the origin of the data, and the flow of the tasks while the flag is
  down.
\<close>

section \<open>Predicates of the invariants\<close>

text \<open>The shape of the shared state: in each queue the jobs are above the guards.\<close>

definition shaped :: "nat \<Rightarrow> ('t, 'd) pool \<Rightarrow> bool" where
  "shaped threads s \<longleftrightarrow>
     length (m_workers s) = threads \<and> length (m_worker_exceptions s) = threads \<and>
     queue_ok (m_worker_tasks s) \<and> queue_ok (m_main_thread_tasks s) \<and>
     None \<notin># queue_jobs (m_worker_tasks s) \<and> None \<notin># queue_jobs (m_main_thread_tasks s) \<and>
     set (queue_guards (m_worker_tasks s)) \<subseteq> {None} \<and>
     set (queue_guards (m_main_thread_tasks s)) \<subseteq> {None} \<and>
     (owner_thread s = OStop_workers \<longrightarrow> m_all_tasks_pushed s)"

text \<open>The data that travels to \<open>process()\<close> was produced by its task.\<close>

fun worker_data :: "('t, 'd) worker \<Rightarrow> ('t \<times> 'd) option" where
  "worker_data (WPush t d) = Some (t, d)"
| "worker_data _ = None"

fun main_data :: "('t, 'd) main \<Rightarrow> ('t \<times> 'd) option" where
  "main_data (MGot task) = task"
| "main_data (MTask t d) = Some (t, d)"
| "main_data _ = None"

definition travelling :: "('t, 'd) pool \<Rightarrow> ('t \<times> 'd) set" where
  "travelling s = {x. Some x \<in># queue_jobs (m_main_thread_tasks s)} \<union>
     {x. Some x \<in> worker_data ` set (m_workers s)} \<union> {x. main_data (main_thread s) = Some x} \<union>
     set (processed s)"

definition produced :: "('t \<Rightarrow> 'd res) \<Rightarrow> ('t, 'd) pool \<Rightarrow> bool" where
  "produced produce s \<longleftrightarrow> (\<forall>(t, d) \<in> travelling s. produce t = Inr d)"

text \<open>Sums over the workers, of counts and of multisets.\<close>

definition wsum :: "(('t, 'd) worker \<Rightarrow> 'n::comm_monoid_add) \<Rightarrow> ('t, 'd) worker list \<Rightarrow> 'n" where
  "wsum f ws = (\<Sum>w \<leftarrow> ws. f w)"

definition wrest :: "(('t, 'd) worker \<Rightarrow> 'n::comm_monoid_add) \<Rightarrow> nat \<Rightarrow> ('t, 'd) worker list \<Rightarrow> 'n" where
  "wrest f i ws = wsum f (take i ws @ drop (Suc i) ws)"

fun before_decrement :: "('t, 'd) worker \<Rightarrow> nat" where
  "before_decrement WSet_processing = 0"
| "before_decrement WStop_main = 0"
| "before_decrement WExit = 0"
| "before_decrement _ = 1"

fun stopping_main :: "('t, 'd) worker \<Rightarrow> nat" where
  "stopping_main WSet_processing = 1"
| "stopping_main WStop_main = 1"
| "stopping_main _ = 0"

fun took_guard :: "('t, 'd) worker \<Rightarrow> nat" where
  "took_guard (WGot None) = 1"
| "took_guard WDecrement = 1"
| "took_guard WSet_processing = 1"
| "took_guard WStop_main = 1"
| "took_guard WExit = 1"
| "took_guard _ = 0"

fun main_took_guard :: "('t, 'd) main \<Rightarrow> nat" where
  "main_took_guard (MGot None) = 1"
| "main_took_guard MLoop_end = 1"
| "main_took_guard MSet_done = 1"
| "main_took_guard (MJoin exc) = 1"
| "main_took_guard MReturn = 1"
| "main_took_guard (MThrow e) = 1"
| "main_took_guard _ = 0"

text \<open>The task a worker, or the thread in \<open>process()\<close>, has taken and not yet passed on.\<close>

fun held :: "('t, 'd) worker \<Rightarrow> 't multiset" where
  "held (WGot (Some t)) = {#t#}"
| "held (WProduce t) = {#t#}"
| "held (WPush t d) = {#t#}"
| "held (WCatch t e) = {#t#}"
| "held (WEmergency t g) = {#t#}"
| "held _ = {#}"

fun main_held :: "('t, 'd) main \<Rightarrow> 't multiset" where
  "main_held (MGot (Some (t, d))) = {#t#}"
| "main_held (MTask t d) = {#t#}"
| "main_held _ = {#}"

text \<open>The threads that are in \<open>emergency_shutdown()\<close> after the write of the flag.\<close>

definition late_stages :: "emergency set" where
  "late_stages = {ESet_state, EStop_workers, EStop_main, EReturn}"

fun worker_stage :: "('t, 'd) worker \<Rightarrow> emergency option" where
  "worker_stage (WEmergency t g) = Some g"
| "worker_stage _ = None"

fun main_stage :: "('t, 'd) main \<Rightarrow> emergency option" where
  "main_stage (MKill e g) = Some g"
| "main_stage (MJoin (Some e)) = Some EReturn"
| "main_stage _ = None"

fun owner_stage :: "owner \<Rightarrow> emergency option" where
  "owner_stage (OTerminate g) = Some g"
| "owner_stage _ = None"

definition stages :: "('t, 'd) pool \<Rightarrow> emergency set" where
  "stages s = {g. Some g \<in> worker_stage ` set (m_workers s)} \<union>
     {g. main_stage (main_thread s) = Some g} \<union> {g. owner_stage (owner_thread s) = Some g}"

definition flagged :: "('t, 'd) pool \<Rightarrow> bool" where
  "flagged s \<longleftrightarrow> (stages s \<inter> late_stages \<noteq> {} \<longrightarrow> m_worker_interrupt s)"

text \<open>\<open>tasks_done()\<close> has returned.\<close>

definition stopped :: "('t, 'd) pool \<Rightarrow> bool" where
  "stopped s \<longleftrightarrow> m_all_tasks_pushed s \<and> owner_thread s \<noteq> OStop_workers"

text \<open>
  While the flag is down, the counters agree with the threads: the active threads are those before
  their decrement, the guards of both queues are accounted for, no job is left once a guard
  has been taken, and every task added is in exactly one place.
\<close>

definition waiting :: "'t option sync_queue \<Rightarrow> 't multiset" where
  "waiting q = image_mset the (queue_jobs q)"

definition conserved :: "('t, 'd) pool \<Rightarrow> bool" where
  "conserved s \<longleftrightarrow>
     mset (added s) = waiting (m_worker_tasks s) + wsum held (m_workers s) +
       image_mset fst (waiting (m_main_thread_tasks s)) + main_held (main_thread s) +
       mset (map fst (processed s))"

definition is_kill :: "('t, 'd) main \<Rightarrow> bool" where
  "is_kill m = (case m of MKill e g \<Rightarrow> True | _ \<Rightarrow> False)"

definition is_emergency :: "('t, 'd) worker \<Rightarrow> bool" where
  "is_emergency w = (case w of WEmergency t g \<Rightarrow> True | _ \<Rightarrow> False)"

definition counted :: "nat \<Rightarrow> ('t, 'd) pool \<Rightarrow> bool" where
  "counted threads s \<longleftrightarrow>
     m_active_threads s = wsum before_decrement (m_workers s) \<and>
     length (queue_guards (m_worker_tasks s)) + wsum took_guard (m_workers s) = (if stopped s then threads else 0) \<and>
     length (queue_guards (m_main_thread_tasks s)) + main_took_guard (main_thread s) +
         wsum stopping_main (m_workers s) =
       (if wsum before_decrement (m_workers s) = 0 then 1 else 0)"

definition drained :: "('t, 'd) pool \<Rightarrow> bool" where
  "drained s \<longleftrightarrow>
     (wsum took_guard (m_workers s) = 0 \<or> queue_jobs (m_worker_tasks s) = {#}) \<and>
     (main_took_guard (main_thread s) = 0 \<or> queue_jobs (m_main_thread_tasks s) = {#})"

definition reported :: "('t, 'd) pool \<Rightarrow> bool" where
  "reported s \<longleftrightarrow>
     (\<forall>i < length (m_workers s). m_worker_exceptions s ! i = None \<or> is_emergency (m_workers s ! i))"

definition flowing :: "nat \<Rightarrow> ('t, 'd) pool \<Rightarrow> bool" where
  "flowing threads s \<longleftrightarrow>
     counted threads s \<and> drained s \<and> (is_kill (main_thread s) \<or> conserved s) \<and> reported s"

section \<open>The workers as a sum\<close>

lemma wsum_nth: "i < length ws \<Longrightarrow> wsum f ws = wrest f i ws + f (ws ! i)"
  by (subst id_take_nth_drop [of i ws]) (simp_all add: wrest_def wsum_def ac_simps)

lemma wsum_update: "i < length ws \<Longrightarrow> wsum f (ws[i := w]) = wrest f i ws + f w"
  by (simp add: wrest_def wsum_def upd_conv_take_nth_drop ac_simps)

lemma wsum_zero: "(wsum f ws :: nat) = 0 \<longleftrightarrow> (\<forall>w \<in> set ws. f w = 0)"
  by (induction ws) (auto simp: wsum_def)

section \<open>The shape\<close>

lemma emergency_shaped:
  "shaped threads s \<Longrightarrow> emergency_shutdown threads g s = (g', s') \<Longrightarrow> shaped threads s'"
  using shutdown_facts [of "m_main_thread_tasks s" None 1]
    shutdown_facts [of "m_worker_tasks s" None threads]
  by (cases g) (auto simp: shaped_def shutdown_workers_def shutdown_main_thread_def)

lemma pop_shaped:
  assumes "queue_ok q" and "None \<notin># queue_jobs q" and "set (queue_guards q) \<subseteq> {None}"
    and "pop q = Some (Inr (x, q'))"
  shows "queue_ok q' \<and> None \<notin># queue_jobs q' \<and> set (queue_guards q') \<subseteq> {None} \<and>
    (case x of
       None \<Rightarrow> queue_jobs q = {#} \<and> queue_jobs q' = {#} \<and> queue_guards q = None # queue_guards q'
     | Some y \<Rightarrow> queue_jobs q = add_mset (Some y) (queue_jobs q') \<and> queue_guards q' = queue_guards q)"
  using sq.take_cases [OF assms(1,4)] sq.take_ok [OF assms(1,4)] assms(2,3)
  by (cases x) auto

lemma worker_shaped:
  assumes "shaped threads s" and "worker_step produce threads i w s = Some s'"
  shows "shaped threads s'"
  using assms
proof (cases w)
  case (WPush t d)
  with assms push_jobs [of "m_main_thread_tasks s" "Some (t, d)" MEDIUM] show ?thesis
    by (auto simp: shaped_def at_worker_def push_ok)
next
  case WPop
  with assms obtain x q where "pop (m_worker_tasks s) = Some (Inr (x, q))"
    and "s' = at_worker i (WGot x) (s\<lparr>m_worker_tasks := q\<rparr>)"
    by (auto split: option.splits sum.splits)
  with assms(1) pop_shaped [of "m_worker_tasks s" x q] show ?thesis
    by (auto simp: shaped_def at_worker_def)
next
  case (WEmergency t g)
  with assms emergency_shaped [of threads s g] show ?thesis
    by (cases "emergency_shutdown threads g s") (auto simp: shaped_def at_worker_def)
next
  case WStop_main
  with assms shutdown_facts [of "m_main_thread_tasks s" None 1] show ?thesis
    by (auto simp: shaped_def at_worker_def shutdown_main_thread_def)
qed (auto simp: shaped_def at_worker_def Let_def)

lemma main_shaped:
  assumes "shaped threads s" and "main_step process threads m s = Some s'"
  shows "shaped threads s'"
  using assms
proof (cases m)
  case MPop
  with assms obtain x q where "pop (m_main_thread_tasks s) = Some (Inr (x, q))"
    and "s' = s\<lparr>m_main_thread_tasks := q, main_thread := MGot x\<rparr>"
    by (auto split: option.splits sum.splits)
  with assms(1) pop_shaped [of "m_main_thread_tasks s" x q] show ?thesis
    by (auto simp: shaped_def)
next
  case (MKill e g)
  with assms emergency_shaped [of threads s g] show ?thesis
    by (cases "emergency_shutdown threads g s") (auto simp: shaped_def)
qed (auto simp: shaped_def split: option.splits if_splits)

lemma owner_shaped:
  assumes "shaped threads s" and "owner_step threads s = Some s'"
  shows "shaped threads s'"
  using assms
proof (cases "owner_thread s")
  case OStop_workers
  with assms shutdown_facts [of "m_worker_tasks s" None threads] show ?thesis
    by (auto simp: shaped_def owner_step_def shutdown_workers_def)
next
  case (OTerminate g)
  with assms emergency_shaped [of threads s g] show ?thesis
    by (cases "emergency_shutdown threads g s") (auto simp: shaped_def owner_step_def split: if_splits)
qed (simp add: owner_step_def)

lemma internal_shaped: "internal produce process threads s s' \<Longrightarrow> shaped threads s \<Longrightarrow> shaped threads s'"
  by (induction rule: internal.induct) (auto intro: worker_shaped main_shaped owner_shaped)

lemma step_shaped: "step produce process threads s s' \<Longrightarrow> shaped threads s \<Longrightarrow> shaped threads s'"
proof (induction rule: step.induct)
  case (Add_task s t p s')
  then show ?case
    using push_jobs [of "m_worker_tasks s" "Some t" p]
    by (auto simp: shaped_def add_task_def push_ok split: if_splits)
qed (simp_all add: internal_shaped, auto simp: shaped_def tasks_done_def start_process_def split: if_splits)

lemma reachable_shaped: "reachable produce process threads s \<Longrightarrow> shaped threads s"
proof (induction rule: reachable.induct)
  case New
  show ?case by (simp add: shaped_def pool_new_def sync_queue_new_ok new_jobs)
qed (rule step_shaped)

section \<open>The flag and the data\<close>

lemma emergency_flag:
  "emergency_shutdown threads g s = (g', s') \<Longrightarrow>
     (g \<in> late_stages \<longrightarrow> m_worker_interrupt s) \<Longrightarrow>
     (g' \<in> late_stages \<longrightarrow> m_worker_interrupt s') \<and> (m_worker_interrupt s \<longrightarrow> m_worker_interrupt s') \<and>
     m_workers s' = m_workers s \<and> main_thread s' = main_thread s \<and> owner_thread s' = owner_thread s \<and>
     m_all_tasks_pushed s' = m_all_tasks_pushed s \<and> added s' = added s \<and> processed s' = processed s \<and>
     m_worker_exceptions s' = m_worker_exceptions s"
  by (cases g) (auto simp: late_stages_def shutdown_workers_def shutdown_main_thread_def split: if_splits)

lemma flagged_fields [simp]:
  "flagged (s\<lparr>m_active_threads := n\<rparr>) = flagged s"
  "flagged (s\<lparr>m_worker_exceptions := excs\<rparr>) = flagged s"
  "flagged (s\<lparr>m_worker_tasks := q\<rparr>) = flagged s"
  "flagged (s\<lparr>m_main_thread_tasks := r\<rparr>) = flagged s"
  "flagged (s\<lparr>m_async_state := st\<rparr>) = flagged s"
  "flagged (s\<lparr>added := ts\<rparr>) = flagged s"
  "flagged (s\<lparr>processed := tds\<rparr>) = flagged s"
  "flagged (shutdown_main_thread s) = flagged s"
  "flagged (shutdown_workers threads s) = flagged s"
  by (simp_all add: flagged_def stages_def shutdown_main_thread_def shutdown_workers_def)

lemma flagged_at_worker:
  assumes "flagged s" and "\<And>g. worker_stage w = Some g \<Longrightarrow> g \<in> late_stages \<Longrightarrow> m_worker_interrupt s"
  shows "flagged (at_worker i w s)"
  using assms set_update_subset_insert [of "m_workers s" i w]
  by (force simp: flagged_def stages_def at_worker_def)

lemma flagged_main:
  assumes "flagged s" and "\<And>g. main_stage m = Some g \<Longrightarrow> g \<in> late_stages \<Longrightarrow> m_worker_interrupt s"
  shows "flagged (s\<lparr>main_thread := m\<rparr>)"
  using assms by (force simp: flagged_def stages_def)

lemma flagged_owner:
  assumes "flagged s" and "\<And>g. owner_stage ow = Some g \<Longrightarrow> g \<in> late_stages \<Longrightarrow> m_worker_interrupt s"
  shows "flagged (s\<lparr>owner_thread := ow\<rparr>)"
  using assms by (force simp: flagged_def stages_def)

lemma emergency_flagged:
  assumes "flagged s" and "g \<in> stages s" and "emergency_shutdown threads g s = (g', s')"
  shows "flagged s' \<and> (g' \<in> late_stages \<longrightarrow> m_worker_interrupt s')"
proof -
  have "g \<in> late_stages \<longrightarrow> m_worker_interrupt s" using assms(1,2) by (auto simp: flagged_def)
  from emergency_flag [OF assms(3) this] assms(1) show ?thesis
    by (auto simp: flagged_def stages_def)
qed

lemma stages_nth:
  assumes "i < length (m_workers s)"
  shows "worker_stage (m_workers s ! i) = Some g \<Longrightarrow> g \<in> stages s"
  using imageI [OF nth_mem [OF assms], of worker_stage] by (simp add: stages_def)

lemma worker_flagged:
  assumes "flagged s" and "i < length (m_workers s)"
    and "worker_step produce threads i (m_workers s ! i) s = Some s'"
  shows "flagged s'"
  using assms
proof (cases "m_workers s ! i")
  case (WEmergency t g)
  with stages_nth [OF assms(2)] have "g \<in> stages s" by simp
  from emergency_flagged [OF assms(1) this, of threads] WEmergency assms(3) show ?thesis
    by (cases "emergency_shutdown threads g s") (auto intro!: flagged_at_worker simp: late_stages_def)
qed (auto intro!: flagged_at_worker simp: Let_def late_stages_def
    split: option.splits sum.splits if_splits)

lemma main_flagged:
  assumes "flagged s" and "main_step process threads (main_thread s) s = Some s'"
  shows "flagged s'"
  using assms
proof (cases "main_thread s")
  case (MKill e g)
  then have "g \<in> stages s" by (simp add: stages_def)
  from emergency_flagged [OF assms(1) this, of threads] MKill assms(2) show ?thesis
    by (cases "emergency_shutdown threads g s") (auto intro!: flagged_main simp: late_stages_def)
qed (auto intro!: flagged_main simp: late_stages_def split: option.splits sum.splits if_splits)

lemma owner_flagged:
  assumes "flagged s" and "owner_step threads s = Some s'"
  shows "flagged s'"
  using assms
proof (cases "owner_thread s")
  case (OTerminate g)
  then have "g \<in> stages s" by (simp add: stages_def)
  from emergency_flagged [OF assms(1) this, of threads] OTerminate assms(2) show ?thesis
    by (cases "emergency_shutdown threads g s")
      (auto intro!: flagged_owner simp: owner_step_def late_stages_def)
qed (auto simp: owner_step_def intro!: flagged_owner)

lemma step_flagged: "step produce process threads s s' \<Longrightarrow> flagged s \<Longrightarrow> flagged s'"
proof (induction rule: step.induct)
  case (Internal s s')
  from Internal.hyps show ?case
    by (cases rule: internal.cases)
      (rule worker_flagged main_flagged owner_flagged, (rule Internal.prems | assumption)+)+
next
  case (Tasks_done s s')
  have "flagged (s\<lparr>m_all_tasks_pushed := True\<rparr>)"
    using Tasks_done.prems by (simp add: flagged_def stages_def)
  with Tasks_done.hyps show ?case
    by (auto simp: tasks_done_def split: if_splits intro!: flagged_owner)
next
  case (Process s async)
  then show ?case by (auto simp: start_process_def intro!: flagged_main)
qed (auto simp: add_task_def late_stages_def split: if_splits intro!: flagged_owner)

lemma reachable_flagged: "reachable produce process threads s \<Longrightarrow> flagged s"
proof (induction rule: reachable.induct)
  case New
  show ?case by (auto simp: flagged_def stages_def pool_new_def)
qed (rule step_flagged)

lemma travelling_fields [simp]:
  "travelling (s\<lparr>m_active_threads := n\<rparr>) = travelling s"
  "travelling (s\<lparr>m_worker_exceptions := excs\<rparr>) = travelling s"
  "travelling (s\<lparr>m_worker_tasks := q\<rparr>) = travelling s"
  "travelling (s\<lparr>m_async_state := st\<rparr>) = travelling s"
  "travelling (s\<lparr>added := ts\<rparr>) = travelling s"
  "travelling (s\<lparr>m_worker_interrupt := b\<rparr>) = travelling s"
  "travelling (s\<lparr>m_all_tasks_pushed := b\<rparr>) = travelling s"
  "travelling (s\<lparr>owner_thread := ow\<rparr>) = travelling s"
  "travelling (shutdown_workers threads s) = travelling s"
  by (simp_all add: travelling_def shutdown_workers_def)

lemma travelling_shutdown:
  "shaped threads s \<Longrightarrow> travelling (shutdown_main_thread s) = travelling s"
  using shutdown_facts [of "m_main_thread_tasks s" None 1]
  by (simp add: travelling_def shutdown_main_thread_def shaped_def)

lemma travelling_emergency:
  assumes "shaped threads s" and "emergency_shutdown threads g s = (g', s')"
  shows "travelling s' = travelling s"
  using assms by (cases g) (auto simp: travelling_shutdown)

lemma travelling_at_worker:
  "travelling (at_worker i w s) \<subseteq> travelling s \<union> {x. worker_data w = Some x}"
  using set_update_subset_insert [of "m_workers s" i w] by (force simp: travelling_def at_worker_def)

lemma travelling_main:
  "travelling (s\<lparr>main_thread := m\<rparr>) \<subseteq> travelling s \<union> {x. main_data m = Some x}"
  by (auto simp: travelling_def)

lemma produced_subset:
  "produced produce s \<Longrightarrow> travelling s' \<subseteq> travelling s \<union> {(t, d). produce t = Inr d} \<Longrightarrow> produced produce s'"
  by (auto simp: produced_def)

lemma worker_produced:
  assumes sh: "shaped threads s" and i: "i < length (m_workers s)"
    and st: "worker_step produce threads i (m_workers s ! i) s = Some s'"
  shows "travelling s' \<subseteq> travelling s \<union> {(t, d). produce t = Inr d}"
  using st
proof (cases "m_workers s ! i")
  case (WEmergency t g)
  with st travelling_emergency [OF sh, of g] travelling_at_worker [of i _ "snd (emergency_shutdown threads g s)"]
  show ?thesis by (cases "emergency_shutdown threads g s") (fastforce split: if_splits)
next
  case WStop_main
  with st travelling_at_worker [of i WExit "shutdown_main_thread s"] travelling_shutdown [OF sh]
  show ?thesis by auto
next
  case (WPush t d)
  have "Some (t, d) \<in> worker_data ` set (m_workers s)"
    using imageI [OF nth_mem [OF i], of worker_data] WPush by simp
  then have "(t, d) \<in> travelling s" by (simp add: travelling_def)
  moreover have "travelling (s\<lparr>m_main_thread_tasks := push (Some (t, d)) MEDIUM (m_main_thread_tasks s)\<rparr>)
      \<subseteq> insert (t, d) (travelling s)"
    using sh push_jobs [of "m_main_thread_tasks s"] by (auto simp: travelling_def shaped_def)
  ultimately show ?thesis
    using st WPush travelling_at_worker [of i WPushed] by fastforce
next
  case (WProduce t)
  with st travelling_at_worker [of i _ s] show ?thesis
    by (fastforce split: sum.splits)
next
  case WPop
  with st obtain x q where "s' = at_worker i (WGot x) (s\<lparr>m_worker_tasks := q\<rparr>)"
    by (auto split: option.splits sum.splits)
  with travelling_at_worker [of i "WGot x" "s\<lparr>m_worker_tasks := q\<rparr>"] show ?thesis by auto
qed (auto simp: Let_def dest!: subsetD [OF travelling_at_worker] split: option.splits if_splits)

lemma main_produced:
  assumes sh: "shaped threads s" and st: "main_step process threads (main_thread s) s = Some s'"
  shows "travelling s' \<subseteq> travelling s"
  using st
proof (cases "main_thread s")
  case MPop
  with st obtain x q where x: "pop (m_main_thread_tasks s) = Some (Inr (x, q))"
    and s': "s' = s\<lparr>m_main_thread_tasks := q, main_thread := MGot x\<rparr>"
    by (auto split: option.splits sum.splits)
  from pop_shaped [OF _ _ _ x] sh show ?thesis
    by (cases x) (auto simp: s' shaped_def travelling_def)
next
  case (MKill e g)
  with st travelling_emergency [OF sh, of g]
    travelling_main [of _ "snd (emergency_shutdown threads g s)"]
  show ?thesis by (cases "emergency_shutdown threads g s") (fastforce split: if_splits)
qed (auto simp: travelling_def split: option.splits if_splits)

lemma owner_produced:
  assumes "shaped threads s" and "owner_step threads s = Some s'"
  shows "travelling s' = travelling s"
  using assms travelling_emergency [OF assms(1)]
  by (auto simp: owner_step_def split: owner.splits prod.splits)

lemma step_produced:
  assumes "step produce process threads s s'" and "shaped threads s" and "produced produce s"
  shows "produced produce s'"
  using assms
proof (induction rule: step.induct)
  case (Internal s s')
  from Internal.hyps have "travelling s' \<subseteq> travelling s \<union> {(t, d). produce t = Inr d}"
  proof (cases rule: internal.cases)
    case (Worker i)
    then show ?thesis using worker_produced Internal.prems(1) by blast
  next
    case Main
    then show ?thesis using main_produced [OF Internal.prems(1)] by blast
  next
    case Owner
    then show ?thesis using owner_produced [OF Internal.prems(1)] by blast
  qed
  with Internal.prems(2) show ?case by (rule produced_subset)
next
  case (Process s async)
  then show ?case
    using travelling_main [of MPop "s\<lparr>m_async_state := (if async then PRODUCING else m_async_state s)\<rparr>"]
    by (auto simp: start_process_def produced_def)
qed (auto simp: add_task_def tasks_done_def produced_def split: if_splits)

lemma reachable_produced: "reachable produce process threads s \<Longrightarrow> produced produce s"
proof (induction rule: reachable.induct)
  case New
  show ?case by (auto simp: produced_def travelling_def pool_new_def new_jobs)
qed (auto intro: step_produced reachable_shaped)

section \<open>The flow of the tasks\<close>

lemma counted_pop:
  assumes sh: "shaped threads s" and fl: "counted threads s" and i: "i < length (m_workers s)"
    and w: "m_workers s ! i = WPop" and x: "pop (m_worker_tasks s) = Some (Inr (x, q))"
  shows "counted threads (at_worker i (WGot x) (s\<lparr>m_worker_tasks := q\<rparr>))"
proof -
  note ws = wsum_nth [OF i] wsum_update [OF i]
  from pop_shaped [OF _ _ _ x] sh fl i show ?thesis
    by (cases x) (simp_all add: counted_def shaped_def at_worker_def ws w stopped_def)
qed

lemma emergency_calm:
  assumes "flagged s" and "g \<in> stages s" and "emergency_shutdown threads g s = (g', s')"
    and "\<not> m_worker_interrupt s'"
  shows "g = ETest \<and> g' = ESet_interrupt \<and> s' = s"
proof -
  have late: "g \<in> late_stages \<longrightarrow> m_worker_interrupt s" using assms(1,2) by (auto simp: flagged_def)
  with emergency_flag [OF assms(3) late] assms(4) have "g \<notin> late_stages" by auto
  then show ?thesis using assms(3,4) by (cases g) (auto simp: late_stages_def split: if_splits)
qed

lemma worker_calm:
  assumes "flagged s" and "i < length (m_workers s)"
    and "worker_step produce threads i (m_workers s ! i) s = Some s'" and "\<not> m_worker_interrupt s'"
  shows "\<not> m_worker_interrupt s \<and>
    (\<forall>t g. m_workers s ! i = WEmergency t g \<longrightarrow> s' = at_worker i (WEmergency t ESet_interrupt) s)"
proof (cases "\<exists>t g. m_workers s ! i = WEmergency t g")
  case True
  then obtain t g where w: "m_workers s ! i = WEmergency t g" by blast
  obtain g' s1 where e: "emergency_shutdown threads g s = (g', s1)" by fastforce
  have "g \<in> stages s" using stages_nth [OF assms(2)] w by simp
  moreover have "\<not> m_worker_interrupt s1"
    using assms(3,4) w e by (auto simp: at_worker_def split: if_splits)
  ultimately have "g = ETest \<and> g' = ESet_interrupt \<and> s1 = s"
    by (rule emergency_calm [OF assms(1) _ e])
  with assms(3,4) w e show ?thesis by (auto simp: at_worker_def)
next
  case False
  with assms(3,4) show ?thesis
    by (cases "m_workers s ! i")
      (auto simp: at_worker_def Let_def shutdown_main_thread_def split: option.splits sum.splits if_splits)
qed

lemma worker_counted:
  assumes sh: "shaped threads s" and fl: "counted threads s" and i: "i < length (m_workers s)"
    and flag: "flagged s"
    and st: "worker_step produce threads i (m_workers s ! i) s = Some s'" and calm: "\<not> m_worker_interrupt s'"
  shows "counted threads s'"
proof -
  note ws = wsum_nth [OF i] wsum_update [OF i]
  have calm': "\<not> m_worker_interrupt s" using worker_calm [OF flag i st calm] by simp
  show ?thesis
    using st fl calm'
  proof (cases "m_workers s ! i")
    case WPop
    with st obtain x q where x: "pop (m_worker_tasks s) = Some (Inr (x, q))"
      and s': "s' = at_worker i (WGot x) (s\<lparr>m_worker_tasks := q\<rparr>)"
      by (auto split: option.splits sum.splits)
    show ?thesis unfolding s' by (rule counted_pop [OF sh fl i WPop x])
  next
    case (WGot x)
    with st calm' fl show ?thesis
      by (cases x) (auto simp: counted_def at_worker_def ws stopped_def)
  next
    case (WPush t d)
    with st fl sh push_jobs [of "m_main_thread_tasks s"] show ?thesis
      by (auto simp: counted_def at_worker_def ws stopped_def shaped_def)
  next
    case WDecrement
    with st fl show ?thesis
      by (auto simp: counted_def at_worker_def ws stopped_def Let_def split: if_splits)
  next
    case WStop_main
    with st fl sh shutdown_facts [of "m_main_thread_tasks s" None 1] show ?thesis
      by (auto simp: counted_def at_worker_def ws stopped_def shaped_def shutdown_main_thread_def)
  next
    case (WEmergency t g)
    with worker_calm [OF flag i st calm] fl show ?thesis
      by (auto simp: counted_def at_worker_def ws stopped_def)
  qed (auto simp: counted_def at_worker_def ws stopped_def split: sum.splits)
qed

lemma worker_drained:
  assumes sh: "shaped threads s" and co: "counted threads s" and fl: "drained s"
    and i: "i < length (m_workers s)" and flag: "flagged s"
    and st: "worker_step produce threads i (m_workers s ! i) s = Some s'" and calm: "\<not> m_worker_interrupt s'"
  shows "drained s'"
proof -
  note ws = wsum_nth [OF i] wsum_update [OF i]
  have calm': "\<not> m_worker_interrupt s" using worker_calm [OF flag i st calm] by simp
  show ?thesis
    using st fl calm'
  proof (cases "m_workers s ! i")
    case WPop
    with st obtain x q where x: "pop (m_worker_tasks s) = Some (Inr (x, q))"
      and s': "s' = at_worker i (WGot x) (s\<lparr>m_worker_tasks := q\<rparr>)"
      by (auto split: option.splits sum.splits)
    from pop_shaped [OF _ _ _ x] sh fl WPop show ?thesis
      by (cases x) (auto simp: s' drained_def at_worker_def ws shaped_def)
  next
    case (WGot x)
    with st calm' fl show ?thesis
      by (cases x) (auto simp: drained_def at_worker_def ws)
  next
    case (WPush t d)
    then have "main_took_guard (main_thread s) = 0" using co by (simp add: counted_def ws)
    with st fl WPush show ?thesis by (auto simp: drained_def at_worker_def ws)
  next
    case WStop_main
    with st fl sh shutdown_facts [of "m_main_thread_tasks s" None 1] show ?thesis
      by (auto simp: drained_def at_worker_def ws shaped_def shutdown_main_thread_def)
  next
    case (WEmergency t g)
    with worker_calm [OF flag i st calm] fl show ?thesis
      by (auto simp: drained_def at_worker_def ws)
  qed (auto simp: drained_def at_worker_def ws Let_def split: sum.splits if_splits)
qed

lemma waiting_push:
  "queue_ok q \<Longrightarrow> waiting (push (Some x) p q) = add_mset x (waiting q)"
  by (simp add: waiting_def push_jobs)

lemma waiting_shutdown: "queue_ok q \<Longrightarrow> waiting (shutdown None (int n) q) = waiting q"
  by (simp add: waiting_def shutdown_facts)

lemma waiting_pop:
  assumes "queue_ok q" and "None \<notin># queue_jobs q" and "set (queue_guards q) \<subseteq> {None}"
    and "pop q = Some (Inr (x, q'))"
  shows "waiting q = (case x of None \<Rightarrow> {#} | Some y \<Rightarrow> {#y#}) + waiting q'"
  using pop_shaped [OF assms] by (cases x) (auto simp: waiting_def)

lemma worker_conserved:
  assumes sh: "shaped threads s" and fl: "conserved s" and i: "i < length (m_workers s)" and flag: "flagged s"
    and st: "worker_step produce threads i (m_workers s ! i) s = Some s'" and calm: "\<not> m_worker_interrupt s'"
  shows "conserved s'"
proof -
  note ws = wsum_nth [OF i] wsum_update [OF i]
  have calm': "\<not> m_worker_interrupt s" using worker_calm [OF flag i st calm] by simp
  show ?thesis
    using st fl calm'
  proof (cases "m_workers s ! i")
    case WPop
    with st obtain x q where x: "pop (m_worker_tasks s) = Some (Inr (x, q))"
      and s': "s' = at_worker i (WGot x) (s\<lparr>m_worker_tasks := q\<rparr>)"
      by (auto split: option.splits sum.splits)
    from waiting_pop [OF _ _ _ x] sh fl WPop show ?thesis
      by (cases x) (simp_all add: s' conserved_def at_worker_def ws shaped_def)
  next
    case (WGot x)
    with st calm' fl show ?thesis
      by (cases x) (auto simp: conserved_def at_worker_def ws)
  next
    case (WPush t d)
    with st fl sh waiting_push [of "m_main_thread_tasks s"] show ?thesis
      by (auto simp: conserved_def at_worker_def ws shaped_def)
  next
    case WStop_main
    with st fl sh waiting_shutdown [of "m_main_thread_tasks s" 1] show ?thesis
      by (auto simp: conserved_def at_worker_def ws shaped_def shutdown_main_thread_def)
  next
    case (WEmergency t g)
    with worker_calm [OF flag i st calm] fl show ?thesis
      by (auto simp: conserved_def at_worker_def ws)
  qed (auto simp: conserved_def at_worker_def ws Let_def split: sum.splits if_splits)
qed

lemma is_emergency_simp [simp]: "is_emergency (WEmergency t g)"
  by (simp add: is_emergency_def)

lemma reported_at_worker:
  assumes "reported s" and "length (m_worker_exceptions s) = length (m_workers s)"
    and "m_worker_exceptions s ! i = None \<or> is_emergency w"
  shows "reported (at_worker i w s)"
  unfolding reported_def
proof (intro allI impI)
  fix j assume "j < length (m_workers (at_worker i w s))"
  then show "m_worker_exceptions (at_worker i w s) ! j = None \<or> is_emergency (m_workers (at_worker i w s) ! j)"
    using assms by (cases "j = i") (auto simp: reported_def at_worker_def)
qed

lemma reported_fields [simp]:
  "reported (s\<lparr>m_active_threads := n\<rparr>) = reported s"
  "reported (s\<lparr>m_worker_tasks := q\<rparr>) = reported s"
  "reported (s\<lparr>m_main_thread_tasks := r\<rparr>) = reported s"
  "reported (s\<lparr>m_async_state := st\<rparr>) = reported s"
  "reported (shutdown_main_thread s) = reported s"
  by (simp_all add: reported_def shutdown_main_thread_def)

lemma worker_reported:
  assumes sh: "shaped threads s" and fl: "reported s" and i: "i < length (m_workers s)" and flag: "flagged s"
    and st: "worker_step produce threads i (m_workers s ! i) s = Some s'" and calm: "\<not> m_worker_interrupt s'"
  shows "reported s'"
proof -
  have exc: "m_worker_exceptions s ! i = None \<or> is_emergency (m_workers s ! i)"
    using fl i by (simp add: reported_def)
  have len: "length (m_worker_exceptions s) = length (m_workers s)" using sh by (simp add: shaped_def)
  show ?thesis
    using st fl exc len
  proof (cases "m_workers s ! i")
    case (WEmergency t g)
    with worker_calm [OF flag i st calm] fl len show ?thesis
      by (auto intro!: reported_at_worker simp: is_emergency_def)
  next
    case (WCatch t e)
    then have s': "s' = at_worker i (WEmergency t ETest)
        (s\<lparr>m_worker_exceptions := (m_worker_exceptions s)[i := Some e]\<rparr>)" using st by simp
    have "m_worker_exceptions s' ! j = None \<or> is_emergency (m_workers s' ! j)"
      if "j < length (m_workers s)" for j
      using fl that len i by (cases "j = i") (simp_all add: s' reported_def at_worker_def)
    then show ?thesis by (simp add: s' reported_def at_worker_def)
  qed (auto intro!: reported_at_worker simp: is_emergency_def Let_def shutdown_main_thread_def
      split: sum.splits option.splits if_splits)
qed

lemma worker_flowing:
  assumes "shaped threads s" and "flagged s" and "flowing threads s" and "i < length (m_workers s)"
    and "worker_step produce threads i (m_workers s ! i) s = Some s'" and "\<not> m_worker_interrupt s'"
  shows "flowing threads s'"
proof -
  have "main_thread s' = main_thread s"
  proof (cases "\<exists>t g. m_workers s ! i = WEmergency t g")
    case True
    with worker_calm [OF assms(2,4-6)] show ?thesis by (auto simp: at_worker_def)
  next
    case False
    with assms(5) show ?thesis
      by (cases "m_workers s ! i")
        (auto simp: at_worker_def Let_def shutdown_main_thread_def split: option.splits sum.splits)
  qed
  then show ?thesis
    using assms worker_counted [of threads s i produce s'] worker_drained [of threads s i produce s']
      worker_conserved [of threads s i produce s'] worker_reported [of threads s i produce s']
    by (auto simp: flowing_def)
qed

lemma main_calm:
  assumes "flagged s" and "main_step process threads (main_thread s) s = Some s'"
    and "\<not> m_worker_interrupt s'"
  shows "\<not> m_worker_interrupt s \<and>
    (\<forall>e g. main_thread s = MKill e g \<longrightarrow> s' = s\<lparr>main_thread := MKill e ESet_interrupt\<rparr>)"
proof (cases "\<exists>e g. main_thread s = MKill e g")
  case True
  then obtain e g where m: "main_thread s = MKill e g" by blast
  obtain g' s1 where em: "emergency_shutdown threads g s = (g', s1)" by fastforce
  have "g \<in> stages s" using m by (simp add: stages_def)
  moreover have "\<not> m_worker_interrupt s1" using assms(2,3) m em by (auto split: if_splits)
  ultimately have "g = ETest \<and> g' = ESet_interrupt \<and> s1 = s"
    by (rule emergency_calm [OF assms(1) _ em])
  with assms(2,3) m em show ?thesis by auto
next
  case False
  with assms(2,3) show ?thesis
    by (cases "main_thread s") (auto split: option.splits sum.splits if_splits)
qed

lemma flowing_main:
  assumes "flowing threads s" and "main_took_guard m = main_took_guard (main_thread s)"
    and "is_kill m \<or> \<not> is_kill (main_thread s) \<and> main_held m = main_held (main_thread s)"
  shows "flowing threads (s\<lparr>main_thread := m\<rparr>)"
proof -
  have "counted threads (s\<lparr>main_thread := m\<rparr>)" "drained (s\<lparr>main_thread := m\<rparr>)"
    using assms(1,2) by (simp_all add: flowing_def counted_def drained_def stopped_def)
  moreover have "reported (s\<lparr>main_thread := m\<rparr>)"
    using assms(1) by (simp add: flowing_def reported_def)
  moreover have "is_kill m \<or> conserved (s\<lparr>main_thread := m\<rparr>)"
    using assms(1,3) by (auto simp: flowing_def conserved_def)
  ultimately show ?thesis by (simp add: flowing_def)
qed

lemma flowing_state [simp]: "flowing threads (s\<lparr>m_async_state := st\<rparr>) = flowing threads s"
  by (simp add: flowing_def counted_def drained_def conserved_def reported_def stopped_def)

lemma main_flowing_pop:
  assumes sh: "shaped threads s" and fl: "flowing threads s" and m: "main_thread s = MPop"
    and x: "pop (m_main_thread_tasks s) = Some (Inr (x, q))"
  shows "flowing threads (s\<lparr>m_main_thread_tasks := q, main_thread := MGot x\<rparr>)"
    (is "flowing threads ?s'")
proof -
  have ok: "queue_ok (m_main_thread_tasks s)" "None \<notin># queue_jobs (m_main_thread_tasks s)"
    "set (queue_guards (m_main_thread_tasks s)) \<subseteq> {None}" using sh by (simp_all add: shaped_def)
  have "counted threads ?s'"
    using pop_shaped [OF ok x] fl m by (cases x) (simp_all add: flowing_def counted_def stopped_def)
  moreover have "drained ?s'"
    using pop_shaped [OF ok x] fl m by (cases x) (auto simp: flowing_def drained_def)
  moreover have "conserved ?s'"
    using waiting_pop [OF ok x] fl m by (cases x) (auto simp: flowing_def conserved_def is_kill_def)
  moreover have "reported ?s'" using fl by (simp add: flowing_def reported_def)
  ultimately show ?thesis by (simp add: flowing_def)
qed

lemma main_flowing_task:
  assumes fl: "flowing threads s" and m: "main_thread s = MTask t d"
  shows "flowing threads (s\<lparr>main_thread := MRan, processed := processed s @ [(t, d)]\<rparr>)"
    (is "flowing threads ?s'")
proof -
  have "counted threads ?s'" "drained ?s'"
    using fl m by (simp_all add: flowing_def counted_def drained_def stopped_def)
  moreover have "conserved ?s'" using fl m by (simp add: flowing_def conserved_def is_kill_def)
  moreover have "reported ?s'" using fl by (simp add: flowing_def reported_def)
  ultimately show ?thesis by (simp add: flowing_def)
qed

lemma main_flowing:
  assumes sh: "shaped threads s" and flag: "flagged s" and fl: "flowing threads s"
    and st: "main_step process threads (main_thread s) s = Some s'" and calm: "\<not> m_worker_interrupt s'"
  shows "flowing threads s'"
proof -
  have calm': "\<not> m_worker_interrupt s" using main_calm [OF flag st calm] by simp
  show ?thesis
    using st fl calm'
  proof (cases "main_thread s")
    case MPop
    with st main_flowing_pop [OF sh fl MPop] show ?thesis
      by (auto split: option.splits sum.splits)
  next
    case (MKill e g)
    with main_calm [OF flag st calm] fl show ?thesis
      by (auto intro!: flowing_main simp: is_kill_def)
  next
    case (MTask t d)
    with st fl main_flowing_task [OF fl MTask] show ?thesis
      by (auto intro!: flowing_main simp: is_kill_def split: option.splits)
  next
    case (MGot x)
    with st calm' fl show ?thesis
      by (cases x) (auto intro!: flowing_main simp: is_kill_def)
  qed (auto intro!: flowing_main simp: is_kill_def split: option.splits if_splits)
qed

lemma flowing_owner:
  assumes "flowing threads s" and "(ow = OStop_workers) = (owner_thread s = OStop_workers)"
  shows "flowing threads (s\<lparr>owner_thread := ow\<rparr>)"
  using assms by (simp add: flowing_def counted_def drained_def conserved_def reported_def stopped_def)

lemma flowing_stop_workers:
  assumes sh: "shaped threads s" and fl: "flowing threads s" and ow: "owner_thread s = OStop_workers"
  shows "flowing threads (shutdown_workers threads s\<lparr>owner_thread := OIdle\<rparr>)"
    (is "flowing threads ?s'")
proof -
  note facts = shutdown_facts [of "m_worker_tasks s" None threads]
  have "counted threads ?s'" "drained ?s'"
    using fl sh facts ow
    by (simp_all add: flowing_def counted_def drained_def stopped_def shutdown_workers_def shaped_def)
  moreover have "is_kill (main_thread s) \<or> conserved ?s'"
    using fl sh waiting_shutdown [of "m_worker_tasks s" threads]
    by (auto simp: flowing_def conserved_def shaped_def shutdown_workers_def)
  moreover have "reported ?s'" using fl by (simp add: flowing_def reported_def shutdown_workers_def)
  ultimately show ?thesis by (simp add: flowing_def shutdown_workers_def)
qed

lemma owner_flowing:
  assumes sh: "shaped threads s" and flag: "flagged s" and fl: "flowing threads s"
    and st: "owner_step threads s = Some s'" and calm: "\<not> m_worker_interrupt s'"
  shows "flowing threads s'"
  using st
proof (cases "owner_thread s")
  case OStop_workers
  with st flowing_stop_workers [OF sh fl] show ?thesis by (simp add: owner_step_def)
next
  case (OTerminate g)
  obtain g' s1 where e: "emergency_shutdown threads g s = (g', s1)" by fastforce
  have "\<not> m_worker_interrupt s1" using st calm OTerminate e by (auto simp: owner_step_def split: if_splits)
  with emergency_calm [OF flag _ e] have "g' = ESet_interrupt \<and> s1 = s"
    using OTerminate by (simp add: stages_def)
  then show ?thesis
    using st OTerminate e fl by (auto simp: owner_step_def intro!: flowing_owner)
qed (simp add: owner_step_def)

lemma step_interrupt: "step produce process threads s s' \<Longrightarrow> m_worker_interrupt s \<Longrightarrow> m_worker_interrupt s'"
proof (induction rule: step.induct)
  case (Internal s s')
  have em: "m_worker_interrupt s1" if "emergency_shutdown threads g s = (g', s1)" for g g' s1
    using that Internal.prems by (cases g) (auto simp: shutdown_workers_def shutdown_main_thread_def)
  from Internal.hyps show ?case
  proof (cases rule: internal.cases)
    case (Worker i)
    then show ?thesis
      using Internal.prems
      by (cases "m_workers s ! i")
        (auto simp: at_worker_def Let_def shutdown_main_thread_def dest: em
          split: option.splits sum.splits prod.splits)
  next
    case Main
    then show ?thesis
      using Internal.prems
      by (cases "main_thread s") (auto dest: em split: option.splits sum.splits prod.splits if_splits)
  next
    case Owner
    then show ?thesis
      using Internal.prems
      by (auto simp: owner_step_def shutdown_workers_def dest: em split: owner.splits prod.splits)
  qed
qed (auto simp: add_task_def tasks_done_def start_process_def split: if_splits)

lemma flowing_add_task:
  assumes sh: "shaped threads s" and fl: "flowing threads s" and add: "add_task t p s = Inr s'"
  shows "flowing threads s'"
proof -
  have s': "s' = s\<lparr>m_worker_tasks := push (Some t) p (m_worker_tasks s), added := added s @ [t]\<rparr>"
    and np: "\<not> m_all_tasks_pushed s" using add by (auto simp: add_task_def split: if_splits)
  have ok: "queue_ok (m_worker_tasks s)" using sh by (simp add: shaped_def)
  have "counted threads s'"
    using fl push_jobs [OF ok] by (simp add: s' flowing_def counted_def stopped_def)
  moreover have "drained s'"
    using fl np by (simp add: s' flowing_def counted_def drained_def stopped_def)
  moreover have "is_kill (main_thread s) \<or> conserved s'"
    using fl waiting_push [OF ok] by (auto simp: s' flowing_def conserved_def)
  moreover have "reported s'" using fl by (simp add: s' flowing_def reported_def)
  ultimately show ?thesis by (simp add: flowing_def s')
qed

lemma step_flowing:
  assumes "step produce process threads s s'" and "shaped threads s" and "flagged s"
    and "flowing threads s" and "\<not> m_worker_interrupt s'"
  shows "flowing threads s'"
  using assms
proof (induction rule: step.induct)
  case (Internal s s')
  from Internal.hyps show ?case
    by (cases rule: internal.cases)
      (rule worker_flowing main_flowing owner_flowing, (rule Internal.prems | assumption)+)+
next
  case (Add_task s t p s')
  show ?case by (rule flowing_add_task [OF Add_task.prems(1,3) Add_task.hyps(2)])
next
  case (Tasks_done s s')
  then show ?case
    by (auto simp: tasks_done_def flowing_def counted_def drained_def conserved_def reported_def stopped_def
        split: if_splits)
next
  case (Terminate s)
  then show ?case by (auto intro!: flowing_owner)
next
  case (Process s async)
  then show ?case by (auto simp: start_process_def is_kill_def intro!: flowing_main)
qed

lemma wsum_replicate: "wsum f (replicate n w) = (\<Sum>_ \<leftarrow> replicate n w. f w)"
  by (induction n) (simp_all add: wsum_def)

lemma flowing_new: "0 < threads \<Longrightarrow> flowing threads (pool_new threads)"
  by (auto simp: flowing_def counted_def drained_def conserved_def reported_def stopped_def pool_new_def
      new_jobs waiting_def wsum_replicate sum_list_replicate)

lemma reachable_flowing:
  "reachable produce process threads s \<Longrightarrow> 0 < threads \<Longrightarrow> m_worker_interrupt s \<or> flowing threads s"
proof (induction rule: reachable.induct)
  case (Step s s')
  then show ?case
    using step_flowing [OF Step.hyps(2) reachable_shaped [OF Step.hyps(1)] reachable_flagged [OF Step.hyps(1)]]
      step_interrupt [OF Step.hyps(2)] by blast
qed (simp add: flowing_new)

end
