(* ===== verification/Thread_Pool_Facts.thy ===== *)
theory Thread_Pool_Facts
  imports Thread_Pool_Inv
begin

text \<open>
  What the thread pool promises: every task added is processed once, a stored exception keeps it from returning normally, and
  \<open>process()\<close> returns once the tasks are done or the pool is terminated.
\<close>

section \<open>Definitions\<close>

fun finished :: "('t, 'd) main \<Rightarrow> bool" where
  "finished MReturn = True"
| "finished (MThrow e) = True"
| "finished _ = False"

fun past_loop :: "('t, 'd) main \<Rightarrow> bool" where
  "past_loop MSet_done = True"
| "past_loop (MJoin exc) = True"
| "past_loop MReturn = True"
| "past_loop (MThrow e) = True"
| "past_loop _ = False"

definition all_processed :: "('t, 'd) pool \<Rightarrow> bool" where
  "all_processed s \<longleftrightarrow> mset (map fst (processed s)) = mset (added s)"

definition done_ok :: "('t, 'd) pool \<Rightarrow> bool" where
  "done_ok s \<longleftrightarrow>
     (main_thread s = MSet_done \<or> m_async_state s = DONE \<longrightarrow>
        m_all_tasks_pushed s \<and> all_processed s \<and> past_loop (main_thread s))"

text \<open>Where an exception of the pool comes from.\<close>

definition thrown :: "('t \<Rightarrow> 'd res) \<Rightarrow> ('t \<Rightarrow> 'd \<Rightarrow> exn option) \<Rightarrow> exn set" where
  "thrown produce process = {e. (\<exists>t. produce t = Inl e) \<or> (\<exists>t d. process t d = Some e)}"

fun worker_exn :: "('t, 'd) worker \<Rightarrow> exn option" where
  "worker_exn (WCatch t e) = Some e"
| "worker_exn _ = None"

fun main_exn :: "('t, 'd) main \<Rightarrow> exn option" where
  "main_exn (MKill e g) = Some e"
| "main_exn (MJoin exc) = exc"
| "main_exn (MThrow e) = Some e"
| "main_exn _ = None"

definition known_exns :: "('t, 'd) pool \<Rightarrow> exn set" where
  "known_exns s = {e. Some e \<in> worker_exn ` set (m_workers s)} \<union> {e. Some e \<in> set (m_worker_exceptions s)} \<union>
     {e. main_exn (main_thread s) = Some e}"

definition returned_ok :: "('t, 'd) pool \<Rightarrow> bool" where
  "returned_ok s \<longleftrightarrow>
     (main_thread s = MReturn \<longrightarrow> set (m_workers s) \<subseteq> {WExit} \<and> set (m_worker_exceptions s) \<subseteq> {None})"

text \<open>The workers that may still wait for a task after the flag is set, and the guards that wake them up.\<close>

fun may_pop :: "('t, 'd) worker \<Rightarrow> nat" where
  "may_pop WSpawn = 1"
| "may_pop WPop = 1"
| "may_pop (WProduce t) = 1"
| "may_pop (WPush t d) = 1"
| "may_pop WPushed = 1"
| "may_pop _ = 0"

fun main_may_pop :: "('t, 'd) main \<Rightarrow> bool" where
  "main_may_pop MStart = True"
| "main_may_pop MPop = True"
| "main_may_pop _ = False"

definition workers_woken :: "('t, 'd) pool \<Rightarrow> bool" where
  "workers_woken s \<longleftrightarrow> ESet_state \<in> stages s \<or> EStop_workers \<in> stages s \<or>
     wsum may_pop (m_workers s) \<le> length (queue_guards (m_worker_tasks s))"

definition main_woken :: "('t, 'd) pool \<Rightarrow> bool" where
  "main_woken s \<longleftrightarrow> ESet_state \<in> stages s \<or> EStop_workers \<in> stages s \<or> EStop_main \<in> stages s \<or>
     \<not> main_may_pop (main_thread s) \<or> queue_guards (m_main_thread_tasks s) \<noteq> []"

definition woken :: "('t, 'd) pool \<Rightarrow> bool" where
  "woken s \<longleftrightarrow> (m_worker_interrupt s \<longrightarrow> workers_woken s \<and> main_woken s)"

text \<open>A bound on the steps that are left: a weight for each waiting value and each statement.\<close>

definition stop_work :: "nat \<Rightarrow> nat" where
  "stop_work threads = threads * 9 + 4"

fun emergency_work :: "nat \<Rightarrow> emergency \<Rightarrow> nat" where
  "emergency_work threads ETest = stop_work threads + 6"
| "emergency_work threads ESet_interrupt = stop_work threads + 5"
| "emergency_work threads ESet_state = stop_work threads + 4"
| "emergency_work threads EStop_workers = stop_work threads + 3"
| "emergency_work threads EStop_main = 6"
| "emergency_work threads EReturn = 1"

fun worker_work :: "nat \<Rightarrow> ('t, 'd) worker \<Rightarrow> nat" where
  "worker_work threads WSpawn = stop_work threads + 12"
| "worker_work threads WPop = stop_work threads + 11"
| "worker_work threads (WGot task) = stop_work threads + 19"
| "worker_work threads (WProduce t) = stop_work threads + 18"
| "worker_work threads (WPush t d) = stop_work threads + 17"
| "worker_work threads WPushed = stop_work threads + 12"
| "worker_work threads WDecrement = 8"
| "worker_work threads WSet_processing = 7"
| "worker_work threads WStop_main = 6"
| "worker_work threads (WCatch t e) = stop_work threads + 8"
| "worker_work threads (WEmergency t g) = emergency_work threads g"
| "worker_work threads WExit = 0"

fun main_work :: "nat \<Rightarrow> ('t, 'd) main \<Rightarrow> nat" where
  "main_work threads MStart = 0"
| "main_work threads MPop = stop_work threads + 11"
| "main_work threads (MGot task) = stop_work threads + 14"
| "main_work threads (MTask t d) = stop_work threads + 13"
| "main_work threads MRan = stop_work threads + 12"
| "main_work threads MLoop_end = 5"
| "main_work threads MSet_done = 4"
| "main_work threads (MKill e g) = emergency_work threads g + 2"
| "main_work threads (MJoin exc) = 2"
| "main_work threads MReturn = 0"
| "main_work threads (MThrow e) = 0"

fun owner_work :: "nat \<Rightarrow> owner \<Rightarrow> nat" where
  "owner_work threads OIdle = 0"
| "owner_work threads OStop_workers = threads * 9 + 1"
| "owner_work threads (OTerminate g) = emergency_work threads g"

definition pool_work :: "nat \<Rightarrow> ('t, 'd) pool \<Rightarrow> nat" where
  "pool_work threads s = 9 * m_size (m_worker_tasks s) + 4 * m_size (m_main_thread_tasks s) +
     wsum (worker_work threads) (m_workers s) + main_work threads (main_thread s) +
     owner_work threads (owner_thread s)"

text \<open>\<open>tasks_done()\<close> or \<open>terminate()\<close> was called, and \<open>process()\<close> was.\<close>

definition closing :: "('t, 'd) pool \<Rightarrow> bool" where
  "closing s \<longleftrightarrow> (m_all_tasks_pushed s \<or> m_worker_interrupt s) \<and> main_thread s \<noteq> MStart"

text \<open>Runs by a schedule, to evaluate the pool.\<close>

datatype 't turn = Turn_worker nat | Turn_main | Turn_owner | Call_add 't Queue_priority | Call_done | Call_process

fun take_turn :: "('t \<Rightarrow> 'd res) \<Rightarrow> ('t \<Rightarrow> 'd \<Rightarrow> exn option) \<Rightarrow> nat \<Rightarrow> 't turn \<Rightarrow> ('t, 'd) pool \<Rightarrow> ('t, 'd) pool option" where
  "take_turn produce process threads (Turn_worker i) s =
     (if i < length (m_workers s) then worker_step produce threads i (m_workers s ! i) s else None)"
| "take_turn produce process threads Turn_main s = main_step process threads (main_thread s) s"
| "take_turn produce process threads Turn_owner s = owner_step threads s"
| "take_turn produce process threads (Call_add t p) s =
     (if owner_thread s = OIdle then case add_task t p s of Inr s' \<Rightarrow> Some s' | Inl e \<Rightarrow> None else None)"
| "take_turn produce process threads Call_done s =
     (if owner_thread s = OIdle then case tasks_done s of Inr s' \<Rightarrow> Some s' | Inl e \<Rightarrow> None else None)"
| "take_turn produce process threads Call_process s =
     (if owner_thread s = OIdle \<and> main_thread s = MStart then Some (start_process False s) else None)"

fun schedule :: "('t \<Rightarrow> 'd res) \<Rightarrow> ('t \<Rightarrow> 'd \<Rightarrow> exn option) \<Rightarrow> nat \<Rightarrow> 't turn list \<Rightarrow> ('t, 'd) pool \<Rightarrow> ('t, 'd) pool option" where
  "schedule produce process threads [] s = Some s"
| "schedule produce process threads (c # cs) s =
     (case take_turn produce process threads c s of
        None \<Rightarrow> None | Some s' \<Rightarrow> schedule produce process threads cs s')"

section \<open>Termination\<close>

lemma pop_size: "pop q = Some (Inr (x, q')) \<Longrightarrow> m_size q = Suc (m_size q')"
  by (auto simp: pop_def unsynchronized_pop_def unsynchronized_empty_def split: if_splits option.splits)

lemma push_size [simp]: "m_size (push x p q) = Suc (m_size q)"
  by (simp add: push_def unsynchronized_push_def Let_def)

lemma shutdown_size [simp]: "m_size (shutdown g n q) = m_size q + nat n"
proof -
  have "m_size (push_guards g k q) = m_size q + k" for k
    by (induction k arbitrary: q) (simp_all add: unsynchronized_push_def Let_def)
  then show ?thesis by (simp add: shutdown_def)
qed

text \<open>One statement of \<open>emergency_shutdown()\<close> pays for the guards it pushes.\<close>

lemma emergency_pays:
  assumes "emergency_shutdown threads g s = (g', s')"
  shows "9 * m_size (m_worker_tasks s') + 4 * m_size (m_main_thread_tasks s') +
      (if g' = EReturn then 0 else emergency_work threads g') <
    9 * m_size (m_worker_tasks s) + 4 * m_size (m_main_thread_tasks s) + emergency_work threads g \<and>
    m_workers s' = m_workers s \<and> main_thread s' = main_thread s \<and> owner_thread s' = owner_thread s"
  using assms
  by (cases g) (auto simp: shutdown_workers_def shutdown_main_thread_def stop_work_def split: if_splits)

lemma worker_pays:
  assumes i: "i < length (m_workers s)"
    and st: "worker_step produce threads i (m_workers s ! i) s = Some s'"
  shows "pool_work threads s' < pool_work threads s"
proof -
  note ws = wsum_nth [OF i] wsum_update [OF i]
  show ?thesis
    using st
  proof (cases "m_workers s ! i")
    case (WEmergency t g)
    obtain g' s1 where e: "emergency_shutdown threads g s = (g', s1)" by fastforce
    from emergency_pays [OF e] st WEmergency e show ?thesis
      by (auto simp: pool_work_def at_worker_def ws split: if_splits)
  next
    case WPop
    with st show ?thesis
      by (auto simp: pool_work_def at_worker_def ws dest!: pop_size split: option.splits sum.splits)
  next
    case (WGot x)
    with st show ?thesis by (cases x) (auto simp: pool_work_def at_worker_def ws)
  qed (auto simp: pool_work_def at_worker_def ws Let_def shutdown_main_thread_def split: sum.splits)
qed

lemma main_pays:
  assumes "main_step process threads (main_thread s) s = Some s'"
  shows "pool_work threads s' < pool_work threads s"
  using assms
proof (cases "main_thread s")
  case (MKill e g)
  obtain g' s1 where em: "emergency_shutdown threads g s = (g', s1)" by fastforce
  from emergency_pays [OF em] assms MKill em show ?thesis
    by (auto simp: pool_work_def split: if_splits)
next
  case MPop
  with assms show ?thesis
    by (auto simp: pool_work_def dest!: pop_size split: option.splits sum.splits)
next
  case (MGot x)
  with assms show ?thesis by (cases x) (auto simp: pool_work_def)
qed (auto simp: pool_work_def stop_work_def split: option.splits if_splits)

lemma owner_pays:
  assumes "owner_step threads s = Some s'"
  shows "pool_work threads s' < pool_work threads s"
  using assms
proof (cases "owner_thread s")
  case (OTerminate g)
  obtain g' s1 where em: "emergency_shutdown threads g s = (g', s1)" by fastforce
  from emergency_pays [OF em] assms OTerminate em show ?thesis
    by (auto simp: pool_work_def owner_step_def split: if_splits)
qed (auto simp: pool_work_def owner_step_def shutdown_workers_def)

lemma internal_pays:
  "internal produce process threads s s' \<Longrightarrow> pool_work threads s' < pool_work threads s"
  by (induction rule: internal.induct) (simp_all add: worker_pays main_pays owner_pays)

lemma internal_bounded:
  "(internal produce process threads ^^ n) s s' \<Longrightarrow> n + pool_work threads s' \<le> pool_work threads s"
proof (induction n arbitrary: s')
  case (Suc n)
  then obtain s1 where "(internal produce process threads ^^ n) s s1" "internal produce process threads s1 s'"
    by auto
  with Suc.IH [of s1] internal_pays [of produce process threads s1 s'] show ?case by simp
qed simp

section \<open>Completeness\<close>

lemma all_exited:
  assumes "wsum before_decrement ws = 0" and "wsum stopping_main ws = 0"
  shows "set ws \<subseteq> {WExit}"
proof
  fix w assume "w \<in> set ws"
  then have "before_decrement w = 0" "stopping_main w = 0"
    using assms by (simp_all add: wsum_zero)
  then show "w \<in> {WExit}" by (cases w) simp_all
qed

lemma wsum_exited: "set ws \<subseteq> {WExit} \<Longrightarrow> wsum took_guard ws = length ws \<and> wsum held ws = {#}"
  by (induction ws) (auto simp: wsum_def)

text \<open>Once \<open>process()\<close> has taken its guard with the flag down, nothing is left.\<close>

lemma flowing_complete:
  assumes "0 < threads" and sh: "shaped threads s" and fl: "flowing threads s"
    and m: "main_took_guard (main_thread s) = 1" "main_held (main_thread s) = {#}" "\<not> is_kill (main_thread s)"
  shows "m_all_tasks_pushed s \<and> all_processed s \<and> set (m_workers s) \<subseteq> {WExit} \<and>
    set (m_worker_exceptions s) \<subseteq> {None}"
proof -
  have co: "counted threads s" "drained s" "conserved s" "reported s" using fl m by (auto simp: flowing_def)
  have ex: "set (m_workers s) \<subseteq> {WExit}"
    using co(1) m(1) by (intro all_exited) (auto simp: counted_def split: if_splits)
  note sums = wsum_exited [OF ex]
  have len: "length (m_workers s) = threads" "length (m_worker_exceptions s) = threads"
    using sh by (simp_all add: shaped_def)
  have "m_all_tasks_pushed s"
    using co(1) sums len assms(1) by (auto simp: counted_def stopped_def split: if_splits)
  moreover have "queue_jobs (m_worker_tasks s) = {#}" "queue_jobs (m_main_thread_tasks s) = {#}"
    using co(2) sums len assms(1) m(1) by (auto simp: drained_def)
  then have "all_processed s"
    using co(3) sums m(2) by (simp add: conserved_def waiting_def all_processed_def)
  moreover have "set (m_worker_exceptions s) \<subseteq> {None}"
  proof
    fix x assume "x \<in> set (m_worker_exceptions s)"
    then obtain i where i: "i < threads" "x = m_worker_exceptions s ! i"
      using len by (auto simp: in_set_conv_nth)
    then have "m_workers s ! i = WExit" using subsetD [OF ex nth_mem] len by simp
    with co(4) i len show "x \<in> {None}" by (auto simp: reported_def is_emergency_def)
  qed
  ultimately show ?thesis using ex by simp
qed

lemma emergency_frame:
  assumes "emergency_shutdown threads g s = (g', s')"
  shows "processed s' = processed s \<and> added s' = added s \<and> m_all_tasks_pushed s' = m_all_tasks_pushed s \<and>
    main_thread s' = main_thread s \<and> owner_thread s' = owner_thread s \<and> m_workers s' = m_workers s \<and>
    m_worker_exceptions s' = m_worker_exceptions s \<and> (m_async_state s' = DONE \<longrightarrow> m_async_state s = DONE)"
  using assms by (cases g) (auto simp: shutdown_workers_def shutdown_main_thread_def)

lemma worker_frame:
  assumes "worker_step produce threads i w s = Some s'"
  shows "processed s' = processed s \<and> added s' = added s \<and> m_all_tasks_pushed s' = m_all_tasks_pushed s \<and>
    main_thread s' = main_thread s \<and> owner_thread s' = owner_thread s \<and>
    (m_async_state s' = DONE \<longrightarrow> m_async_state s = DONE)"
  using assms
  by (cases w)
    (auto simp: at_worker_def Let_def shutdown_main_thread_def dest!: emergency_frame
      split: option.splits sum.splits prod.splits)

lemma owner_frame:
  assumes "owner_step threads s = Some s'"
  shows "processed s' = processed s \<and> added s' = added s \<and> m_all_tasks_pushed s' = m_all_tasks_pushed s \<and>
    main_thread s' = main_thread s \<and> m_workers s' = m_workers s \<and>
    m_worker_exceptions s' = m_worker_exceptions s \<and> (m_async_state s' = DONE \<longrightarrow> m_async_state s = DONE)"
  using assms
  by (auto simp: owner_step_def shutdown_workers_def dest!: emergency_frame split: owner.splits prod.splits)

lemma done_ok_frame:
  assumes "done_ok s" and "processed s' = processed s" and "added s' = added s"
    and "m_all_tasks_pushed s' = m_all_tasks_pushed s" and "main_thread s' = main_thread s"
    and "m_async_state s' = DONE \<longrightarrow> m_async_state s = DONE"
  shows "done_ok s'"
  using assms by (auto simp: done_ok_def all_processed_def)

lemma main_done_ok:
  assumes "0 < threads" and sh: "shaped threads s" and fl: "m_worker_interrupt s \<or> flowing threads s"
    and d: "done_ok s" and st: "main_step process threads (main_thread s) s = Some s'"
  shows "done_ok s'"
  using st d
proof (cases "main_thread s")
  case MLoop_end
  show ?thesis
  proof (cases "m_worker_interrupt s")
    case True
    with st d MLoop_end show ?thesis by (auto simp: done_ok_def)
  next
    case False
    with fl flowing_complete [OF assms(1) sh] MLoop_end st show ?thesis
      by (auto simp: done_ok_def all_processed_def is_kill_def)
  qed
next
  case (MKill e g)
  obtain g' s1 where em: "emergency_shutdown threads g s = (g', s1)" by fastforce
  from emergency_frame [OF em] st MKill em d show ?thesis
    by (auto simp: done_ok_def all_processed_def split: if_splits)
next
  case (MGot x)
  with st d show ?thesis by (cases x) (auto simp: done_ok_def all_processed_def split: if_splits)
qed (auto simp: done_ok_def all_processed_def split: option.splits sum.splits if_splits)

lemma step_done_ok:
  assumes "step produce process threads s s'" and "0 < threads" and "shaped threads s"
    and "m_worker_interrupt s \<or> flowing threads s" and "done_ok s"
  shows "done_ok s'"
  using assms
proof (induction rule: step.induct)
  case (Internal s s')
  from Internal.hyps show ?case
  proof (cases rule: internal.cases)
    case (Worker i)
    from worker_frame [OF Worker(2)] show ?thesis by (intro done_ok_frame [OF Internal.prems(4)]) auto
  next
    case Main
    from main_done_ok [OF Internal.prems(1-4) Main] show ?thesis .
  next
    case Owner
    from owner_frame [OF Owner] show ?thesis by (intro done_ok_frame [OF Internal.prems(4)]) auto
  qed
qed (auto simp: done_ok_def all_processed_def add_task_def tasks_done_def start_process_def split: if_splits)

lemma reachable_done_ok: "reachable produce process threads s \<Longrightarrow> 0 < threads \<Longrightarrow> done_ok s"
proof (induction rule: reachable.induct)
  case New
  show ?case by (simp add: done_ok_def pool_new_def)
next
  case (Step s s')
  then show ?case
    using step_done_ok reachable_shaped reachable_flowing by blast
qed

section \<open>Exceptions\<close>

lemma rethrow_Some: "rethrow excs = Some e \<Longrightarrow> Some e \<in> set excs"
  by (induction excs) (auto split: option.splits)

lemma rethrow_None: "rethrow excs = None \<longleftrightarrow> set excs \<subseteq> {None}"
  by (induction excs) (auto split: option.splits)

lemma known_exns_at_worker:
  "known_exns (at_worker i w s) \<subseteq> known_exns s \<union> {e. worker_exn w = Some e}"
  using set_update_subset_insert [of "m_workers s" i w] by (force simp: known_exns_def at_worker_def)

lemma known_exns_fields [simp]:
  "known_exns (s\<lparr>m_active_threads := n\<rparr>) = known_exns s"
  "known_exns (s\<lparr>m_worker_tasks := q\<rparr>) = known_exns s"
  "known_exns (s\<lparr>m_main_thread_tasks := r\<rparr>) = known_exns s"
  "known_exns (s\<lparr>m_async_state := st\<rparr>) = known_exns s"
  "known_exns (s\<lparr>owner_thread := ow\<rparr>) = known_exns s"
  "known_exns (shutdown_main_thread s) = known_exns s"
  by (simp_all add: known_exns_def shutdown_main_thread_def)

lemma worker_exns:
  assumes i: "i < length (m_workers s)"
    and st: "worker_step produce threads i (m_workers s ! i) s = Some s'"
  shows "known_exns s' \<subseteq> known_exns s \<union> thrown produce process"
  using st
proof (cases "m_workers s ! i")
  case (WEmergency t g)
  obtain g' s1 where em: "emergency_shutdown threads g s = (g', s1)" by fastforce
  have "known_exns s1 = known_exns s" using emergency_frame [OF em] by (simp add: known_exns_def)
  with st em WEmergency known_exns_at_worker [of i _ s1] show ?thesis
    by (fastforce split: if_splits)
next
  case (WCatch t e)
  let ?s1 = "s\<lparr>m_worker_exceptions := (m_worker_exceptions s)[i := Some e]\<rparr>"
  have "Some e \<in> worker_exn ` set (m_workers s)"
    using imageI [OF nth_mem [OF i], of worker_exn] WCatch by simp
  then have "known_exns ?s1 \<subseteq> known_exns s"
    using set_update_subset_insert [of "m_worker_exceptions s" i "Some e"] by (auto simp: known_exns_def)
  with st WCatch known_exns_at_worker [of i "WEmergency t ETest" ?s1] show ?thesis by auto
next
  case (WProduce t)
  with st known_exns_at_worker [of i _ s] show ?thesis
    by (fastforce simp: thrown_def split: sum.splits)
next
  case WPop
  with st obtain x q where "s' = at_worker i (WGot x) (s\<lparr>m_worker_tasks := q\<rparr>)"
    by (auto split: option.splits sum.splits)
  with known_exns_at_worker [of i "WGot x" "s\<lparr>m_worker_tasks := q\<rparr>"] show ?thesis by auto
qed (auto simp: Let_def dest!: subsetD [OF known_exns_at_worker] split: option.splits if_splits)

lemma main_exns:
  assumes st: "main_step process threads (main_thread s) s = Some s'"
  shows "known_exns s' \<subseteq> known_exns s \<union> thrown produce process"
  using st
proof (cases "main_thread s")
  case (MKill e g)
  obtain g' s1 where em: "emergency_shutdown threads g s = (g', s1)" by fastforce
  with emergency_frame [OF em] st MKill show ?thesis
    by (auto simp: known_exns_def split: if_splits)
qed (auto simp: known_exns_def thrown_def dest: rethrow_Some split: option.splits sum.splits if_splits)

lemma step_exns:
  assumes "step produce process threads s s'"
  shows "known_exns s' \<subseteq> known_exns s \<union> thrown produce process"
  using assms
proof (induction rule: step.induct)
  case (Internal s s')
  from Internal.hyps show ?case
  proof (cases rule: internal.cases)
    case Owner
    from owner_frame [OF Owner] show ?thesis by (auto simp: known_exns_def)
  qed (simp_all add: worker_exns main_exns)
qed (auto simp: known_exns_def add_task_def tasks_done_def start_process_def split: if_splits)

lemma reachable_exns: "reachable produce process threads s \<Longrightarrow> known_exns s \<subseteq> thrown produce process"
proof (induction rule: reachable.induct)
  case New
  show ?case by (auto simp: known_exns_def pool_new_def)
next
  case (Step s s')
  with step_exns [OF Step.hyps(2)] show ?case by blast
qed

lemma step_returned_ok:
  assumes "step produce process threads s s'" and "returned_ok s"
  shows "returned_ok s'"
  using assms
proof (induction rule: step.induct)
  case (Internal s s')
  from Internal.hyps show ?case
  proof (cases rule: internal.cases)
    case (Worker i)
    show ?thesis
    proof (cases "main_thread s = MReturn")
      case True
      then have "m_workers s ! i = WExit"
        using Internal.prems subsetD [OF _ nth_mem [OF Worker(1)]] by (auto simp: returned_ok_def)
      with Worker(2) show ?thesis by simp
    next
      case False
      with worker_frame [OF Worker(2)] show ?thesis by (simp add: returned_ok_def)
    qed
  next
    case Main
    with Internal.prems show ?thesis
      by (cases "main_thread s")
        (auto simp: returned_ok_def rethrow_None list_all_iff split: option.splits sum.splits prod.splits if_splits)
  next
    case Owner
    with owner_frame [OF Owner] Internal.prems show ?thesis by (auto simp: returned_ok_def)
  qed
qed (auto simp: returned_ok_def add_task_def tasks_done_def start_process_def split: if_splits)

lemma reachable_returned_ok: "reachable produce process threads s \<Longrightarrow> returned_ok s"
proof (induction rule: reachable.induct)
  case New
  show ?case by (simp add: returned_ok_def pool_new_def)
qed (rule step_returned_ok)

section \<open>No thread waits for ever\<close>

lemma stages_keep_worker:
  assumes i: "i < length (m_workers s)" and h: "h \<in> stages s" "worker_stage (m_workers s ! i) \<noteq> Some h"
  shows "h \<in> stages (at_worker i w s)"
proof (cases "Some h \<in> worker_stage ` set (m_workers s)")
  case True
  then obtain j where j: "j < length (m_workers s)" "worker_stage (m_workers s ! j) = Some h"
    by (auto simp: in_set_conv_nth)
  with h(2) have "i \<noteq> j" by auto
  with j have "(m_workers s)[i := w] ! j = m_workers s ! j" by simp
  with j have "Some h \<in> worker_stage ` set ((m_workers s)[i := w])"
    by (metis imageI length_list_update nth_mem)
  then show ?thesis by (simp add: stages_def at_worker_def)
next
  case False
  with h(1) show ?thesis by (simp add: stages_def at_worker_def)
qed

lemma stages_new_worker:
  "i < length (m_workers s) \<Longrightarrow> worker_stage w = Some g \<Longrightarrow> g \<in> stages (at_worker i w s)"
  using set_update_memI [of i "m_workers s" w] by (force simp: stages_def at_worker_def)

lemma wsum_bound:
  assumes "\<And>w. f w \<le> (1 :: nat)"
  shows "wsum f ws \<le> length ws"
proof (induction ws)
  case (Cons w ws)
  then show ?case using assms [of w] by (simp add: wsum_def)
qed (simp add: wsum_def)

lemma may_pop_bound: "wsum may_pop ws \<le> length ws"
proof (rule wsum_bound)
  show "may_pop w \<le> 1" for w :: "('t, 'd) worker" by (cases w) simp_all
qed

lemma emergency_woken:
  assumes sh: "shaped threads s" and flag: "flagged s" and g: "g \<in> stages s" and w: "woken s"
    and em: "emergency_shutdown threads g s = (g', s1)"
    and s': "m_worker_interrupt s' = m_worker_interrupt s1" "m_worker_tasks s' = m_worker_tasks s1"
      "m_main_thread_tasks s' = m_main_thread_tasks s1" "length (m_workers s') = threads"
      "wsum may_pop (m_workers s') \<le> wsum may_pop (m_workers s)"
      "main_may_pop (main_thread s') \<longrightarrow> main_may_pop (main_thread s)"
    and keep: "\<And>h. h \<in> stages s \<Longrightarrow> h \<noteq> g \<Longrightarrow> h \<in> stages s'"
    and new: "g' \<noteq> EReturn \<Longrightarrow> g' \<in> stages s'"
  shows "woken s'"
  using em new
proof (cases g)
  case ETest
  then show ?thesis
    using em w s' keep by (auto simp: woken_def workers_woken_def main_woken_def split: if_splits)
next
  case EReturn
  then show ?thesis
    using em w s' keep by (auto simp: woken_def workers_woken_def main_woken_def)
next
  case EStop_workers
  have "length (queue_guards (m_worker_tasks s1)) \<ge> threads"
    using em EStop_workers sh shutdown_facts [of "m_worker_tasks s" None threads]
    by (auto simp: shaped_def shutdown_workers_def)
  with s' may_pop_bound [of "m_workers s'"] new em EStop_workers show ?thesis
    by (auto simp: woken_def workers_woken_def main_woken_def)
next
  case EStop_main
  have "m_worker_interrupt s" using flag g EStop_main by (auto simp: flagged_def late_stages_def)
  moreover have "queue_guards (m_main_thread_tasks s1) \<noteq> []"
    using em EStop_main sh shutdown_facts [of "m_main_thread_tasks s" None 1]
    by (auto simp: shaped_def shutdown_main_thread_def)
  ultimately show ?thesis
    using s' w keep em EStop_main
    by (auto simp: woken_def workers_woken_def main_woken_def shutdown_main_thread_def)
qed (auto simp: woken_def workers_woken_def main_woken_def)

lemma woken_at_worker:
  assumes w: "woken s" and i: "i < length (m_workers s)" "worker_stage (m_workers s ! i) = None"
    and same: "m_workers s1 = m_workers s" "main_thread s1 = main_thread s" "owner_thread s1 = owner_thread s"
      "m_worker_interrupt s1 = m_worker_interrupt s"
    and "queue_guards (m_main_thread_tasks s) \<noteq> [] \<Longrightarrow> queue_guards (m_main_thread_tasks s1) \<noteq> []"
    and "m_worker_interrupt s \<Longrightarrow> may_pop x + length (queue_guards (m_worker_tasks s)) \<le>
      may_pop (m_workers s ! i) + length (queue_guards (m_worker_tasks s1))"
  shows "woken (at_worker i x s1)"
proof -
  have "stages (at_worker i x s1) = stages (at_worker i x s)"
    using same by (simp add: stages_def at_worker_def)
  then have st: "h \<in> stages (at_worker i x s1)" if "h \<in> stages s" for h
    using stages_keep_worker [OF i(1) that] i(2) by simp
  have "workers_woken (at_worker i x s1)" if int: "m_worker_interrupt s"
  proof -
    have "ESet_state \<in> stages s \<or> EStop_workers \<in> stages s \<or>
        wsum may_pop (m_workers s) \<le> length (queue_guards (m_worker_tasks s))"
      using w int by (simp add: woken_def workers_woken_def)
    then show ?thesis
      unfolding workers_woken_def using st assms(9) [OF int] same(1) i(1)
      by (auto simp: at_worker_def wsum_nth [OF i(1)] wsum_update [OF i(1)])
  qed
  moreover have "main_woken (at_worker i x s1)" if "m_worker_interrupt s"
    using w that st assms(8) same(2) by (auto simp: woken_def main_woken_def at_worker_def)
  ultimately show ?thesis using same(4) by (simp add: woken_def at_worker_def)
qed

lemma worker_woken:
  assumes sh: "shaped threads s" and flag: "flagged s" and w: "woken s" and i: "i < length (m_workers s)"
    and st: "worker_step produce threads i (m_workers s ! i) s = Some s'"
  shows "woken s'"
proof (cases "\<exists>t g. m_workers s ! i = WEmergency t g")
  case True
  then obtain t g where wi: "m_workers s ! i = WEmergency t g" by blast
  obtain g' s1 where em: "emergency_shutdown threads g s = (g', s1)" by fastforce
  let ?w = "if g' = EReturn then WExit else WEmergency t g'"
  have s': "s' = at_worker i ?w s1" using st wi em by simp
  have fr: "m_workers s1 = m_workers s" "main_thread s1 = main_thread s" "owner_thread s1 = owner_thread s"
    using emergency_frame [OF em] by auto
  then have stages: "stages s' = stages (at_worker i ?w s)" by (simp add: s' stages_def at_worker_def)
  have "g \<in> stages s" using stages_nth [OF i] wi by simp
  from emergency_woken [OF sh flag this w em, of s'] show ?thesis
    unfolding stages
    using stages_keep_worker [OF i] stages_new_worker [OF i] sh wi fr i
    by (auto simp: s' at_worker_def shaped_def wsum_nth [OF i] wsum_update [OF i])
next
  case False
  then have no: "worker_stage (m_workers s ! i) = None" by (cases "m_workers s ! i") simp_all
  note at = woken_at_worker [OF w i no]
  have ok: "queue_ok (m_worker_tasks s)" "None \<notin># queue_jobs (m_worker_tasks s)"
    "set (queue_guards (m_worker_tasks s)) \<subseteq> {None}" "queue_ok (m_main_thread_tasks s)"
    using sh by (simp_all add: shaped_def)
  show ?thesis
    using st False
  proof (cases "m_workers s ! i")
    case WPop
    with st obtain x q where x: "pop (m_worker_tasks s) = Some (Inr (x, q))"
      and s': "s' = at_worker i (WGot x) (s\<lparr>m_worker_tasks := q\<rparr>)"
      by (auto split: option.splits sum.splits)
    have "length (queue_guards (m_worker_tasks s)) \<le> Suc (length (queue_guards q))"
      using pop_shaped [OF ok(1-3) x] by (cases x) auto
    then show ?thesis unfolding s' by (intro at) (simp_all add: WPop)
  next
    case (WGot x)
    with st at show ?thesis by auto
  next
    case (WPush t d)
    with st at push_jobs [OF ok(4)] show ?thesis by auto
  next
    case WStop_main
    with st at shutdown_facts [OF ok(4), of None 1] show ?thesis by (auto simp: shutdown_main_thread_def)
  qed (auto simp: Let_def intro!: at split: sum.splits)
qed

lemma woken_main:
  assumes w: "woken s" and no: "main_stage (main_thread s) = None \<or> main_stage (main_thread s) = Some EReturn"
    and same: "m_workers s' = m_workers s" "owner_thread s' = owner_thread s"
      "m_worker_interrupt s' = m_worker_interrupt s" "m_worker_tasks s' = m_worker_tasks s"
    and m: "m_worker_interrupt s \<Longrightarrow> \<not> main_may_pop (main_thread s')"
  shows "woken s'"
proof -
  have "h \<in> stages s'" if "h \<in> stages s" "h \<noteq> EReturn" for h
    using that no same by (auto simp: stages_def)
  then show ?thesis
    using w same m by (auto simp: woken_def workers_woken_def main_woken_def)
qed

lemma main_woken:
  assumes sh: "shaped threads s" and flag: "flagged s" and w: "woken s"
    and st: "main_step process threads (main_thread s) s = Some s'"
  shows "woken s'"
proof (cases "\<exists>e g. main_thread s = MKill e g")
  case True
  then obtain e g where m: "main_thread s = MKill e g" by blast
  obtain g' s1 where em: "emergency_shutdown threads g s = (g', s1)" by fastforce
  let ?m = "if g' = EReturn then MJoin (Some e) else MKill e g'"
  have s': "s' = s1\<lparr>main_thread := ?m\<rparr>" using st m em by simp
  have fr: "m_workers s1 = m_workers s" "owner_thread s1 = owner_thread s"
    using emergency_frame [OF em] by auto
  have g: "g \<in> stages s" using m by (simp add: stages_def)
  have "length (m_workers s) = threads" using sh by (simp add: shaped_def)
  then show ?thesis
    by (intro emergency_woken [OF sh flag g w em]) (auto simp: s' stages_def m fr)
next
  case False
  then have no: "main_stage (main_thread s) = None \<or> main_stage (main_thread s) = Some EReturn"
  proof (cases "main_thread s")
    case (MJoin exc)
    then show ?thesis by (cases exc) simp_all
  qed simp_all
  show ?thesis
    using st False
  proof (cases "main_thread s")
    case (MGot x)
    with st show ?thesis by (intro woken_main [OF w no]) auto
  qed (auto intro!: woken_main [OF w no] split: option.splits sum.splits if_splits)
qed

lemma owner_woken:
  assumes sh: "shaped threads s" and flag: "flagged s" and w: "woken s"
    and st: "owner_step threads s = Some s'"
  shows "woken s'"
  using st
proof (cases "owner_thread s")
  case OStop_workers
  with st sh w shutdown_facts [of "m_worker_tasks s" None threads] show ?thesis
    by (auto simp: owner_step_def shutdown_workers_def shaped_def woken_def workers_woken_def main_woken_def
        stages_def)
next
  case (OTerminate g)
  obtain g' s1 where em: "emergency_shutdown threads g s = (g', s1)" by fastforce
  have s': "s' = s1\<lparr>owner_thread := (if g' = EReturn then OIdle else OTerminate g')\<rparr>"
    using st OTerminate em by (simp add: owner_step_def)
  have fr: "m_workers s1 = m_workers s" "main_thread s1 = main_thread s"
    using emergency_frame [OF em] by auto
  have g: "g \<in> stages s" using OTerminate by (simp add: stages_def)
  have "length (m_workers s) = threads" using sh by (simp add: shaped_def)
  then show ?thesis
    by (intro emergency_woken [OF sh flag g w em]) (auto simp: s' stages_def OTerminate fr)
qed (simp add: owner_step_def)

lemma step_woken:
  assumes "step produce process threads s s'" and "shaped threads s" and "flagged s" and "woken s"
  shows "woken s'"
  using assms
proof (induction rule: step.induct)
  case (Internal s s')
  from Internal.hyps show ?case
    by (cases rule: internal.cases)
      (rule worker_woken main_woken owner_woken, (rule Internal.prems | assumption)+)+
next
  case (Add_task s t p s')
  then show ?case
    using push_jobs [of "m_worker_tasks s" "Some t" p]
    by (auto simp: add_task_def shaped_def woken_def workers_woken_def main_woken_def stages_def
        split: if_splits)
qed (auto simp: tasks_done_def start_process_def woken_def workers_woken_def main_woken_def stages_def
    split: if_splits)

lemma reachable_woken: "reachable produce process threads s \<Longrightarrow> woken s"
proof (induction rule: reachable.induct)
  case New
  show ?case by (simp add: woken_def pool_new_def)
next
  case (Step s s')
  then show ?case using step_woken reachable_shaped reachable_flagged by blast
qed

lemma took_guard_le: "took_guard w \<le> 1"
  by (cases w rule: took_guard.cases) simp_all

lemma wsum_took_full: "wsum took_guard ws = length ws \<Longrightarrow> w \<in> set ws \<Longrightarrow> took_guard w = 1"
proof (induction ws)
  case (Cons v ws)
  have "wsum took_guard ws \<le> length ws" "took_guard v \<le> 1"
    by (rule wsum_bound [OF took_guard_le], rule took_guard_le)
  with Cons.prems(1) have "wsum took_guard ws = length ws" "took_guard v = 1"
    by (simp_all add: wsum_def)
  with Cons.IH Cons.prems(2) show ?case by auto
qed simp

lemma worker_blocked:
  assumes "queue_ok (m_worker_tasks s)" and "worker_step produce threads i w s = None"
  shows "w = WExit \<or> w = WPop \<and> queue_guards (m_worker_tasks s) = []"
proof (cases "w = WPop")
  case True
  with assms(2) sq.take_result [OF assms(1)] have "pop (m_worker_tasks s) = None" by fastforce
  with True sq.take_waits [OF assms(1)] show ?thesis by simp
next
  case False
  with assms(2) show ?thesis by (cases w) (auto simp: Let_def split: prod.splits)
qed

lemma main_blocked:
  assumes "queue_ok (m_main_thread_tasks s)" and "main_step process threads m s = None"
  shows "m = MStart \<or> finished m \<or> m = MPop \<and> queue_guards (m_main_thread_tasks s) = [] \<or>
    (\<exists>exc. m = MJoin exc \<and> \<not> set (m_workers s) \<subseteq> {WExit})"
proof (cases "m = MPop")
  case True
  with assms(2) sq.take_result [OF assms(1)] have "pop (m_main_thread_tasks s) = None" by fastforce
  with True sq.take_waits [OF assms(1)] show ?thesis by simp
next
  case False
  with assms(2) show ?thesis
    by (cases m) (auto simp: list_all_iff split: option.splits prod.splits if_splits)
qed

lemma no_deadlock:
  assumes re: "reachable produce process threads s" and "0 < threads" and cl: "closing s"
    and stuck: "\<nexists>s'. internal produce process threads s s'"
  shows "finished (main_thread s)"
proof (rule ccontr)
  assume nf: "\<not> finished (main_thread s)"
  have sh: "queue_ok (m_worker_tasks s)" "queue_ok (m_main_thread_tasks s)" "length (m_workers s) = threads"
    using reachable_shaped [OF re] by (simp_all add: shaped_def)
  have ow: "owner_thread s = OIdle"
    using stuck by (cases "owner_thread s") (auto simp: owner_step_def internal.simps split: prod.splits)
  have wk: "w = WExit \<or> w = WPop \<and> queue_guards (m_worker_tasks s) = []" if w: "w \<in> set (m_workers s)" for w
  proof -
    from w obtain i where "i < length (m_workers s)" "w = m_workers s ! i" by (auto simp: in_set_conv_nth)
    with stuck have "worker_step produce threads i w s = None"
      by (cases "worker_step produce threads i w s") (auto simp: internal.simps)
    with worker_blocked [OF sh(1)] show ?thesis by blast
  qed
  have mn: "main_thread s = MPop \<and> queue_guards (m_main_thread_tasks s) = [] \<or>
      (\<exists>exc. main_thread s = MJoin exc \<and> \<not> set (m_workers s) \<subseteq> {WExit})"
  proof -
    have "main_step process threads (main_thread s) s = None"
      using stuck by (cases "main_step process threads (main_thread s) s") (auto simp: internal.simps)
    from main_blocked [OF sh(2) this] nf cl show ?thesis by (auto simp: closing_def)
  qed
  have stg: "h = EReturn" if "h \<in> stages s" for h
  proof -
    have "Some h \<notin> worker_stage ` set (m_workers s)" using wk by fastforce
    with that ow mn show ?thesis by (auto simp: stages_def elim: main_stage.elims)
  qed
  have flow: "flowing threads s" if "\<not> m_worker_interrupt s"
    using reachable_flowing [OF re assms(2)] that by blast
  have exited: "set (m_workers s) \<subseteq> {WExit}"
  proof (rule ccontr)
    assume "\<not> set (m_workers s) \<subseteq> {WExit}"
    with wk have pop: "WPop \<in> set (m_workers s)" and g: "queue_guards (m_worker_tasks s) = []" by auto
    show False
    proof (cases "m_worker_interrupt s")
      case True
      then have "wsum may_pop (m_workers s) = 0"
        using reachable_woken [OF re] stg g by (auto simp: woken_def workers_woken_def)
      with pop show False by (fastforce simp: wsum_zero)
    next
      case False
      then have "wsum took_guard (m_workers s) = length (m_workers s)"
        using flow cl ow g sh by (simp add: flowing_def counted_def stopped_def closing_def)
      from wsum_took_full [OF this pop] show False by simp
    qed
  qed
  with mn have m: "main_thread s = MPop" "queue_guards (m_main_thread_tasks s) = []" by auto
  show False
  proof (cases "m_worker_interrupt s")
    case True
    then show False
      using reachable_woken [OF re] stg m by (auto simp: woken_def main_woken_def)
  next
    case False
    have "wsum before_decrement (m_workers s) = 0" "wsum stopping_main (m_workers s) = 0"
      using exited by (auto simp: wsum_zero)
    with flow [OF False] m show False by (simp add: flowing_def counted_def)
  qed
qed

lemma internal_closing:
  assumes "internal produce process threads s s'" and "closing s"
  shows "closing s'"
proof -
  have "m_worker_interrupt s \<Longrightarrow> m_worker_interrupt s'"
    using step_interrupt [OF step.Internal [OF assms(1)]] .
  moreover from assms(1) have "m_all_tasks_pushed s' = m_all_tasks_pushed s \<and> (main_thread s \<noteq> MStart \<longrightarrow> main_thread s' \<noteq> MStart)"
  proof (cases rule: internal.cases)
    case (Worker i)
    from worker_frame [OF Worker(2)] show ?thesis by simp
  next
    case Owner
    from owner_frame [OF Owner] show ?thesis by simp
  next
    case Main
    then show ?thesis
      by (cases "main_thread s")
        (auto dest!: emergency_frame split: option.splits sum.splits prod.splits if_splits)
  qed
  ultimately show ?thesis using assms(2) by (auto simp: closing_def)
qed

lemma internal_run:
  assumes "(internal produce process threads)\<^sup>*\<^sup>* s s'" and "reachable produce process threads s" and "closing s"
  shows "reachable produce process threads s' \<and> closing s'"
  using assms(1)
proof (induction rule: rtranclp_induct)
  case (step y z)
  then show ?case by (blast intro: reachable.Step step.Internal internal_closing)
qed (simp add: assms)

lemma take_turn_step:
  "take_turn produce process threads c s = Some s' \<Longrightarrow> step produce process threads s s'"
  by (cases c)
    (auto intro: step.intros internal.intros split: if_splits sum.splits)

lemma schedule_reachable:
  "reachable produce process threads s \<Longrightarrow> schedule produce process threads cs s = Some s' \<Longrightarrow>
     reachable produce process threads s'"
proof (induction cs arbitrary: s)
  case (Cons c cs)
  from Cons.prems(2) obtain s1 where s1: "take_turn produce process threads c s = Some s1"
    "schedule produce process threads cs s1 = Some s'" by (auto split: option.splits)
  show ?case by (rule Cons.IH [OF reachable.Step [OF Cons.prems(1) take_turn_step [OF s1(1)]] s1(2)])
qed simp

section \<open>Three runs\<close>

lemmas queue_eval = push_def unsynchronized_push_def shutdown_def pop_def unsynchronized_pop_def
  unsynchronized_empty_def sync_queue_new_def Let_def

lemmas pool_eval = queue_eval pool_new_def add_task_def tasks_done_def owner_step_def start_process_def
  shutdown_workers_def shutdown_main_thread_def at_worker_def numeral_eq_Suc

lemma demo_run:
  "\<exists>s. schedule (\<lambda>t. Inr (\<not> t)) (\<lambda>t d. None) 1
      ([Call_add False LOW, Call_add True HIGH, Call_done, Turn_owner, Call_process] @
        replicate 16 (Turn_worker 0) @ replicate 13 Turn_main) (pool_new 1) = Some s \<and>
     m_async_state s = DONE \<and> added s = [False, True] \<and> processed s = [(True, False), (False, True)]"
  by (simp add: pool_eval)

lemma demo_open:
  "\<exists>s. schedule (\<lambda>t. Inr (\<not> t)) (\<lambda>t d. None) 1 [Call_add True HIGH, Call_done, Turn_owner, Call_process] (pool_new 1) = Some s \<and>
     closing s \<and> added s = [True]"
  by (simp add: pool_eval closing_def)

lemma demo_failure:
  "\<exists>s. schedule (\<lambda>t. if t then Inl (Runtime_error ''x'') else Inr t) (\<lambda>t d. None) 1
      ([Call_add True LOW, Call_process] @ replicate 10 (Turn_worker 0) @ replicate 4 Turn_main) (pool_new 1) = Some s \<and>
     main_thread s = MThrow (Runtime_error ''x'')"
  by (simp add: pool_eval)

section \<open>Properties\<close>

text \<open>
  C1. When the state of a thread pool is \<open>DONE\<close>, or \<open>process()\<close> has ended and no emergency shutdown
  was started, every task that was added has been processed exactly once, whatever the order in
  which the threads ran and the priorities of the tasks; and each was processed with the data that
  its own producer returned.
\<close>

theorem pool_processes_all:
  assumes "reachable produce process threads s" and "0 < threads"
    and "m_async_state s = DONE \<or> finished (main_thread s) \<and> \<not> m_worker_interrupt s"
  shows "mset (map fst (processed s)) = mset (added s) \<and> (\<forall>(t, d) \<in> set (processed s). produce t = Inr d)"
proof -
  have "all_processed s"
  proof (cases "m_async_state s = DONE")
    case True
    with reachable_done_ok [OF assms(1,2)] show ?thesis by (simp add: done_ok_def)
  next
    case False
    with assms(3) have f: "finished (main_thread s)" "\<not> m_worker_interrupt s" by simp_all
    then have "flowing threads s" using reachable_flowing [OF assms(1,2)] by simp
    moreover have "main_took_guard (main_thread s) = 1" "main_held (main_thread s) = {#}"
      "\<not> is_kill (main_thread s)"
      using f(1) by (cases "main_thread s"; simp add: is_kill_def)+
    ultimately show ?thesis
      using flowing_complete [OF assms(2) reachable_shaped [OF assms(1)]] by blast
  qed
  moreover have "produced produce s" by (rule reachable_produced [OF assms(1)])
  ultimately show ?thesis by (auto simp: all_processed_def produced_def travelling_def)
qed

theorem pool_processes_all_witness:
  "\<exists>s. reachable (\<lambda>t. Inr (\<not> t)) (\<lambda>t d. None) 1 s \<and> m_async_state s = DONE \<and>
     added s = [False, True] \<and> mset (map fst (processed s)) = mset (added s)"
proof -
  obtain s where "reachable (\<lambda>t. Inr (\<not> t)) (\<lambda>t d. None) 1 s" "m_async_state s = DONE" "added s = [False, True]"
    using demo_run schedule_reachable [OF reachable.New] by blast
  then show ?thesis using pool_processes_all [of "\<lambda>t. Inr (\<not> t)" "\<lambda>t d. None" 1 s] by auto
qed

text \<open>
  C2. Once the owner has called \<open>tasks_done()\<close> or the flag is set, and \<open>process()\<close> has been called,
  the threads of the pool can make only a bounded number of steps, and where none of them can make
  a step \<open>process()\<close> has ended: it neither loops nor waits for ever.
\<close>

theorem pool_returns:
  assumes "reachable produce process threads s" and "0 < threads" and "closing s"
  shows "(\<forall>n s'. (internal produce process threads ^^ n) s s' \<longrightarrow> n \<le> pool_work threads s) \<and>
    (\<forall>s'. (internal produce process threads)\<^sup>*\<^sup>* s s' \<and> (\<nexists>s''. internal produce process threads s' s'') \<longrightarrow>
       finished (main_thread s'))"
proof (intro conjI allI impI)
  show "n \<le> pool_work threads s" if "(internal produce process threads ^^ n) s s'" for n s'
    using internal_bounded [OF that] by simp
  show "finished (main_thread s')"
    if "(internal produce process threads)\<^sup>*\<^sup>* s s' \<and> (\<nexists>s''. internal produce process threads s' s'')" for s'
    using that internal_run [OF _ assms(1,3)] no_deadlock [OF _ assms(2)] by blast
qed

theorem pool_returns_witness:
  "\<exists>s. reachable (\<lambda>t. Inr (\<not> t)) (\<lambda>t d. None) 1 s \<and> closing s \<and> added s = [True] \<and>
     (\<forall>n s'. (internal (\<lambda>t. Inr (\<not> t)) (\<lambda>t d. None) 1 ^^ n) s s' \<longrightarrow> n \<le> pool_work 1 s)"
proof -
  obtain s where "reachable (\<lambda>t. Inr (\<not> t)) (\<lambda>t d. None) 1 s" "closing s" "added s = [True]"
    using demo_open schedule_reachable [OF reachable.New] by blast
  then show ?thesis using pool_returns [of "\<lambda>t. Inr (\<not> t)" "\<lambda>t d. None" 1 s] by auto
qed

text \<open>
  C18. \<open>process()\<close> returns normally only when all the workers have ended and none of them stored an
  exception; an exception that it throws was thrown by a function of a task.
\<close>

theorem pool_reports:
  assumes "reachable produce process threads s"
  shows "(main_thread s = MReturn \<longrightarrow>
      set (m_workers s) \<subseteq> {WExit} \<and> set (m_worker_exceptions s) \<subseteq> {None}) \<and>
    (\<forall>e. main_thread s = MThrow e \<longrightarrow> (\<exists>t. produce t = Inl e) \<or> (\<exists>t d. process t d = Some e))"
  using reachable_returned_ok [OF assms] reachable_exns [OF assms]
  by (auto simp: returned_ok_def known_exns_def thrown_def)

theorem pool_reports_witness:
  "\<exists>s. reachable (\<lambda>t. if t then Inl (Runtime_error ''x'') else Inr t) (\<lambda>t d. None) 1 s \<and>
     main_thread s = MThrow (Runtime_error ''x'') \<and> (\<exists>t. (if t then Inl (Runtime_error ''x'') else Inr t) = Inl (Runtime_error ''x''))"
proof -
  obtain s :: "(bool, bool) pool" where "reachable (\<lambda>t. if t then Inl (Runtime_error ''x'') else Inr t) (\<lambda>t d. None) 1 s"
    "main_thread s = MThrow (Runtime_error ''x'')"
    using demo_failure schedule_reachable [OF reachable.New] by blast
  then show ?thesis
    using pool_reports [of "\<lambda>t. if t then Inl (Runtime_error ''x'') else Inr t" "\<lambda>t d. None" 1 s] by auto
qed

end
