(* ===== verification/Gtid.thy ===== *)
theory Gtid
  imports Strings_Facts "HOL-Library.Word"
begin

text \<open>
  GTID ranges and sets, from \<^verbatim>\<open>mysqlshdk/libs/mysql/gtid_utils.cc\<close>. A \<open>uint64_t\<close> is a \<open>64 word\<close>. A callback
  that updates captured variables is a function on their values.
\<close>

section \<open>Definitions\<close>

type_synonym u64 = "64 word"

text \<open>
  \<^verbatim>\<open>std::from_chars\<close> for an unsigned type takes no sign; \<open>lexical_cast\<close> demands that it consumes the
  whole text.
\<close>

definition lexical_cast_u64 :: "string \<Rightarrow> u64 res" where
  "lexical_cast_u64 s =
     (let digits = takeWhile isdigit s
      in if digits = [] \<or> 2 ^ 64 \<le> digits_value digits
         then Inl (Invalid_argument ''Unable to perform conversion.'')
         else if dropWhile isdigit s \<noteq> [] then Inl (Invalid_argument ''Conversion did not consume whole input.'')
         else Inr (of_nat (digits_value digits)))"

definition read_range :: "string \<Rightarrow> (u64 \<times> u64) option" where
  "read_range rng0 =
     (let rng = str_strip_view rng0 whitespace
      in case find_char rng (CHR ''-'') 0 of
           None \<Rightarrow> (case lexical_cast_u64 rng of Inr n \<Rightarrow> Some (n, n) | Inl e \<Rightarrow> None)
         | Some p \<Rightarrow>
             (case lexical_cast_u64 (substr rng 0 p) of
                Inr b \<Rightarrow> (case lexical_cast_u64 (drop (p + 1) rng) of Inr e \<Rightarrow> Some (b, e) | Inl x \<Rightarrow> None)
              | Inl x \<Rightarrow> None))"

definition is_tag_char :: "char \<Rightarrow> bool" where
  "is_tag_char token \<longleftrightarrow>
     (97 \<le> code token \<and> code token \<le> 122) \<or> (65 \<le> code token \<and> code token \<le> 90) \<or>
     (48 \<le> code token \<and> code token \<le> 57) \<or> token = CHR ''_''"

definition is_gtid_tag :: "string \<Rightarrow> bool" where
  "is_gtid_tag tag =
     (if tag = [] then False
      else if length tag > 32 then False
      else if \<not> list_all is_tag_char tag then False
      else if 48 \<le> code (hd tag) \<and> code (hd tag) \<le> 57 then False
      else True)"

text \<open>The callback of \<open>iter_tag_ranges\<close> on one token; it keeps the current tag beside the state of \<open>cb\<close>.\<close>

definition tag_token ::
  "(string \<Rightarrow> u64 \<Rightarrow> u64 \<Rightarrow> 's \<Rightarrow> 's) \<Rightarrow> string \<Rightarrow> string \<times> 's \<Rightarrow> bool \<times> (string \<times> 's)" where
  "tag_token cb rng ts =
     (case ts of (cur_tag, st) \<Rightarrow>
        if rng = [] then (True, ts)
        else if is_gtid_tag rng then (True, (rng, st))
        else case read_range rng of
               Some (b, e) \<Rightarrow> (True, (cur_tag, cb cur_tag b e st))
             | None \<Rightarrow> (True, ts))"

definition iter_tag_ranges :: "string \<Rightarrow> (string \<Rightarrow> u64 \<Rightarrow> u64 \<Rightarrow> 's \<Rightarrow> 's) \<Rightarrow> 's \<Rightarrow> 's" where
  "iter_tag_ranges ranges cb st =
     snd (snd (str_itersplit ranges (tag_token cb) '':'' (-1) False ([], st)))"

definition iter_ranges :: "string \<Rightarrow> (string \<Rightarrow> string \<Rightarrow> u64 \<Rightarrow> u64 \<Rightarrow> 's \<Rightarrow> 's) \<Rightarrow> 's \<Rightarrow> 's" where
  "iter_ranges gtids cb st0 =
     snd (str_itersplit gtids
       (\<lambda>gtid0 st.
          let gtid = str_strip_view gtid0 whitespace
          in case find_char gtid (CHR '':'') 0 of
               None \<Rightarrow> (True, st)
             | Some p \<Rightarrow> (True, iter_tag_ranges (drop (p + 1) gtid) (cb (substr gtid 0 p)) st))
       '','' (-1) False st0)"

record Gtid_range =
  uuid_tag :: string
  g_begin :: u64
  g_end :: u64

definition Gtid_range_new :: "string \<Rightarrow> string \<Rightarrow> u64 \<Rightarrow> u64 \<Rightarrow> Gtid_range" where
  "Gtid_range_new range_uuid range_tag range_begin range_end =
     \<lparr>uuid_tag = (if range_tag = [] then range_uuid else range_uuid @ '':'' @ map tolower range_tag),
      g_begin = range_begin, g_end = range_end\<rparr>"

definition from_gtid :: "string \<Rightarrow> Gtid_range" where
  "from_gtid gtid =
     iter_ranges gtid (\<lambda>uuid tag b e rng. Gtid_range_new uuid tag b e) \<lparr>uuid_tag = [], g_begin = 0, g_end = 0\<rparr>"

definition range_bool :: "Gtid_range \<Rightarrow> bool" where
  "range_bool r \<longleftrightarrow> uuid_tag r \<noteq> [] \<and> g_begin r \<noteq> 0 \<and> g_end r \<noteq> 0"

definition is_single :: "Gtid_range \<Rightarrow> bool" where
  "is_single r \<longleftrightarrow> g_begin r = g_end r"

text \<open>Printing: \<^verbatim>\<open>%s\<close> stops at a NUL character, \<^verbatim>\<open>PRIu64\<close> prints the decimal digits.\<close>

definition format_s :: "string \<Rightarrow> string" where
  "format_s s = takeWhile (\<lambda>c. c \<noteq> nul) s"

definition format_u64 :: "u64 \<Rightarrow> string" where
  "format_u64 n = nat_digits (unat n)"

definition range_str :: "Gtid_range \<Rightarrow> string" where
  "range_str r =
     (if g_begin r = g_end r then format_s (uuid_tag r) @ '':'' @ format_u64 (g_begin r)
      else format_s (uuid_tag r) @ '':'' @ format_u64 (g_begin r) @ ''-'' @ format_u64 (g_end r))"

definition range_count :: "Gtid_range \<Rightarrow> u64" where
  "range_count r = g_end r - g_begin r + 1"

record Gtid_set =
  m_gtid_set :: string
  m_normalized :: bool

definition Gtid_set_new :: Gtid_set where
  "Gtid_set_new = \<lparr>m_gtid_set = [], m_normalized = True\<rparr>"

definition from_string :: "string \<Rightarrow> Gtid_set" where
  "from_string s = \<lparr>m_gtid_set = s, m_normalized = False\<rparr>"

definition from_normalized_string :: "string \<Rightarrow> Gtid_set" where
  "from_normalized_string s = \<lparr>m_gtid_set = s, m_normalized = True\<rparr>"

definition add_gtid :: "string \<Rightarrow> Gtid_set \<Rightarrow> Gtid_set" where
  "add_gtid gtid g =
     (if m_gtid_set g = [] then \<lparr>m_gtid_set = gtid, m_normalized = True\<rparr>
      else \<lparr>m_gtid_set = m_gtid_set g @ '','' @ gtid, m_normalized = False\<rparr>)"

definition add_set :: "Gtid_set \<Rightarrow> Gtid_set \<Rightarrow> Gtid_set" where
  "add_set other g =
     (if m_gtid_set g = [] then \<lparr>m_gtid_set = m_gtid_set other, m_normalized = m_normalized other\<rparr>
      else if m_gtid_set other \<noteq> []
      then \<lparr>m_gtid_set = m_gtid_set g @ '','' @ m_gtid_set other, m_normalized = False\<rparr>
      else g)"

definition add_range :: "Gtid_range \<Rightarrow> Gtid_set \<Rightarrow> Gtid_set" where
  "add_range rng g =
     (if m_gtid_set g = [] then \<lparr>m_gtid_set = range_str rng, m_normalized = True\<rparr>
      else \<lparr>m_gtid_set = m_gtid_set g @ '','' @ range_str rng, m_normalized = False\<rparr>)"

definition get_gtids_tagged :: "Gtid_set \<Rightarrow> Gtid_set" where
  "get_gtids_tagged g =
     iter_ranges (m_gtid_set g)
       (\<lambda>u t b e matches. if t = [] then matches else add_range (Gtid_range_new u t b e) matches)
       Gtid_set_new"

definition get_gtids_from :: "string \<Rightarrow> Gtid_set \<Rightarrow> Gtid_set" where
  "get_gtids_from uuid g =
     (if uuid = [] then Gtid_set_new
      else iter_ranges (m_gtid_set g)
             (\<lambda>u t b e matches. if u \<noteq> uuid then matches else add_range (Gtid_range_new u t b e) matches)
             Gtid_set_new)"

definition get_gtids_from_tag :: "string \<Rightarrow> string \<Rightarrow> Gtid_set \<Rightarrow> Gtid_set" where
  "get_gtids_from_tag uuid tag g =
     (if uuid = [] \<or> tag = [] then Gtid_set_new
      else iter_ranges (m_gtid_set g)
             (\<lambda>u t b e matches.
                if u \<noteq> uuid then matches
                else if \<not> str_caseeq t tag then matches
                else add_range (Gtid_range_new u t b e) matches)
             Gtid_set_new)"

definition set_count :: "Gtid_set \<Rightarrow> u64 res" where
  "set_count g =
     (if \<not> m_normalized g then Inl (Invalid_argument ''Can't get count of un-normalized Gtid_set'')
      else Inr (iter_ranges (m_gtid_set g) (\<lambda>u t b e count. count + (e - b + 1)) 0))"

definition enumerate_ranges :: "(Gtid_range \<Rightarrow> 's \<Rightarrow> 's) \<Rightarrow> Gtid_set \<Rightarrow> 's \<Rightarrow> 's res" where
  "enumerate_ranges fn g st =
     (if \<not> m_normalized g then Inl (Invalid_argument ''Can't enumerate un-normalized Gtid_set'')
      else Inr (iter_ranges (m_gtid_set g) (\<lambda>u t b e. fn (Gtid_range_new u t b e)) st))"

text \<open>
  The loop of \<open>enumerate\<close>: \<open>i\<close> wraps around, so the loop does not end when the last value of the rng is
  the largest of the type.
\<close>

partial_function (option) enumerate_loop ::
  "(string \<Rightarrow> 's \<Rightarrow> 's) \<Rightarrow> string \<Rightarrow> u64 \<Rightarrow> u64 \<Rightarrow> 's \<Rightarrow> 's option" where
  "enumerate_loop fn ut i e st =
     (if i \<le> e then enumerate_loop fn ut (i + 1) e (fn (format_s ut @ '':'' @ format_u64 i) st)
      else Some st)"

definition enumerate :: "(string \<Rightarrow> 's \<Rightarrow> 's) \<Rightarrow> Gtid_set \<Rightarrow> 's \<Rightarrow> 's option res" where
  "enumerate fn g st0 =
     enumerate_ranges
       (\<lambda>rng st. case st of
          None \<Rightarrow> None
        | Some s \<Rightarrow> enumerate_loop fn (uuid_tag rng) (g_begin rng) (g_end rng) s)
       g (Some st0)"

definition has_tags :: "Gtid_set \<Rightarrow> bool" where
  "has_tags g = iter_ranges (m_gtid_set g) (\<lambda>u t b e has. has \<or> t \<noteq> []) False"

definition set_eq :: "Gtid_set \<Rightarrow> Gtid_set \<Rightarrow> bool res" where
  "set_eq g other =
     (if \<not> m_normalized g \<or> \<not> m_normalized other
      then Inl (Invalid_argument ''Can't compare un-normalized Gtid_set'')
      else Inr (m_gtid_set g = m_gtid_set other))"

subsection \<open>The ranges of a text\<close>

text \<open>A range as the callbacks see it: UUID, tag, first and last number.\<close>

type_synonym range4 = "string \<times> string \<times> u64 \<times> u64"

fun tag_tokens :: "string \<Rightarrow> string list \<Rightarrow> (string \<times> u64 \<times> u64) list" where
  "tag_tokens cur_tag [] = []"
| "tag_tokens cur_tag (r # rs) =
     (if r = [] then tag_tokens cur_tag rs
      else if is_gtid_tag r then tag_tokens r rs
      else case read_range r of
             Some (b, e) \<Rightarrow> (cur_tag, b, e) # tag_tokens cur_tag rs
           | None \<Rightarrow> tag_tokens cur_tag rs)"

definition item_ranges :: "string \<Rightarrow> range4 list" where
  "item_ranges gtid0 =
     (let gtid = str_strip_view gtid0 whitespace
      in case find_char gtid (CHR '':'') 0 of
           None \<Rightarrow> []
         | Some p \<Rightarrow> map (Pair (take p gtid))
                        (tag_tokens [] (split_on (\<lambda>c. c = CHR '':'') (drop (p + 1) gtid))))"

definition ranges_of :: "string \<Rightarrow> range4 list" where
  "ranges_of s = concat (map item_ranges (split_on (\<lambda>c. c = CHR '','') s))"

definition lower_tag :: "range4 \<Rightarrow> range4" where
  "lower_tag r = (case r of (u, t, b, e) \<Rightarrow> (u, map tolower t, b, e))"

definition range4_new :: "range4 \<Rightarrow> Gtid_range" where
  "range4_new r = (case r of (u, t, b, e) \<Rightarrow> Gtid_range_new u t b e)"

text \<open>The UUIDs and tags that the parser can give out.\<close>

definition uuid_ok :: "string \<Rightarrow> bool" where
  "uuid_ok u \<longleftrightarrow> CHR '':'' \<notin> set u \<and> CHR '','' \<notin> set u \<and> (u = [] \<or> hd u \<notin> set whitespace)"

definition range_ok :: "range4 \<Rightarrow> bool" where
  "range_ok r = (case r of (u, t, b, e) \<Rightarrow> uuid_ok u \<and> nul \<notin> set u \<and> (t = [] \<or> is_gtid_tag t))"

definition number :: "u64 \<Rightarrow> u64 \<Rightarrow> string" where
  "number b e = (if b = e then format_u64 b else format_u64 b @ ''-'' @ format_u64 e)"

text \<open>The printed form of a range, with the tag in lower case.\<close>

definition range_text :: "range4 \<Rightarrow> string" where
  "range_text r = (case r of (u, t, b, e) \<Rightarrow>
     u @ '':'' @ (if t = [] then [] else map tolower t @ '':'') @ number b e)"

text \<open>The numbers of a range, its GTIDs, and the GTIDs of a text as a set.\<close>

definition numbers :: "u64 \<Rightarrow> u64 \<Rightarrow> u64 list" where
  "numbers b e = map of_nat [unat b..<Suc (unat e)]"

definition range_gtids :: "range4 \<Rightarrow> (string \<times> u64) list" where
  "range_gtids r = map (Pair (uuid_tag (range4_new r))) (numbers (g_begin (range4_new r)) (g_end (range4_new r)))"

definition gtid_text :: "string \<times> u64 \<Rightarrow> string" where
  "gtid_text x = (case x of (ut, n) \<Rightarrow> format_s ut @ '':'' @ format_u64 n)"

definition gtids :: "string \<Rightarrow> (string \<times> u64) list" where
  "gtids s = concat (map range_gtids (ranges_of s))"

end
