(* ===== verification/Gtid_Facts.thy ===== *)
theory Gtid_Facts
  imports Gtid
begin

text \<open>
  The operations on GTID sets as operations on the list of ranges of their text: the iteration is a fold,
  printing a range reads back, adding appends and selecting filters.
\<close>

section \<open>Iteration\<close>

lemma itersplit_fold:
  assumes "\<And>t s. fst (f t s)"
  shows "snd (str_itersplit input f [c] (-1) False st) =
    fold (\<lambda>t s. snd (f t s)) (if input = [] then [] else split_on (\<lambda>x. x = c) input) st"
  using assms
  by (simp add: str_itersplit_def str_itersplit_loop_tokens iter_tokens_fold str_split_loop_split_on)

lemma tag_token_fst: "fst (tag_token cb t s)"
  by (auto simp: tag_token_def split: prod.splits option.splits)

lemma fold_tag_token:
  "snd (fold (\<lambda>t s. snd (tag_token cb t s)) rs (cur_tag, st)) =
     fold (\<lambda>(t, b, e). cb t b e) (tag_tokens cur_tag rs) st"
proof (induction rs arbitrary: cur_tag st)
  case (Cons r rs)
  then show ?case by (cases "read_range r") (auto simp: tag_token_def)
qed simp

lemma iter_tag_ranges_fold:
  "iter_tag_ranges ranges cb st =
     fold (\<lambda>(t, b, e). cb t b e) (tag_tokens [] (split_on (\<lambda>c. c = CHR '':'') ranges)) st"
  by (cases "ranges = []")
    (simp_all add: iter_tag_ranges_def itersplit_fold [OF tag_token_fst] fold_tag_token)

lemma fold_item: "fold f (map (Pair u) xs) st = fold (\<lambda>(t, b, e). f (u, t, b, e)) xs st"
  by (induction xs arbitrary: st) auto

lemma fold_concat_map: "fold f (concat (map g xs)) st = fold (\<lambda>x. fold f (g x)) xs st"
  by (induction xs arbitrary: st) auto

lemma item_ranges_Nil [simp]: "item_ranges [] = []"
  by (simp add: item_ranges_def str_strip_id find_char_def find_if_from_def)

lemma iter_ranges_fold:
  "iter_ranges s cb st = fold (\<lambda>(u, t, b, e). cb u t b e) (ranges_of s) st"
proof -
  let ?f = "\<lambda>gtid0 st. let gtid = str_strip_view gtid0 whitespace
          in case find_char gtid (CHR '':'') 0 of
               None \<Rightarrow> (True, st)
             | Some p \<Rightarrow> (True, iter_tag_ranges (drop (p + 1) gtid) (cb (substr gtid 0 p)) st)"
  have fst: "fst (?f t s)" for t s by (simp add: Let_def split: option.splits)
  have snd: "snd (?f t s) = fold (\<lambda>(u, t, b, e). cb u t b e) (item_ranges t) s" for t s
    by (auto simp: Let_def item_ranges_def iter_tag_ranges_fold fold_item substr_def split: option.splits)
  have "iter_ranges s cb st = fold (\<lambda>t s. snd (?f t s)) (if s = [] then [] else split_on (\<lambda>x. x = CHR '','') s) st"
    unfolding iter_ranges_def by (rule itersplit_fold) (rule fst)
  also have "\<dots> = fold (\<lambda>(u, t, b, e). cb u t b e) (ranges_of s) st"
    unfolding snd by (cases "s = []") (simp_all add: ranges_of_def fold_concat_map)
  finally show ?thesis .
qed

lemma ranges_of_Nil [simp]: "ranges_of [] = []"
  by (simp add: ranges_of_def)

lemma ranges_of_append: "ranges_of (a @ CHR '','' # b) = ranges_of a @ ranges_of b"
  by (simp add: ranges_of_def split_on_append)

lemma ranges_of_item: "CHR '','' \<notin> set s \<Longrightarrow> ranges_of s = item_ranges s"
  by (simp add: ranges_of_def)

section \<open>What the parser gives out\<close>

lemma strip_set: "set (str_strip_view s chars) \<subseteq> set s"
  by (auto simp: str_strip_rstrip_lstrip str_lstrip_dropWhile str_rstrip_dropWhile dest!: set_dropWhileD)

lemma strip_hd:
  assumes "str_strip_view s chars \<noteq> []"
  shows "hd (str_strip_view s chars) \<notin> set chars"
proof -
  have eq: "str_strip_view s chars = dropWhile (\<lambda>x. x \<in> set chars) (str_rstrip_view s chars)"
    by (simp add: str_strip_rstrip_lstrip str_lstrip_dropWhile)
  show ?thesis using hd_dropWhile [of "\<lambda>x. x \<in> set chars" "str_rstrip_view s chars"] assms unfolding eq by blast
qed

lemma tag_tokens_ok: "(t, b, e) \<in> set (tag_tokens cur rs) \<Longrightarrow> t = cur \<or> is_gtid_tag t"
  by (induction rs arbitrary: cur) (auto split: if_splits option.splits)

lemma split_on_part: "t \<in> set (split_on P xs) \<Longrightarrow> set t \<subseteq> set xs"
  by (induction xs arbitrary: t) (force split: if_splits list.splits)+

lemma item_ranges_ok:
  assumes "(u, t, b, e) \<in> set (item_ranges s)" and "CHR '','' \<notin> set s"
  shows "uuid_ok u \<and> set u \<subseteq> set s \<and> (t = [] \<or> is_gtid_tag t)"
proof -
  let ?g = "str_strip_view s whitespace"
  from assms(1) obtain p where p: "find_char ?g (CHR '':'') 0 = Some p" and u: "u = take p ?g"
    and t: "(t, b, e) \<in> set (tag_tokens [] (split_on (\<lambda>c. c = CHR '':'') (drop (p + 1) ?g)))"
    by (cases "find_char ?g (CHR '':'') 0") (auto simp: item_ranges_def Let_def)
  have sub: "set u \<subseteq> set s" using strip_set [of s whitespace] set_take_subset [of p ?g] by (auto simp: u)
  have idx: "index_of (\<lambda>x. x = CHR '':'') ?g = Some p" using p by (simp add: find_char_def find_if_from_def)
  have "CHR '':'' \<notin> set u" using index_of_split(2) [OF idx] by (auto simp: u)
  moreover have "u = [] \<or> hd u \<notin> set whitespace"
    using strip_hd [of s whitespace] by (cases "?g = []") (auto simp: u hd_take)
  ultimately show ?thesis using sub assms(2) tag_tokens_ok [OF t] by (auto simp: uuid_ok_def)
qed

lemma ranges_of_ok:
  assumes "(u, t, b, e) \<in> set (ranges_of s)"
  shows "uuid_ok u \<and> set u \<subseteq> set s \<and> (t = [] \<or> is_gtid_tag t)"
proof -
  from assms obtain i where i: "i \<in> set (split_on (\<lambda>c. c = CHR '','') s)" "(u, t, b, e) \<in> set (item_ranges i)"
    by (auto simp: ranges_of_def)
  then have "CHR '','' \<notin> set i" using split_on_tokens [of "\<lambda>c. c = CHR '',''" s] by auto
  with item_ranges_ok [OF i(2)] split_on_part [OF i(1)] show ?thesis by auto
qed

lemma ranges_of_range_ok: "nul \<notin> set s \<Longrightarrow> r \<in> set (ranges_of s) \<Longrightarrow> range_ok r"
  using ranges_of_ok by (cases r) (force simp: range_ok_def)

section \<open>Printing\<close>

lemma lexical_cast_format [simp]: "lexical_cast_u64 (format_u64 n) = Inr n"
proof -
  have eq: "takeWhile isdigit (nat_digits (unat n)) = nat_digits (unat n)"
    "dropWhile isdigit (nat_digits (unat n)) = []"
    using nat_digits_isdigit [of "unat n"] by (simp_all add: list_all_iff takeWhile_eq_all_conv)
  have "unat n < 2 ^ LENGTH(64)" by (rule unsigned_less)
  then show ?thesis by (simp add: lexical_cast_u64_def format_u64_def Let_def eq)
qed

lemma format_u64_chars:
  "format_u64 n \<noteq> []" "c \<in> set (format_u64 n) \<Longrightarrow> isdigit c"
  using nat_digits_isdigit [of "unat n"] by (auto simp: format_u64_def list_all_iff)

lemma isdigit_whitespace: "isdigit c \<Longrightarrow> c \<notin> set whitespace"
  by (auto simp: isdigit_def whitespace_def)

lemma number_chars:
  "number b e \<noteq> []" "c \<in> set (number b e) \<Longrightarrow> isdigit c \<or> c = CHR ''-''"
  "isdigit (hd (number b e))" "isdigit (last (number b e))"
  using format_u64_chars(2) format_u64_chars(2) [OF hd_in_set [OF format_u64_chars(1)]]
    format_u64_chars(2) [OF last_in_set [OF format_u64_chars(1)]]
  by (auto simp: number_def format_u64_chars(1) split: if_splits)

lemma read_range_number: "read_range (number b e) = Some (b, e)"
proof -
  have strip: "str_strip_view (number b e) whitespace = number b e"
    using number_chars isdigit_whitespace by (intro str_strip_id) auto
  have none: "index_of (\<lambda>x. x = CHR ''-'') (format_u64 n) = None" for n
    using format_u64_chars(2) [of "CHR ''-''" n] by (auto simp: index_of_None_iff isdigit_def)
  show ?thesis
  proof (cases "b = e")
    case True
    then show ?thesis
      using strip none by (simp add: read_range_def number_def find_char_def find_if_from_def)
  next
    case False
    then have "index_of (\<lambda>x. x = CHR ''-'') (number b e) = Some (length (format_u64 b))"
      using none [of b] by (simp add: number_def index_of_append)
    then show ?thesis
      using strip False by (simp add: read_range_def find_char_def find_if_from_def substr_def)
        (simp add: number_def)
  qed
qed

lemma tolower_tag: "is_tag_char c \<Longrightarrow> is_tag_char (tolower c)"
  by (auto simp: is_tag_char_def tolower_def)

lemma tolower_digit: "is_tag_char c \<Longrightarrow> 48 \<le> code (tolower c) \<and> code (tolower c) \<le> 57 \<Longrightarrow> 48 \<le> code c \<and> code c \<le> 57"
  by (auto simp: is_tag_char_def tolower_def split: if_splits)

lemma is_gtid_tag_lower:
  assumes "is_gtid_tag t"
  shows "is_gtid_tag (map tolower t)"
proof -
  have t: "t \<noteq> []" "length t \<le> 32" "list_all is_tag_char t" "\<not> (48 \<le> code (hd t) \<and> code (hd t) \<le> 57)"
    using assms by (auto simp: is_gtid_tag_def split: if_splits)
  then have "is_tag_char (hd t)" by (cases t) auto
  with t tolower_digit [of "hd t"] tolower_tag show ?thesis
    by (auto simp: is_gtid_tag_def list_all_iff hd_map)
qed

lemma is_gtid_tag_chars: "is_gtid_tag t \<Longrightarrow> c \<in> set t \<Longrightarrow> is_tag_char c"
  by (auto simp: is_gtid_tag_def list_all_iff split: if_splits)

lemma tag_char_not: "is_tag_char c \<Longrightarrow> c \<noteq> CHR '':'' \<and> c \<noteq> CHR '','' \<and> c \<noteq> nul"
  by (auto simp: is_tag_char_def)

lemma is_gtid_tag_number: "\<not> is_gtid_tag (number b e)"
  using number_chars(3) [of b e] by (auto simp: is_gtid_tag_def isdigit_def)

lemma number_colon: "CHR '':'' \<notin> set (number b e)" "CHR '','' \<notin> set (number b e)"
  using number_chars(2) [of "CHR '':''" b e] number_chars(2) [of "CHR '',''" b e] by (auto simp: isdigit_def)

lemma range_str_text:
  assumes "range_ok r"
  shows "range_str (range4_new r) = range_text r"
proof -
  obtain u t b e where r: "r = (u, t, b, e)" by (cases r)
  have "nul \<notin> set u" "nul \<notin> set (map tolower t)"
    using assms is_gtid_tag_lower [of t] is_gtid_tag_chars tag_char_not
    by (force simp: r range_ok_def)+
  then have "format_s u = u" "format_s (u @ '':'' @ map tolower t) = u @ '':'' @ map tolower t"
    by (auto simp: format_s_def takeWhile_eq_all_conv)
  then show ?thesis
    by (auto simp: r range4_new_def Gtid_range_new_def range_str_def range_text_def number_def)
qed

lemma range_text_parts:
  assumes "uuid_ok u" and "t = [] \<or> is_gtid_tag t"
  shows "ranges_of (range_text (u, t, b, e)) = [(u, map tolower t, b, e)]"
proof -
  let ?s = "range_text (u, t, b, e)" and ?n = "number b e"
  have comma: "CHR '','' \<notin> set (map tolower t)" and colon: "CHR '':'' \<notin> set (map tolower t)"
    using assms(2) is_gtid_tag_lower [of t] is_gtid_tag_chars [of "map tolower t"] tag_char_not by force+
  have strip: "str_strip_view ?s whitespace = ?s"
  proof (rule str_strip_id)
    have "hd ?s \<notin> set whitespace"
      using assms(1) by (cases u) (auto simp: range_text_def uuid_ok_def whitespace_def)
    moreover have "last ?s = last ?n" using number_chars(1) [of b e] by (simp add: range_text_def)
    ultimately show "?s = [] \<or> hd ?s \<notin> set whitespace \<and> last ?s \<notin> set whitespace"
      using number_chars(4) [of b e] isdigit_whitespace by simp
  qed
  have "index_of (\<lambda>x. x = CHR '':'') ?s = Some (length u)"
    using assms(1) by (auto simp: range_text_def uuid_ok_def intro!: index_of_skip)
  moreover have "tag_tokens [] (split_on (\<lambda>c. c = CHR '':'') (drop (Suc (length u)) ?s)) = [(map tolower t, b, e)]"
    using assms(2) colon number_colon(1) [of b e] is_gtid_tag_lower [of t]
    by (auto simp: range_text_def split_on_append number_chars(1) is_gtid_tag_number read_range_number)
  ultimately have "item_ranges ?s = [(u, map tolower t, b, e)]"
    by (simp add: item_ranges_def strip find_char_def find_if_from_def) (simp add: range_text_def)
  moreover have "CHR '','' \<notin> set ?s"
    using assms(1) comma number_colon(2) [of b e] by (auto simp: range_text_def uuid_ok_def)
  ultimately show ?thesis by (simp add: ranges_of_item)
qed

lemma ranges_of_range_str:
  assumes "range_ok r"
  shows "ranges_of (range_str (range4_new r)) = [lower_tag r]"
proof -
  obtain u t b e where r: "r = (u, t, b, e)" by (cases r)
  then show ?thesis
    using assms range_text_parts [of u t b e]
    unfolding range_str_text [OF assms] by (simp add: lower_tag_def range_ok_def)
qed

section \<open>Adding and selecting\<close>

lemma ranges_of_add_gtid: "ranges_of (m_gtid_set (add_gtid x g)) = ranges_of (m_gtid_set g) @ ranges_of x"
  by (simp add: add_gtid_def ranges_of_append)

lemma ranges_of_add_set:
  "ranges_of (m_gtid_set (add_set h g)) = ranges_of (m_gtid_set g) @ ranges_of (m_gtid_set h)"
  by (auto simp: add_set_def ranges_of_append)

lemma ranges_of_add_range:
  "range_ok r \<Longrightarrow> ranges_of (m_gtid_set (add_range (range4_new r) g)) = ranges_of (m_gtid_set g) @ [lower_tag r]"
  by (simp add: add_range_def ranges_of_append ranges_of_range_str)

lemma fold_add_range:
  "list_all range_ok rs \<Longrightarrow>
     ranges_of (m_gtid_set (fold (\<lambda>r g. if P r then add_range (range4_new r) g else g) rs g)) =
       ranges_of (m_gtid_set g) @ map lower_tag (filter P rs)"
  by (induction rs arbitrary: g) (simp_all add: ranges_of_add_range)

lemma selected:
  assumes "nul \<notin> set s"
    and "\<And>u t b e g. cb u t b e g = (if P (u, t, b, e) then add_range (Gtid_range_new u t b e) g else g)"
  shows "ranges_of (m_gtid_set (iter_ranges s cb Gtid_set_new)) = map lower_tag (filter P (ranges_of s))"
proof -
  have ok: "list_all range_ok (ranges_of s)"
    using ranges_of_range_ok [OF assms(1)] by (simp add: list_all_iff)
  have "(\<lambda>(u, t, b, e). cb u t b e) = (\<lambda>r g. if P r then add_range (range4_new r) g else g)"
    by (auto simp: assms(2) fun_eq_iff range4_new_def)
  then have "iter_ranges s cb Gtid_set_new =
      fold (\<lambda>r g. if P r then add_range (range4_new r) g else g) (ranges_of s) Gtid_set_new"
    by (simp only: iter_ranges_fold)
  with fold_add_range [OF ok, of P Gtid_set_new] show ?thesis by (simp add: Gtid_set_new_def)
qed

lemma ranges_of_new [simp]: "ranges_of (m_gtid_set Gtid_set_new) = []"
  by (simp add: Gtid_set_new_def)

lemma str_caseeq_Nil: "str_caseeq [] t \<longleftrightarrow> t = []"
  by (auto simp: str_caseeq_def)

section \<open>Counting and enumerating\<close>

lemma numbers_empty: "e < b \<Longrightarrow> numbers b e = []"
  by (simp add: numbers_def word_less_nat_alt)

lemma unat_Suc: "b \<noteq> - 1 \<Longrightarrow> unat (b + 1 :: u64) = Suc (unat b)"
proof -
  assume "b \<noteq> - 1"
  then have "1 + b \<noteq> 0" using add.inverse_unique [of 1 b] by auto
  from unatSuc [OF this] show ?thesis by (simp only: add.commute)
qed

lemma numbers_Cons:
  assumes "b \<le> e" and "e \<noteq> - 1"
  shows "numbers b e = b # numbers (b + 1) e"
proof -
  have "b \<noteq> - 1" using assms by (auto simp: word_order.extremum_unique)
  then have "unat (b + 1) = Suc (unat b)" by (rule unat_Suc)
  moreover have "unat b \<le> unat e" using assms(1) by (simp add: word_le_nat_alt)
  ultimately show ?thesis by (simp add: numbers_def upt_conv_Cons del: upt_Suc)
qed

lemma enumerate_loop_ends:
  assumes "e \<noteq> - 1"
  shows "enumerate_loop fn ut b e st = Some (fold (\<lambda>n. fn (gtid_text (ut, n))) (numbers b e) st)"
proof (induction "unat e + 1 - unat b" arbitrary: b st)
  case 0
  then have "e < b" by (simp add: word_less_nat_alt)
  then show ?case by (subst enumerate_loop.simps) (simp add: numbers_empty not_le [symmetric])
next
  case (Suc k)
  then have le: "b \<le> e" by (simp add: word_le_nat_alt)
  have "b \<noteq> - 1" using le assms by (auto simp: word_order.extremum_unique)
  then have "k = unat e + 1 - unat (b + 1)" using Suc.hyps(2) by (simp add: unat_Suc)
  from Suc.hyps(1) [OF this] show ?case
    by (subst enumerate_loop.simps) (simp add: le numbers_Cons [OF le assms] gtid_text_def)
qed

lemma enumerate_loop_last: "enumerate_loop fn ut b e st = Some r \<Longrightarrow> e \<noteq> - 1"
  by (rule enumerate_loop.raw_induct [where P = "\<lambda>fn ut i e st r. e \<noteq> - 1"])
    (auto split: if_splits)

lemma enumerate_loop_diverges: "enumerate_loop fn ut b (- 1) st = None"
  using enumerate_loop_last by fastforce

lemma length_numbers:
  assumes "b \<le> e"
  shows "of_nat (length (numbers b e)) = e - b + (1 :: u64)"
proof -
  have "unat b \<le> unat e" using assms by (simp add: word_le_nat_alt)
  then have "of_nat (length (numbers b e)) = (of_nat (unat e - unat b) + 1 :: u64)"
    by (simp add: numbers_def Suc_diff_le ac_simps del: upt_Suc)
  also have "\<dots> = e - b + 1" using \<open>unat b \<le> unat e\<close> by (simp add: of_nat_diff)
  finally show ?thesis .
qed

lemma count_fold:
  "list_all (\<lambda>(u, t, b, e). b \<le> e) rs \<Longrightarrow>
     fold (\<lambda>(u, t, b, e) c. c + (e - b + 1)) rs c = c + of_nat (length (concat (map range_gtids rs)))"
proof (induction rs arbitrary: c)
  case (Cons r rs)
  obtain u t b e where r: "r = (u, t, b, e)" by (cases r)
  have "of_nat (length (range_gtids r)) = e - b + (1 :: u64)"
    using Cons.prems length_numbers [of b e] by (simp add: r range_gtids_def range4_new_def Gtid_range_new_def)
  with Cons show ?case by (simp add: r algebra_simps)
qed simp

lemma enumerate_fold:
  "list_all (\<lambda>(u, t, b, e). e \<noteq> - 1) rs \<Longrightarrow>
     fold (\<lambda>(u, t, b, e) st. case st of None \<Rightarrow> None
         | Some s \<Rightarrow> enumerate_loop fn (uuid_tag (Gtid_range_new u t b e)) (g_begin (Gtid_range_new u t b e))
             (g_end (Gtid_range_new u t b e)) s) rs (Some st) =
       Some (fold (\<lambda>x. fn (gtid_text x)) (concat (map range_gtids rs)) st)"
proof (induction rs arbitrary: st)
  case (Cons r rs)
  obtain u t b e where r: "r = (u, t, b, e)" by (cases r)
  have "g_end (Gtid_range_new u t b e) \<noteq> - 1" using Cons.prems by (simp add: r Gtid_range_new_def)
  from enumerate_loop_ends [OF this]
  have "enumerate_loop fn (uuid_tag (Gtid_range_new u t b e)) (g_begin (Gtid_range_new u t b e))
      (g_end (Gtid_range_new u t b e)) st = Some (fold (\<lambda>x. fn (gtid_text x)) (range_gtids r) st)"
    by (simp add: r range_gtids_def range4_new_def fold_map comp_def)
  with Cons show ?case by (simp add: r)
qed simp

lemma enumerate_eq:
  assumes "m_normalized g" and "list_all (\<lambda>(u, t, b, e). e \<noteq> - 1) (ranges_of (m_gtid_set g))"
  shows "enumerate fn g st = Inr (Some (fold (\<lambda>x. fn (gtid_text x)) (gtids (m_gtid_set g)) st))"
  using enumerate_fold [OF assms(2), of fn st] assms(1)
  by (simp add: enumerate_def enumerate_ranges_def iter_ranges_fold gtids_def)

section \<open>Properties\<close>

text \<open>
  C30. Printing a GTID range and reading it again with \<open>Gtid_range::from_gtid\<close> gives the same range, for every
  UUID without colons, commas, NUL characters and leading spaces, every valid tag in any case, and all numbers;
  and the text reads as that one range.
\<close>

theorem gtid_range_roundtrip:
  assumes "range_ok (u, t, b, e)"
  shows "from_gtid (range_str (Gtid_range_new u t b e)) = Gtid_range_new u t b e \<and>
    ranges_of (range_str (Gtid_range_new u t b e)) = [(u, map tolower t, b, e)]"
proof -
  have ranges: "ranges_of (range_str (Gtid_range_new u t b e)) = [(u, map tolower t, b, e)]"
    using ranges_of_range_str [OF assms] by (simp add: range4_new_def lower_tag_def)
  have "tolower (tolower c) = tolower c" for c by (auto simp: tolower_def)
  then show ?thesis
    using ranges by (simp add: from_gtid_def iter_ranges_fold Gtid_range_new_def comp_def)
qed

theorem gtid_range_roundtrip_witness:
  "from_gtid (range_str (Gtid_range_new ''0a-b'' ''Tag_1'' 5 18446744073709551615)) =
     Gtid_range_new ''0a-b'' ''Tag_1'' 5 18446744073709551615"
  using gtid_range_roundtrip [of "''0a-b''" "''Tag_1''" 5 18446744073709551615]
  by (simp add: range_ok_def uuid_ok_def whitespace_def is_gtid_tag_def is_tag_char_def)

text \<open>
  On the ranges of a set: \<open>add\<close> of a GTID or of a set appends its ranges in order, and for a
  text without NUL characters \<open>get_gtids_from\<close> keeps exactly the ranges of the UUID, and of the tag up to case
  when one is given, \<open>get_gtids_tagged\<close> those with a tag, in order and with the tag in lower case; \<open>has_tags\<close>
  tells whether there is any.
\<close>

lemma gtid_set_ranges:
  "ranges_of (m_gtid_set (add_gtid x g)) = ranges_of (m_gtid_set g) @ ranges_of x \<and>
   ranges_of (m_gtid_set (add_set h g)) = ranges_of (m_gtid_set g) @ ranges_of (m_gtid_set h) \<and>
   (has_tags g \<longleftrightarrow> (\<exists>(u, t, b, e) \<in> set (ranges_of (m_gtid_set g)). t \<noteq> [])) \<and>
   (nul \<notin> set (m_gtid_set g) \<longrightarrow>
      ranges_of (m_gtid_set (get_gtids_tagged g)) =
        map lower_tag (filter (\<lambda>(u, t, b, e). t \<noteq> []) (ranges_of (m_gtid_set g))) \<and>
      (uuid \<noteq> [] \<longrightarrow> ranges_of (m_gtid_set (get_gtids_from uuid g)) =
        map lower_tag (filter (\<lambda>(u, t, b, e). u = uuid) (ranges_of (m_gtid_set g)))) \<and>
      (uuid \<noteq> [] \<and> tag \<noteq> [] \<longrightarrow> ranges_of (m_gtid_set (get_gtids_from_tag uuid tag g)) =
        map lower_tag (filter (\<lambda>(u, t, b, e). u = uuid \<and> str_caseeq t tag) (ranges_of (m_gtid_set g)))))"
proof (intro conjI impI)
  have "fold (\<lambda>(u, t, b, e) has. has \<or> t \<noteq> []) rs a \<longleftrightarrow> a \<or> (\<exists>(u, t, b, e) \<in> set rs. t \<noteq> [])" for rs :: "range4 list" and a
    by (induction rs arbitrary: a) auto
  then show "has_tags g \<longleftrightarrow> (\<exists>(u, t, b, e) \<in> set (ranges_of (m_gtid_set g)). t \<noteq> [])"
    by (simp add: has_tags_def iter_ranges_fold)
qed (auto simp: ranges_of_add_gtid ranges_of_add_set get_gtids_tagged_def get_gtids_from_def get_gtids_from_tag_def
    intro!: selected)

text \<open>
  C31. For a normalized set whose ranges are not inverted and end below the largest 64-bit number, \<open>enumerate\<close>
  ends and calls its function on every GTID of every range, in order, and \<open>count\<close> is their number modulo
  \<^verbatim>\<open>2^64\<close>; where a range ends at the largest number its loop never ends; both refuse a set that is not normalized.
\<close>

theorem gtid_enumerate_count:
  "(m_normalized g \<and> list_all (\<lambda>(u, t, b, e). b \<le> e \<and> e \<noteq> - 1) (ranges_of (m_gtid_set g)) \<longrightarrow>
      enumerate fn g st = Inr (Some (fold (\<lambda>x. fn (gtid_text x)) (gtids (m_gtid_set g)) st)) \<and>
      set_count g = Inr (of_nat (length (gtids (m_gtid_set g))))) \<and>
   enumerate_loop fn ut b (- 1) st = None \<and>
   (\<not> m_normalized g \<longrightarrow> isl (enumerate fn g st) \<and> isl (set_count g))"
proof (intro conjI impI)
  assume h: "m_normalized g \<and> list_all (\<lambda>(u, t, b, e). b \<le> e \<and> e \<noteq> - 1) (ranges_of (m_gtid_set g))"
  then show "enumerate fn g st = Inr (Some (fold (\<lambda>x. fn (gtid_text x)) (gtids (m_gtid_set g)) st))"
    by (intro enumerate_eq) (auto simp: list_all_iff)
  have "list_all (\<lambda>(u, t, b, e). b \<le> e) (ranges_of (m_gtid_set g))" using h by (auto simp: list_all_iff)
  from count_fold [OF this, of 0] h show "set_count g = Inr (of_nat (length (gtids (m_gtid_set g))))"
    by (simp add: set_count_def iter_ranges_fold gtids_def)
qed (simp_all add: enumerate_loop_diverges enumerate_def enumerate_ranges_def set_count_def)

theorem gtid_enumerate_count_witness:
  "set_count (add_range (Gtid_range_new ''u'' [] 3 9) Gtid_set_new) = Inr 7"
proof -
  let ?g = "add_range (Gtid_range_new ''u'' [] 3 9) Gtid_set_new"
  have "ranges_of (m_gtid_set ?g) = [(''u'', [], 3, 9)]"
    using ranges_of_add_range [of "(''u'', [], 3, 9)" Gtid_set_new]
    by (simp add: range4_new_def range_ok_def uuid_ok_def whitespace_def lower_tag_def)
  moreover have "m_normalized ?g" by (simp add: add_range_def Gtid_set_new_def)
  moreover have "length (range_gtids (''u'', [], 3, 9)) = 7"
    by (simp add: range_gtids_def numbers_def range4_new_def Gtid_range_new_def)
  ultimately show ?thesis using gtid_enumerate_count [of ?g "\<lambda>x n. Suc n" 0] by (simp add: gtids_def)
qed

end
