(* ===== verification/Shell_Version.thy ===== *)
theory Shell_Version
  imports Strings_Facts "HOL-Library.Product_Lexorder"
begin

text \<open>
  \<open>Version\<close> of \<^verbatim>\<open>mysqlshdk/libs/utils/version.cc\<close>: parsing and printing, the comparison operators, and
  the correspondence between the release series. An \<open>int\<close> of the code is an integer; the bounds
  within which no operation overflows are in the statements, and the sums of \<open>corresponding_versions\<close> are checked for it.
\<close>

section \<open>Definitions\<close>

record Version =
  v_major :: int
  v_minor :: "int option"
  v_patch :: "int option"
  v_extra :: "string option"

definition value_or :: "'a option \<Rightarrow> 'a \<Rightarrow> 'a" where
  "value_or x d = (case x of None \<Rightarrow> d | Some v \<Rightarrow> v)"

definition Version_2 :: "int \<Rightarrow> int \<Rightarrow> Version" where
  "Version_2 major minor = \<lparr>v_major = major, v_minor = Some minor, v_patch = None, v_extra = None\<rparr>"

definition Version_3 :: "int \<Rightarrow> int \<Rightarrow> int \<Rightarrow> Version" where
  "Version_3 major minor patch =
     \<lparr>v_major = major, v_minor = Some minor, v_patch = Some patch, v_extra = None\<rparr>"

definition get_major :: "Version \<Rightarrow> int" where "get_major v = v_major v"
definition get_minor :: "Version \<Rightarrow> int" where "get_minor v = value_or (v_minor v) 0"
definition get_patch :: "Version \<Rightarrow> int" where "get_patch v = value_or (v_patch v) 0"
definition get_extra :: "Version \<Rightarrow> string" where "get_extra v = value_or (v_extra v) []"

subsection \<open>Parsing and printing\<close>

text \<open>
  \<^verbatim>\<open>std::from_chars\<close> for an \<open>int\<close>: an optional minus sign and the longest run of digits; the value
  with the characters that were not consumed, or one of the two errors.
\<close>

datatype errc = Errc_invalid_argument | Errc_result_out_of_range

definition from_chars_int :: "string \<Rightarrow> errc + (int \<times> string)" where
  "from_chars_int s =
     (let neg = (case s of c # _ \<Rightarrow> c = CHR ''-'' | [] \<Rightarrow> False);
          t = (if neg then tl s else s);
          digits = takeWhile isdigit t;
          value = (if neg then - int (digits_value digits) else int (digits_value digits))
      in if digits = [] then Inl Errc_invalid_argument
         else if value < - (2 ^ 31) \<or> 2 ^ 31 \<le> value then Inl Errc_result_out_of_range
         else Inr (value, dropWhile isdigit t))"

definition parse_token :: "string \<Rightarrow> int res" where
  "parse_token data =
     (case from_chars_int data of
        Inr (value, rest) \<Rightarrow>
          (if rest \<noteq> [] then Inl (Invalid_argument ''Error parsing version: Only digits allowed for version numbers'')
           else Inr value)
      | Inl Errc_invalid_argument \<Rightarrow> Inl (Invalid_argument ''Error parsing version: Not an integer'')
      | Inl Errc_result_out_of_range \<Rightarrow> Inl (Invalid_argument ''Error parsing version: Out of integer range''))"

definition Version_digits :: "string \<Rightarrow> Version res" where
  "Version_digits version =
     bind_res (parse_token (substr version 0 1)) (\<lambda>major.
     bind_res (parse_token (substr version 1 2)) (\<lambda>minor.
     bind_res (parse_token (substr version 3 2)) (\<lambda>patch.
     Inr \<lparr>v_major = major, v_minor = Some minor, v_patch = Some patch, v_extra = None\<rparr>)))"

definition Version_tokens :: "string list \<Rightarrow> string option \<Rightarrow> Version res" where
  "Version_tokens base_tokens extra =
     (case base_tokens of
        [a, b, c] \<Rightarrow>
          bind_res (parse_token c) (\<lambda>patch. bind_res (parse_token b) (\<lambda>minor. bind_res (parse_token a) (\<lambda>major.
          Inr \<lparr>v_major = major, v_minor = Some minor, v_patch = Some patch, v_extra = extra\<rparr>)))
      | [a, b] \<Rightarrow>
          bind_res (parse_token b) (\<lambda>minor. bind_res (parse_token a) (\<lambda>major.
          Inr \<lparr>v_major = major, v_minor = Some minor, v_patch = None, v_extra = extra\<rparr>))
      | [a] \<Rightarrow>
          bind_res (parse_token a) (\<lambda>major.
          Inr \<lparr>v_major = major, v_minor = None, v_patch = None, v_extra = extra\<rparr>)
      | _ \<Rightarrow> Inl (Invalid_argument ''Invalid version format: 1 to 3 version numbers expected''))"

definition Version_parse :: "string \<Rightarrow> Version res" where
  "Version_parse version =
     (if version = [] then Inr \<lparr>v_major = 0, v_minor = None, v_patch = None, v_extra = None\<rparr>
      else
        (let tokens = str_split version ''-'' 1 False
         in if length tokens = 1 \<and> length version = 5 \<and> list_all isdigit version
            then Version_digits version
            else Version_tokens (str_split (tokens ! 0) ''.'' (-1) False)
                   (if length tokens = 2 then Some (tokens ! 1) else None)))"

definition get_short :: "Version \<Rightarrow> string" where
  "get_short v = to_string (v_major v) @
     (case v_minor v of Some minor \<Rightarrow> ''.'' @ to_string minor | None \<Rightarrow> [])"

definition get_base :: "Version \<Rightarrow> string" where
  "get_base v = get_short v @
     (case (v_minor v, v_patch v) of (Some _, Some patch) \<Rightarrow> ''.'' @ to_string patch | _ \<Rightarrow> [])"

definition get_full :: "Version \<Rightarrow> string" where
  "get_full v = get_base v @ (case v_extra v of Some extra \<Rightarrow> ''-'' @ extra | None \<Rightarrow> [])"

definition numeric :: "Version \<Rightarrow> int" where
  "numeric v = (get_major v * 10000 + get_minor v * 100 + get_patch v) mod 2 ^ 32"

definition numeric_version_series :: "Version \<Rightarrow> int" where
  "numeric_version_series v = numeric v div 100"

definition is_mds :: "Version \<Rightarrow> bool" where
  "is_mds v = (case v_extra v of None \<Rightarrow> False | Some extra \<Rightarrow> str_endswith extra ''cloud'')"

subsection \<open>Comparison\<close>

definition version_lt :: "Version \<Rightarrow> Version \<Rightarrow> bool" where
  "version_lt v other \<longleftrightarrow>
     v_major v < v_major other \<or>
     (v_major v = v_major other \<and>
       (get_minor v < get_minor other \<or>
         (get_minor v = get_minor other \<and> get_patch v < get_patch other)))"

definition version_le :: "Version \<Rightarrow> Version \<Rightarrow> bool" where
  "version_le v other \<longleftrightarrow>
     version_lt v other \<or>
     (v_major v = v_major other \<and> get_minor v = get_minor other \<and> get_patch v = get_patch other)"

definition version_gt :: "Version \<Rightarrow> Version \<Rightarrow> bool" where
  "version_gt v other \<longleftrightarrow> \<not> version_le v other"

definition version_ge :: "Version \<Rightarrow> Version \<Rightarrow> bool" where
  "version_ge v other \<longleftrightarrow> \<not> version_lt v other"

definition version_eq :: "Version \<Rightarrow> Version \<Rightarrow> bool" where
  "version_eq v other \<longleftrightarrow>
     v_major v = v_major other \<and> get_minor v = get_minor other \<and> get_patch v = get_patch other"

definition version_ne :: "Version \<Rightarrow> Version \<Rightarrow> bool" where
  "version_ne v other \<longleftrightarrow> \<not> version_eq v other"

definition version_bool :: "Version \<Rightarrow> bool" where
  "version_bool v \<longleftrightarrow> \<not> (get_major v = 0 \<and> get_minor v = 0 \<and> get_patch v = 0)"

definition major_version_difference :: "Version \<Rightarrow> Version \<Rightarrow> int" where
  "major_version_difference source target =
     (let major_version = (\<lambda>v. let m = get_major v in if 5 = m \<and> 7 = get_minor v then 7 else m)
      in major_version target - major_version source)"

subsection \<open>Release series\<close>

definition k_minor_version_8_0 :: int where "k_minor_version_8_0 = 0"
definition k_minor_version_8_4 :: int where "k_minor_version_8_4 = 4"
definition k_minor_version :: int where "k_minor_version = 7"
definition k_release_8_0_id :: int where "k_release_8_0_id = 7"

definition is_lts_release :: "Version \<Rightarrow> bool" where
  "is_lts_release v =
     (if 8 = get_major v
      then k_minor_version_8_0 = get_minor v \<or> k_minor_version_8_4 = get_minor v
      else k_minor_version = get_minor v)"

text \<open>The table of \<open>detail::off_cycle_releases\<close>; a \<^verbatim>\<open>std::set\<close> is the ascending list of its elements.\<close>

definition off_cycle_table :: "int \<Rightarrow> int list option" where
  "off_cycle_table version_id =
     (if version_id = k_release_8_0_id then Some [39] else if version_id = 8 then Some [2] else None)"

definition off_cycle_releases :: "Version \<Rightarrow> int list option" where
  "off_cycle_releases v =
     (let major = (if 8 = get_major v \<and> k_minor_version_8_0 = get_minor v then k_release_8_0_id else get_major v)
      in off_cycle_table major)"

definition is_off_cycle_release :: "Version \<Rightarrow> bool" where
  "is_off_cycle_release v =
     (if \<not> is_lts_release v then get_patch v \<noteq> 0
      else case off_cycle_releases v of Some patch_versions \<Rightarrow> get_patch v \<in> set patch_versions | None \<Rightarrow> False)"

definition count_planned_releases :: "int \<Rightarrow> int \<Rightarrow> int" where
  "count_planned_releases major minor = (if 8 \<noteq> major then minor + 1 else minor)"

text \<open>The loop of \<open>count_off_cycle_releases\<close>, over the releases from the latest one.\<close>

fun count_down :: "int \<Rightarrow> int list \<Rightarrow> int \<Rightarrow> int" where
  "count_down patch [] count = count"
| "count_down patch (r # rs) count = (if r > patch then count_down patch rs (count - 1) else count)"

definition count_off_cycle_releases :: "Version \<Rightarrow> int" where
  "count_off_cycle_releases v =
     (case off_cycle_releases v of
        Some patch_versions \<Rightarrow> count_down (get_patch v) (rev patch_versions) (int (length patch_versions))
      | None \<Rightarrow> 0)"

text \<open>The sums of \<open>corresponding_versions\<close>, where \<^const>\<open>None\<close> is an overflow of \<^verbatim>\<open>int\<close>, which is undefined behaviour.\<close>

definition in_int :: "int \<Rightarrow> int option" where
  "in_int n = (if - (2 ^ 31) \<le> n \<and> n < 2 ^ 31 then Some n else None)"

text \<open>\<open>lts_release_patch\<close>, with its loop over the off-cycle releases from the latest one.\<close>

fun patch_loop :: "bool \<Rightarrow> int list \<Rightarrow> int \<Rightarrow> int" where
  "patch_loop allow_off_cycle [] releases = releases"
| "patch_loop allow_off_cycle (r # rs) releases =
     (if r < releases then releases
      else if r = releases then (if \<not> allow_off_cycle then releases - 1 else releases)
      else patch_loop allow_off_cycle rs (releases - 1))"

definition lts_release_patch :: "int \<Rightarrow> int \<Rightarrow> bool \<Rightarrow> int option" where
  "lts_release_patch major releases allow_off_cycle =
     (case off_cycle_table major of
        Some patch_versions \<Rightarrow>
          map_option (patch_loop allow_off_cycle (rev patch_versions)) (in_int (releases + int (length patch_versions)))
      | None \<Rightarrow> Some releases)"

text \<open>
  The loop of \<open>corresponding_versions\<close>: \<open>result\<close> with its latest element first, so that the list
  returned is the reversed vector. It does not end when the first major version is below 8.
\<close>

partial_function (option) corresponding_loop :: "bool \<Rightarrow> Version list \<Rightarrow> int \<Rightarrow> Version list option" where
  "corresponding_loop is_off_cycle result planned_releases =
     (let lts_release_major = get_major (hd result) - 1
      in if k_release_8_0_id = lts_release_major
         then (case in_int (33 + planned_releases) of
                 None \<Rightarrow> None
               | Some releases \<Rightarrow>
                   map_option (\<lambda>patch. Version_3 8 k_minor_version_8_0 patch # result)
                     (lts_release_patch k_release_8_0_id releases is_off_cycle))
         else
           (let lts_release_minor = (if 8 = lts_release_major then k_minor_version_8_4 else k_minor_version)
            in case lts_release_patch lts_release_major planned_releases is_off_cycle of
                 None \<Rightarrow> None
               | Some patch \<Rightarrow>
                   (case in_int (planned_releases + count_planned_releases lts_release_major lts_release_minor) of
                      None \<Rightarrow> None
                    | Some planned_releases' \<Rightarrow>
                        corresponding_loop is_off_cycle
                          (Version_3 lts_release_major lts_release_minor patch # result) planned_releases')))"

definition corresponding_versions :: "Version \<Rightarrow> Version list option" where
  "corresponding_versions version =
     (let planned = count_planned_releases (get_major version) (get_minor version)
      in case (if is_lts_release version then in_int (planned + get_patch version) else Some planned) of
           None \<Rightarrow> None
         | Some planned_releases \<Rightarrow>
             corresponding_loop (is_off_cycle_release version) [version]
               (if is_lts_release version then planned_releases - count_off_cycle_releases version else planned_releases))"

text \<open>What the assertions of \<open>corresponding_versions\<close> demand.\<close>

definition corresponding_pre :: "Version \<Rightarrow> bool" where
  "corresponding_pre version \<longleftrightarrow>
     version_ge version (Version_3 8 1 0) \<and>
     (get_major version = 8 \<and> get_minor version \<le> k_minor_version_8_4 \<or>
      get_major version > 8 \<and> get_minor version \<le> k_minor_version)"

definition get_first_lts_version :: "Version \<Rightarrow> Version" where
  "get_first_lts_version version =
     (let major = get_major version in if major = 8 then Version_3 8 4 0 else Version_3 major 7 0)"

definition get_first_innovation_version :: "Version \<Rightarrow> Version" where
  "get_first_innovation_version version =
     (let major = get_major version in if major = 8 then Version_3 8 1 0 else Version_3 major 0 0)"

text \<open>
  The number of planned releases from 8.0.33 to a version: the 8 series has four before its LTS series ends
  the count, each later one has eight, and inside an LTS series every patch that is not off-cycle is planned.
\<close>

definition release_round :: "Version \<Rightarrow> int" where
  "release_round v =
     (if get_major v = 8 \<and> get_minor v = 0 then get_patch v - count_off_cycle_releases v - 33
      else (if get_major v = 8 then 0 else 4 + 8 * (get_major v - 9))
         + count_planned_releases (get_major v) (get_minor v)
         + (if is_lts_release v then get_patch v - count_off_cycle_releases v else 0))"

text \<open>
  In an LTS series an off-cycle release has the same number of planned releases as the release before it. The earliest and the latest
  release of the series of a version with the number of the version.
\<close>

definition round_mate :: "Version \<Rightarrow> Version \<Rightarrow> bool" where
  "round_mate v w \<longleftrightarrow>
     get_major w = get_major v \<and> get_minor w = get_minor v \<and> 0 \<le> get_patch w \<and> release_round w = release_round v"

definition first_of_round :: "Version \<Rightarrow> bool" where
  "first_of_round v \<longleftrightarrow> (\<forall>w. round_mate v w \<longrightarrow> get_patch v \<le> get_patch w)"

definition last_of_round :: "Version \<Rightarrow> bool" where
  "last_of_round v \<longleftrightarrow> (\<forall>w. round_mate v w \<longrightarrow> get_patch w \<le> get_patch v)"

text \<open>The sums of \<open>corresponding_versions\<close> stay in the range of \<^verbatim>\<open>int\<close>.\<close>

definition version_bounded :: "Version \<Rightarrow> bool" where
  "version_bounded v \<longleftrightarrow> 0 \<le> get_minor v \<and> 0 \<le> get_patch v \<and> get_patch v + 8 * get_major v < 2 ^ 31"

definition version_key :: "Version \<Rightarrow> int \<times> int \<times> int" where
  "version_key v = (get_major v, get_minor v, get_patch v)"

text \<open>The versions whose printed form reads back: no negative number, and no patch without a minor.\<close>

definition int_ok :: "int \<Rightarrow> bool" where
  "int_ok n \<longleftrightarrow> 0 \<le> n \<and> n < 2 ^ 31"

definition version_printable :: "Version \<Rightarrow> bool" where
  "version_printable v \<longleftrightarrow>
     int_ok (v_major v) \<and> pred_option int_ok (v_minor v) \<and> pred_option int_ok (v_patch v) \<and>
     (v_minor v = None \<longrightarrow> v_patch v = None) \<and>
     (v_minor v = None \<and> v_extra v = None \<longrightarrow> length (to_string (v_major v)) \<noteq> 5)"

text \<open>The dotted parts of the printed form, the versions whose \<open>numeric()\<close> has room for each part, and the
  planned releases before a series.\<close>

definition components :: "Version \<Rightarrow> string list" where
  "components v = to_string (v_major v) #
     (case v_minor v of None \<Rightarrow> [] | Some b \<Rightarrow> to_string b #
       (case v_patch v of None \<Rightarrow> [] | Some c \<Rightarrow> [to_string c]))"

definition two_digit :: "Version \<Rightarrow> bool" where
  "two_digit v \<longleftrightarrow> 0 \<le> get_major v \<and> get_major v < 214748 \<and> get_minor v \<in> {0..<100} \<and> get_patch v \<in> {0..<100}"

definition series_base :: "int \<Rightarrow> int" where
  "series_base m = (if m = 8 then 0 else 4 + 8 * (m - 9))"

section \<open>Numbers\<close>

lemma takeWhile_all: "list_all P xs \<Longrightarrow> takeWhile P xs = xs \<and> dropWhile P xs = []"
  by (induction xs) auto

lemma to_string_nonneg: "0 \<le> n \<Longrightarrow> to_string n = nat_digits (nat n)"
  by (simp add: to_string_def)

lemma to_string_isdigit: "0 \<le> n \<Longrightarrow> list_all isdigit (to_string n)"
  by (simp add: to_string_nonneg nat_digits_isdigit)

lemma isdigit_not:
  assumes "list_all isdigit s"
  shows "CHR ''.'' \<notin> set s" and "CHR ''-'' \<notin> set s"
  using assms by (auto simp: list_all_iff isdigit_def)

lemma parse_token_digits:
  assumes "list_all isdigit s" and "s \<noteq> []" and "int (digits_value s) < 2 ^ 31"
  shows "parse_token s = Inr (int (digits_value s))"
proof -
  have "hd s \<noteq> CHR ''-''" using isdigit_not(2) [OF assms(1)] assms(2) by (metis hd_in_set)
  then have "(case s of c # _ \<Rightarrow> c = CHR ''-'' | [] \<Rightarrow> False) = False" by (cases s) simp_all
  then show ?thesis
    using assms(2,3) by (simp add: parse_token_def from_chars_int_def Let_def takeWhile_all [OF assms(1)])
qed

lemma parse_token_to_string: "int_ok n \<Longrightarrow> parse_token (to_string n) = Inr n"
  using parse_token_digits [of "to_string n"] to_string_isdigit [of n]
  by (simp add: int_ok_def to_string_nonneg)

lemma parse_token_range: "parse_token s = Inr n \<Longrightarrow> - (2 ^ 31) \<le> n \<and> n < 2 ^ 31"
  by (auto simp: parse_token_def from_chars_int_def Let_def split: sum.splits errc.splits if_splits)

section \<open>Round trip\<close>

lemma get_base_join: "get_base v = str_join (components v) ''.''"
  by (auto simp: get_base_def get_short_def components_def split: option.splits)

lemma components_digits:
  "version_printable v \<Longrightarrow> list_all (\<lambda>t. list_all isdigit t \<and> t \<noteq> []) (components v)"
  by (auto simp: components_def version_printable_def int_ok_def nat_digits_isdigit to_string_nonneg
      split: option.splits)

lemma str_join_set: "set (str_join ts sep) \<subseteq> \<Union> (set ` set ts) \<union> set sep"
  by (induction ts sep rule: str_join.induct) auto

lemma get_base_chars:
  assumes "version_printable v"
  shows "get_base v \<noteq> []" and "CHR ''-'' \<notin> set (get_base v)"
proof -
  note d = components_digits [OF assms]
  show "get_base v \<noteq> []"
    using d by (cases "components v" rule: list.exhaust)
      (auto simp: get_base_join components_def split: option.splits)
  show "CHR ''-'' \<notin> set (get_base v)"
  proof
    assume "CHR ''-'' \<in> set (get_base v)"
    with str_join_set [of "components v" "''.''"] obtain t where
      "t \<in> set (components v)" "CHR ''-'' \<in> set t" by (auto simp: get_base_join)
    with d isdigit_not(2) [of t] show False by (auto simp: list_all_iff)
  qed
qed

lemma split_base:
  assumes "version_printable v"
  shows "str_split (get_base v) ''.'' (-1) False = components v"
proof -
  have "\<forall>t \<in> set (components v). CHR ''.'' \<notin> set t"
    using components_digits [OF assms] isdigit_not(1) by (auto simp: list_all_iff)
  moreover have "components v \<noteq> []" by (simp add: components_def)
  ultimately show ?thesis
    using get_base_chars(1) [OF assms] split_join [of "components v" "CHR ''.''"]
    by (simp add: str_split_split_on get_base_join)
qed

lemma split_full:
  assumes "version_printable v"
  shows "str_split (get_full v) ''-'' 1 False = get_base v # (case v_extra v of None \<Rightarrow> [] | Some x \<Rightarrow> [x])"
proof (cases "v_extra v")
  case None
  then have "index_of (\<lambda>c. c \<in> set ''-'') (get_full v) = None"
    using get_base_chars(2) [OF assms] by (auto simp: get_full_def index_of_None_iff)
  then show ?thesis
    using get_base_chars(1) [OF assms] None by (simp add: str_split_once get_full_def)
next
  case (Some x)
  then have "index_of (\<lambda>c. c \<in> set ''-'') (get_full v) = Some (length (get_base v))"
    using get_base_chars(2) [OF assms] by (auto simp: get_full_def intro!: index_of_skip)
  moreover have "get_full v \<noteq> []" using Some by (simp add: get_full_def)
  ultimately show ?thesis using Some by (simp add: str_split_once get_full_def)
qed

lemma not_digits:
  assumes "version_printable v"
  shows "\<not> (v_extra v = None \<and> length (get_full v) = 5 \<and> list_all isdigit (get_full v))"
proof
  assume h: "v_extra v = None \<and> length (get_full v) = 5 \<and> list_all isdigit (get_full v)"
  then have "CHR ''.'' \<notin> set (get_base v)" using isdigit_not(1) by (auto simp: get_full_def)
  then have "v_minor v = None" by (cases "v_minor v") (auto simp: get_base_def get_short_def)
  with assms h show False
    by (auto simp: version_printable_def get_full_def get_base_def get_short_def)
qed

lemma Version_tokens_components:
  assumes "version_printable v"
  shows "Version_tokens (components v) (v_extra v) = Inr v"
proof (cases "v_minor v")
  case None
  with assms show ?thesis
    by (cases v) (simp add: components_def Version_tokens_def version_printable_def parse_token_to_string)
next
  case (Some b)
  with assms show ?thesis
    by (cases v; cases "v_patch v")
      (simp_all add: components_def Version_tokens_def version_printable_def parse_token_to_string)
qed

lemma Version_parse_get_full:
  assumes "version_printable v"
  shows "Version_parse (get_full v) = Inr v"
proof -
  have ne: "get_full v \<noteq> []" using get_base_chars(1) [OF assms] by (simp add: get_full_def)
  show ?thesis
    using not_digits [OF assms] split_base [OF assms] Version_tokens_components [OF assms] ne
    by (cases "v_extra v") (auto simp: Version_parse_def split_full [OF assms] Let_def)
qed

lemma Version_parse_range:
  assumes "Version_parse s = Inr v"
  shows "\<forall>n \<in> {get_major v, get_minor v, get_patch v}. - (2 ^ 31) \<le> n \<and> n < 2 ^ 31"
  using assms
  by (auto simp: Version_parse_def Version_digits_def Version_tokens_def Let_def bind_res_eq_Inr
      get_major_def get_minor_def get_patch_def value_or_def
      dest!: parse_token_range split: if_splits list.splits)

section \<open>The order\<close>

lemma version_lt_key: "version_lt v w \<longleftrightarrow> version_key v < version_key w"
  by (auto simp: version_lt_def version_key_def less_prod_def less_le get_major_def)

lemma version_eq_key: "version_eq v w \<longleftrightarrow> version_key v = version_key w"
  by (simp add: version_eq_def version_key_def get_major_def)

lemma version_le_key: "version_le v w \<longleftrightarrow> version_key v \<le> version_key w"
  by (auto simp: version_le_def version_lt_key version_eq_key [symmetric] version_eq_def [symmetric] le_less)

lemma numeric_exact:
  assumes "two_digit v"
  shows "numeric v = get_major v * 10000 + get_minor v * 100 + get_patch v"
  using assms by (simp add: numeric_def two_digit_def)

lemma numeric_lt:
  assumes "two_digit v" and "two_digit w"
  shows "numeric v < numeric w \<longleftrightarrow> version_lt v w"
  using assms unfolding numeric_exact [OF assms(1)] numeric_exact [OF assms(2)]
  by (auto simp: two_digit_def version_lt_def get_major_def)

section \<open>Corresponding versions\<close>

lemmas series_defs = k_minor_version_8_0_def k_minor_version_8_4_def k_minor_version_def k_release_8_0_id_def

lemma Version_3_simps [simp]:
  "get_major (Version_3 a b c) = a" "get_minor (Version_3 a b c) = b" "get_patch (Version_3 a b c) = c"
  by (simp_all add: Version_3_def get_major_def get_minor_def get_patch_def value_or_def)

lemmas round_defs = release_round_def count_off_cycle_releases_def off_cycle_releases_def off_cycle_table_def is_lts_release_def
  count_planned_releases_def series_defs

text \<open>
  The patch that \<open>lts_release_patch\<close> finds has the wanted number of planned releases up to it, and it is the latest or the earliest
  one with it.
\<close>

definition picks :: "bool \<Rightarrow> int \<Rightarrow> Version \<Rightarrow> bool" where
  "picks b n u \<longleftrightarrow> is_lts_release u \<and> release_round u = n \<and> (if b then last_of_round u else first_of_round u)"

lemma patch_8_0:
  assumes "0 \<le> n" and "n + 34 < 2 ^ 31"
  shows "\<exists>p. lts_release_patch 7 (33 + n) b = Some p \<and> picks b n (Version_3 8 0 p)"
  using assms
  by (auto simp: lts_release_patch_def in_int_def picks_def first_of_round_def last_of_round_def round_mate_def round_defs split: if_splits)

lemma patch_lts:
  assumes "8 \<le> m" and "0 \<le> n" and "n + 1 < 2 ^ 31"
  shows "\<exists>p. lts_release_patch m n b = Some p \<and> picks b (4 + 8 * (m - 8) + n) (Version_3 m (if 8 = m then 4 else 7) p)"
  using assms
  by (auto simp: lts_release_patch_def in_int_def picks_def first_of_round_def last_of_round_def round_mate_def round_defs split: if_splits)

lemma corresponding_loop_end:
  "get_major (hd result) = 8 \<Longrightarrow> 0 \<le> n \<Longrightarrow> n + 34 < 2 ^ 31 \<Longrightarrow> lts_release_patch 7 (33 + n) b = Some p \<Longrightarrow>
     corresponding_loop b result n = Some (Version_3 8 0 p # result)"
  by (subst corresponding_loop.simps) (simp add: series_defs in_int_def)

lemma corresponding_loop_next:
  "get_major (hd result) = m + 1 \<Longrightarrow> 8 \<le> m \<Longrightarrow> 0 \<le> n \<Longrightarrow> n + 8 < 2 ^ 31 \<Longrightarrow> lts_release_patch m n b = Some p \<Longrightarrow>
     corresponding_loop b result n =
       corresponding_loop b (Version_3 m (if 8 = m then 4 else 7) p # result) (n + (if 8 = m then 4 else 8))"
  by (subst corresponding_loop.simps) (simp add: series_defs count_planned_releases_def in_int_def Let_def)

lemma sorted_Cons_hd:
  assumes "sorted_wrt version_lt (w # ws)" and "version_lt v w"
  shows "sorted_wrt version_lt (v # w # ws)"
  using assms by (auto simp: version_lt_key)

lemma corresponding_loop_ok:
  assumes "get_major v = m" and "8 \<le> m" and "m = 8 \<Longrightarrow> 1 \<le> get_minor v"
    and "sorted_wrt version_lt (v # vs)" and "0 \<le> n" and "n + 8 * (m - 8) + 34 < 2 ^ 31"
  shows "\<exists>us. corresponding_loop b (v # vs) n = Some (us @ v # vs) \<and> length us = nat (m - 7) \<and>
    sorted_wrt version_lt (us @ v # vs) \<and> (\<forall>u \<in> set us. picks b (series_base m + n) u)"
  using assms
proof (induction "nat (m - 8)" arbitrary: m v vs n)
  case 0
  then have m: "m = 8" by simp
  obtain p where p: "lts_release_patch 7 (33 + n) b = Some p" "picks b n (Version_3 8 0 p)"
    using patch_8_0 [of n b] 0 m by auto
  let ?u = "Version_3 8 0 p"
  have "version_lt ?u v" using 0 m by (auto simp: version_lt_key version_key_def less_prod_def less_le)
  then have "sorted_wrt version_lt (?u # v # vs)" using 0 sorted_Cons_hd by blast
  then show ?case
    using 0 m corresponding_loop_end [of "v # vs" n b p] p by (intro exI [of _ "[?u]"]) (simp add: series_base_def)
next
  case (Suc k)
  define l where "l = m - 1"
  have l: "8 \<le> l" "m = l + 1" "k = nat (l - 8)" using Suc.hyps(2) by (auto simp: l_def)
  obtain p where p: "lts_release_patch l n b = Some p" "picks b (4 + 8 * (l - 8) + n) (Version_3 l (if 8 = l then 4 else 7) p)"
    using patch_lts [OF l(1) Suc.prems(5), of b] Suc.prems(6) l by auto
  let ?u = "Version_3 l (if 8 = l then 4 else 7) p"
  let ?n = "n + (if 8 = l then 4 else 8)"
  have "version_lt ?u v" using Suc.prems(1) l by (simp add: version_lt_key version_key_def less_prod_def)
  then have sorted: "sorted_wrt version_lt (?u # v # vs)" using Suc.prems(4) sorted_Cons_hd by blast
  have "0 \<le> ?n" "?n + 8 * (l - 8) + 34 < 2 ^ 31" using Suc.prems(5,6) l by auto
  from Suc.hyps(1) [OF l(3) _ l(1) _ sorted this] obtain us where us:
    "corresponding_loop b (?u # v # vs) ?n = Some (us @ ?u # v # vs)" "length us = nat (l - 7)"
    "sorted_wrt version_lt (us @ ?u # v # vs)" "\<forall>u \<in> set us. picks b (series_base l + ?n) u" by auto
  have base: "series_base l + ?n = series_base m + n" using l by (simp add: series_base_def)
  have "picks b (series_base m + n) ?u" using p(2) l by (simp add: series_base_def)
  moreover have "corresponding_loop b (v # vs) n = Some ((us @ [?u]) @ v # vs)"
    using corresponding_loop_next [of "v # vs" l n b p] Suc.prems(1,5,6) l us(1) p(1) by simp
  ultimately show ?case
    using us(2,3) us(4) [unfolded base] l by (intro exI [of _ "us @ [?u]"]) auto
qed

text \<open>An off-cycle release is not the first one with its number of planned releases.\<close>

lemma round_mate_patch:
  assumes "\<not> is_lts_release v" and "0 \<le> n"
  shows "round_mate v (Version_3 (get_major v) (get_minor v) n)"
  using assms by (auto simp: round_mate_def release_round_def is_lts_release_def series_defs)

lemma off_cycle_first:
  assumes "8 \<le> get_major v" and "0 \<le> get_patch v"
  shows "is_off_cycle_release v \<longleftrightarrow> \<not> first_of_round v"
proof (cases "is_lts_release v")
  case False
  have "get_patch v = 0" if "first_of_round v"
    using that round_mate_patch [OF False, of 0] assms(2) by (auto simp: first_of_round_def)
  then show ?thesis
    using False assms(2) by (auto simp: is_off_cycle_release_def first_of_round_def round_mate_def)
next
  case True
  have first: "first_of_round v" if "\<not> is_off_cycle_release v"
    using that True assms by (auto simp: first_of_round_def round_mate_def is_off_cycle_release_def round_defs split: if_splits)
  have "round_mate v (Version_3 (get_major v) (get_minor v) (get_patch v - 1))" if "is_off_cycle_release v"
    using that True assms by (auto simp: round_mate_def is_off_cycle_release_def round_defs split: if_splits)
  then show ?thesis
    using first by (fastforce simp: first_of_round_def)
qed

section \<open>Properties\<close>

text \<open>
  C21. The constructor of \<open>Version\<close> reads back what \<open>get_full\<close> prints, for every version without negative
  numbers whose only number, when it has just one and no extra part, is not of five digits; and the numbers of
  any version that the constructor accepts fit in an \<open>int\<close>.
\<close>

theorem version_roundtrip:
  "(version_printable v \<longrightarrow> Version_parse (get_full v) = Inr v) \<and>
   (Version_parse s = Inr w \<longrightarrow>
      (\<forall>n \<in> {get_major w, get_minor w, get_patch w}. - (2 ^ 31) \<le> n \<and> n < 2 ^ 31))"
  using Version_parse_get_full [of v] Version_parse_range [of s w] by blast

theorem version_roundtrip_witness:
  "Version_parse (get_full \<lparr>v_major = 8, v_minor = Some 4, v_patch = None, v_extra = Some ''u1-cloud''\<rparr>) =
     Inr \<lparr>v_major = 8, v_minor = Some 4, v_patch = None, v_extra = Some ''u1-cloud''\<rparr>"
  using version_roundtrip [of "\<lparr>v_major = 8, v_minor = Some 4, v_patch = None, v_extra = Some ''u1-cloud''\<rparr>"]
  by (simp add: version_printable_def int_ok_def)

text \<open>
  C22. The six comparison operators of \<open>Version\<close> are those of the triples (major, minor, patch) in lexicographic
  order, with an absent number counting as 0, so they are a total order up to the extra part; and for versions
  with minor and patch below 100 \<open>numeric()\<close> is strictly monotone, without wrapping around.
\<close>

theorem version_order:
  "(version_lt v w \<longleftrightarrow> version_key v < version_key w) \<and> (version_le v w \<longleftrightarrow> version_key v \<le> version_key w) \<and>
   (version_gt v w \<longleftrightarrow> version_key w < version_key v) \<and> (version_ge v w \<longleftrightarrow> version_key w \<le> version_key v) \<and>
   (version_eq v w \<longleftrightarrow> version_key v = version_key w) \<and> (version_ne v w \<longleftrightarrow> version_key v \<noteq> version_key w) \<and>
   (two_digit v \<and> two_digit w \<longrightarrow> (numeric v < numeric w \<longleftrightarrow> version_lt v w))"
  by (auto simp: version_lt_key version_le_key version_gt_def version_ge_def version_eq_key version_ne_def
      numeric_lt not_less not_le)

theorem version_order_witness:
  "numeric (Version_3 8 0 39) < numeric (Version_3 8 4 2)"
  using version_order [of "Version_3 8 0 39" "Version_3 8 4 2"]
  by (simp add: two_digit_def version_key_def less_prod_def)

text \<open>
  C20. For every version that its assertions admit, without negative numbers and small enough for its sums to fit in an \<^verbatim>\<open>int\<close>,
  \<open>corresponding_versions\<close> ends without overflow; it returns in strictly ascending order one LTS version of each earlier series down
  to 8.0, and the version itself last. Each of them comes after the same number of planned releases as the version. An off-cycle
  release shares this number with the release before it: if the version is the first one of its series with its number, each LTS
  version is the first one of its series with it, and otherwise the last one.
\<close>

theorem corresponding_versions_ok:
  assumes "corresponding_pre v" and "version_bounded v"
  shows "\<exists>us. corresponding_versions v = Some (us @ [v]) \<and> length us = nat (get_major v - 7) \<and>
    sorted_wrt version_lt (us @ [v]) \<and>
    (\<forall>u \<in> set us. is_lts_release u \<and> release_round u = release_round v \<and>
       (if first_of_round v then first_of_round u else last_of_round u))"
proof -
  define n where "n = count_planned_releases (get_major v) (get_minor v) +
    (if is_lts_release v then get_patch v - count_off_cycle_releases v else 0)"
  have m: "8 \<le> get_major v" "get_major v = 8 \<Longrightarrow> 1 \<le> get_minor v"
    using assms(1)
    by (auto simp: corresponding_pre_def version_ge_def version_lt_key version_key_def less_prod_def not_less less_le)
  have bound: "0 \<le> get_minor v" "get_minor v \<le> 7" "0 \<le> get_patch v" "get_patch v + 8 * get_major v < 2 ^ 31"
    using assms by (auto simp: version_bounded_def corresponding_pre_def series_defs)
  have n: "0 \<le> n" "n + 8 * (get_major v - 8) + 34 < 2 ^ 31"
    using bound m by (auto simp: n_def round_defs split: if_splits)
  have "release_round v = series_base (get_major v) + n"
    using m by (auto simp: release_round_def series_base_def n_def)
  moreover have "corresponding_versions v = corresponding_loop (is_off_cycle_release v) [v] n"
    using bound m
    by (auto simp: corresponding_versions_def n_def in_int_def count_planned_releases_def Let_def algebra_simps)
  ultimately show ?thesis
    using corresponding_loop_ok [OF refl m _ n, of "[]" "is_off_cycle_release v"] off_cycle_first [OF m(1) bound(3)]
    by (auto simp: picks_def)
qed

theorem corresponding_versions_ok_witness:
  "\<exists>us. corresponding_versions (Version_3 9 1 0) = Some (us @ [Version_3 9 1 0]) \<and> length us = 2 \<and>
     (\<forall>u \<in> set us. is_lts_release u \<and> release_round u = 6 \<and> first_of_round u)"
proof -
  have "corresponding_pre (Version_3 9 1 0)" "version_bounded (Version_3 9 1 0)"
    by (simp_all add: corresponding_pre_def version_bounded_def version_ge_def version_lt_key version_key_def less_prod_def series_defs)
  moreover have "release_round (Version_3 9 1 0) = 6" "first_of_round (Version_3 9 1 0)"
    by (simp_all add: first_of_round_def round_mate_def release_round_def count_planned_releases_def is_lts_release_def series_defs)
  ultimately show ?thesis using corresponding_versions_ok [of "Version_3 9 1 0"] by auto
qed

end
