(* ===== verification/Gtid_Relation.thy ===== *)
theory Gtid_Relation
  imports Gtid_Facts Shell_Version
begin

text \<open>
  The operations on GTID sets that ask the server, from \<^verbatim>\<open>mysqlshdk/libs/mysql/gtid_utils.cc\<close>, and the comparison
  of the sets of two instances, from \<^verbatim>\<open>mysqlshdk/libs/mysql/replication.cc\<close>. The SQL function \<open>GTID_SUBTRACT\<close> is
  the parameter \<open>sub\<close>; the version and the description of the instance are parameters too.
\<close>

section \<open>Definitions\<close>

definition normalize :: "(string \<Rightarrow> string \<Rightarrow> string) \<Rightarrow> Gtid_set \<Rightarrow> Gtid_set" where
  "normalize sub g =
     (if \<not> m_normalized g then \<lparr>m_gtid_set = sub (m_gtid_set g) [], m_normalized = True\<rparr> else g)"

definition intersect :: "(string \<Rightarrow> string \<Rightarrow> string) \<Rightarrow> Gtid_set \<Rightarrow> Gtid_set \<Rightarrow> Gtid_set" where
  "intersect sub other g =
     (if m_gtid_set g = [] \<or> m_gtid_set other = [] then \<lparr>m_gtid_set = [], m_normalized = False\<rparr>
      else \<lparr>m_gtid_set = sub (m_gtid_set other) (sub (m_gtid_set other) (m_gtid_set g)), m_normalized = True\<rparr>)"

definition subtract :: "(string \<Rightarrow> string \<Rightarrow> string) \<Rightarrow> Gtid_set \<Rightarrow> Gtid_set \<Rightarrow> Gtid_set" where
  "subtract sub other g = \<lparr>m_gtid_set = sub (m_gtid_set g) (m_gtid_set other), m_normalized = True\<rparr>"

definition contains :: "(string \<Rightarrow> string \<Rightarrow> string) \<Rightarrow> Gtid_set \<Rightarrow> Gtid_set \<Rightarrow> bool" where
  "contains sub other g \<longleftrightarrow> sub (m_gtid_set other) (m_gtid_set g) = []"

definition set_empty :: "Gtid_set \<Rightarrow> bool" where
  "set_empty g \<longleftrightarrow> m_gtid_set g = []"

definition supports_gtid_tags :: "Version \<Rightarrow> bool" where
  "supports_gtid_tags version \<longleftrightarrow> version_ge version (Version_3 8 3 0)"

definition no_tags_error :: "string \<Rightarrow> exn" where
  "no_tags_error descr = Runtime_error (''Instance '' @ [CHR 0x27] @ descr @ [CHR 0x27] @ '' doesn't support GTID tags.'')"

datatype Gtid_set_relation = EQUAL | CONTAINS | CONTAINED | INTERSECTS | DISJOINT

text \<open>\<open>compare_gtid_sets\<close> gives the relation with the texts missing from \<open>a\<close> and from \<open>b\<close>.\<close>

definition compare_gtid_sets ::
  "(string \<Rightarrow> string \<Rightarrow> string) \<Rightarrow> Version \<Rightarrow> string \<Rightarrow> string \<Rightarrow> string \<Rightarrow> (Gtid_set_relation \<times> string \<times> string) res" where
  "compare_gtid_sets sub version descr gtidset_a gtidset_b =
     (if gtidset_a = [] \<or> gtidset_b = []
      then (let rel = (if gtidset_a = [] then (if gtidset_b = [] then EQUAL else CONTAINED) else CONTAINS)
            in Inr (rel, gtidset_b, gtidset_a))
      else
        (let set_a = from_normalized_string gtidset_a;
             set_b = from_normalized_string gtidset_b
         in if \<not> supports_gtid_tags version \<and> (has_tags set_a \<or> has_tags set_b) then Inl (no_tags_error descr)
            else
              (let a_sub_b = subtract sub set_b set_a;
                   b_sub_a = subtract sub set_a set_b;
                   rel =
                     (if set_empty a_sub_b \<and> set_empty b_sub_a then EQUAL
                      else if set_empty a_sub_b \<and> \<not> set_empty b_sub_a then CONTAINED
                      else if \<not> set_empty a_sub_b \<and> set_empty b_sub_a then CONTAINS
                      else if set_empty (intersect sub set_a set_b) then DISJOINT else INTERSECTS)
               in Inr (rel, m_gtid_set b_sub_a, m_gtid_set a_sub_b))))"

datatype Replica_gtid_state = NEW | IDENTICAL | RECOVERABLE | IRRECOVERABLE | DIVERGED

text \<open>\<open>check_replica_gtid_state\<close> gives the state with the missing and the errant texts.\<close>

definition check_replica_gtid_state ::
  "(string \<Rightarrow> string \<Rightarrow> string) \<Rightarrow> Version \<Rightarrow> string \<Rightarrow> string \<Rightarrow> string \<Rightarrow> string \<Rightarrow> (Replica_gtid_state \<times> string \<times> string) res" where
  "check_replica_gtid_state sub version descr master_gtidset master_purged_gtidset slave_gtidset =
     (if slave_gtidset = [] \<and> master_purged_gtidset = [] \<and> master_gtidset \<noteq> []
      then Inr (NEW, master_gtidset, [])
      else
        bind_res (compare_gtid_sets sub version descr master_gtidset slave_gtidset) (\<lambda>(rel, errant, missing).
          Inr ((case rel of
                  INTERSECTS \<Rightarrow> DIVERGED
                | DISJOINT \<Rightarrow> DIVERGED
                | CONTAINED \<Rightarrow> DIVERGED
                | EQUAL \<Rightarrow> IDENTICAL
                | CONTAINS \<Rightarrow>
                    (if master_purged_gtidset = [] \<or> sub master_purged_gtidset slave_gtidset = []
                     then RECOVERABLE else IRRECOVERABLE)), missing, errant)))"

text \<open>The transactions purged from every instance: the loop of \<open>compute_joining_replica_gtid_state\<close>.\<close>

definition completely_purged :: "(string \<Rightarrow> string \<Rightarrow> string) \<Rightarrow> Gtid_set list \<Rightarrow> Gtid_set" where
  "completely_purged sub purged_gtids =
     (case purged_gtids of [] \<Rightarrow> Gtid_set_new | g # gs \<Rightarrow> fold (\<lambda>h acc. intersect sub h acc) gs g)"

definition allowed_errant :: "(string \<Rightarrow> string \<Rightarrow> string) \<Rightarrow> Gtid_set \<Rightarrow> string list \<Rightarrow> Gtid_set" where
  "allowed_errant sub errant uuids =
     normalize sub (fold (\<lambda>uuid acc. add_set (get_gtids_from uuid errant) acc) uuids Gtid_set_new)"

definition compute_joining_replica_gtid_state ::
  "(string \<Rightarrow> string \<Rightarrow> string) \<Rightarrow> Version \<Rightarrow> string \<Rightarrow> Gtid_set \<Rightarrow> Gtid_set list \<Rightarrow> Gtid_set \<Rightarrow> string list \<Rightarrow>
     (Gtid_set \<times> Gtid_set \<times> Gtid_set \<times> Gtid_set) res" where
  "compute_joining_replica_gtid_state sub version descr primary_gtids purged_gtids joiner_gtids allowed_errant_uuids =
     (if \<not> supports_gtid_tags version \<and> has_tags joiner_gtids then Inl (no_tags_error descr)
      else
        (let purged = completely_purged sub purged_gtids;
             missing = subtract sub joiner_gtids primary_gtids;
             errant = subtract sub primary_gtids joiner_gtids;
             unrecoverable = intersect sub purged missing;
             missing' = subtract sub unrecoverable missing;
             allowed = allowed_errant sub errant allowed_errant_uuids;
             errant' = subtract sub allowed errant
         in Inr (missing', unrecoverable, errant', allowed)))"

subsection \<open>The meaning\<close>

text \<open>
  The GTIDs of a text, and what \<open>GTID_SUBTRACT\<close> does with them. The contract is that of a server on the texts of GTID sets, which
  it normalizes itself; that a server changes the letters of UUIDs to lower case and refuses malformed texts is left out.
\<close>

definition gset :: "string \<Rightarrow> (string \<times> u64) set" where
  "gset s = set (gtids s)"

definition subtracts :: "(string \<Rightarrow> string \<Rightarrow> string) \<Rightarrow> bool" where
  "subtracts sub \<longleftrightarrow>
     (\<forall>x y. gset (sub x y) = gset x - gset y \<and> (gset (sub x y) = {} \<longrightarrow> sub x y = []) \<and>
        (nul \<notin> set x \<longrightarrow> nul \<notin> set (sub x y)))"

text \<open>A text that the server gives out is empty when it has no GTID.\<close>

definition proper :: "string \<Rightarrow> bool" where
  "proper s \<longleftrightarrow> (gset s = {} \<longrightarrow> s = [])"

definition relation_of :: "'a set \<Rightarrow> 'a set \<Rightarrow> Gtid_set_relation" where
  "relation_of a b =
     (if a = b then EQUAL else if b \<subseteq> a then CONTAINS else if a \<subseteq> b then CONTAINED
      else if a \<inter> b = {} then DISJOINT else INTERSECTS)"

definition purged_everywhere :: "Gtid_set list \<Rightarrow> (string \<times> u64) set" where
  "purged_everywhere gs = (if gs = [] then {} else \<Inter>h \<in> set gs. gset (m_gtid_set h))"

definition gtid_uuid :: "string \<times> u64 \<Rightarrow> string" where
  "gtid_uuid x = takeWhile (\<lambda>c. c \<noteq> CHR '':'') (fst x)"

text \<open>A function with that meaning: it prints the GTIDs that remain one by one.\<close>

definition unit_ranges :: "string \<Rightarrow> range4 list" where
  "unit_ranges s = concat (map (\<lambda>(u, t, b, e). map (\<lambda>n. (u, t, n, n)) (numbers b e)) (ranges_of s))"

definition unit_gtid :: "range4 \<Rightarrow> string \<times> u64" where
  "unit_gtid r = (uuid_tag (range4_new r), g_begin (range4_new r))"

definition plain_subtract :: "string \<Rightarrow> string \<Rightarrow> string" where
  "plain_subtract x y = str_join (map range_text (filter (\<lambda>r. unit_gtid r \<notin> gset y) (unit_ranges x))) '',''"

section \<open>The operations as set operations\<close>

lemma gset_ranges: "gset s = (\<Union>r \<in> set (ranges_of s). set (range_gtids r))"
  by (simp add: gset_def gtids_def)

lemma gset_Nil [simp]: "gset [] = {}"
  by (simp add: gset_ranges)

lemma subtractsD:
  assumes "subtracts sub"
  shows "gset (sub x y) = gset x - gset y" and "sub x y = [] \<longleftrightarrow> gset x \<subseteq> gset y"
    and "nul \<notin> set x \<Longrightarrow> nul \<notin> set (sub x y)" and "proper (sub x y)"
proof -
  show eq: "gset (sub x y) = gset x - gset y" using assms by (simp add: subtracts_def)
  show "proper (sub x y)" using assms by (simp add: subtracts_def proper_def)
  show "nul \<notin> set x \<Longrightarrow> nul \<notin> set (sub x y)" using assms by (simp add: subtracts_def)
  show "sub x y = [] \<longleftrightarrow> gset x \<subseteq> gset y"
  proof
    assume "sub x y = []"
    then show "gset x \<subseteq> gset y" using eq by (metis Diff_eq_empty_iff gset_Nil)
  next
    assume "gset x \<subseteq> gset y"
    then have "gset (sub x y) = {}" using eq by auto
    then show "sub x y = []" using assms by (simp add: subtracts_def)
  qed
qed

lemma gset_subtract:
  "subtracts sub \<Longrightarrow> gset (m_gtid_set (subtract sub h g)) = gset (m_gtid_set g) - gset (m_gtid_set h)"
  by (simp add: subtract_def subtractsD)

lemma gset_intersect:
  assumes "subtracts sub"
  shows "gset (m_gtid_set (intersect sub h g)) = gset (m_gtid_set g) \<inter> gset (m_gtid_set h)"
    and "proper (m_gtid_set (intersect sub h g))"
  using subtractsD [OF assms] by (auto simp: intersect_def proper_def)

lemma gset_normalize: "subtracts sub \<Longrightarrow> gset (m_gtid_set (normalize sub g)) = gset (m_gtid_set g)"
  by (simp add: normalize_def subtractsD)

lemma gset_add_set: "gset (m_gtid_set (add_set h g)) = gset (m_gtid_set g) \<union> gset (m_gtid_set h)"
  by (auto simp: gset_ranges ranges_of_add_set)

lemma range_gtids_lower [simp]: "range_gtids (lower_tag r) = range_gtids r"
proof -
  have "tolower (tolower c) = tolower c" for c by (auto simp: tolower_def)
  then show ?thesis
    by (cases r) (simp add: range_gtids_def lower_tag_def range4_new_def Gtid_range_new_def comp_def)
qed

lemma gtid_uuid_range:
  assumes "(u, t, b, e) \<in> set (ranges_of s)" and "x \<in> set (range_gtids (u, t, b, e))"
  shows "gtid_uuid x = u"
proof -
  have "CHR '':'' \<notin> set u" using ranges_of_ok [OF assms(1)] by (simp add: uuid_ok_def)
  then have tw: "takeWhile (\<lambda>c. c \<noteq> CHR '':'') u = u"
    "takeWhile (\<lambda>c. c \<noteq> CHR '':'') (u @ CHR '':'' # r) = u" for r
    by (auto simp: takeWhile_eq_all_conv takeWhile_append)
  have "fst x = uuid_tag (Gtid_range_new u t b e)"
    using assms(2) by (auto simp: range_gtids_def range4_new_def)
  then show ?thesis by (simp add: gtid_uuid_def Gtid_range_new_def tw)
qed

lemma gset_from:
  assumes "nul \<notin> set (m_gtid_set g)" and "uuid \<noteq> []"
  shows "gset (m_gtid_set (get_gtids_from uuid g)) = {x \<in> gset (m_gtid_set g). gtid_uuid x = uuid}"
proof -
  have "ranges_of (m_gtid_set (get_gtids_from uuid g)) =
      map lower_tag (filter (\<lambda>(u, t, b, e). u = uuid) (ranges_of (m_gtid_set g)))"
    using assms by (auto simp: get_gtids_from_def intro!: selected)
  then have "gset (m_gtid_set (get_gtids_from uuid g)) =
      (\<Union>r \<in> {r \<in> set (ranges_of (m_gtid_set g)). fst r = uuid}. set (range_gtids r))"
    by (auto simp: gset_ranges)
  also have "\<dots> = {x \<in> gset (m_gtid_set g). gtid_uuid x = uuid}"
    using gtid_uuid_range by (fastforce simp: gset_ranges)
  finally show ?thesis .
qed

lemma gset_from_all:
  assumes "nul \<notin> set (m_gtid_set g)"
  shows "gset (m_gtid_set (fold (\<lambda>uuid acc. add_set (get_gtids_from uuid g) acc) uuids acc)) =
    gset (m_gtid_set acc) \<union> {x \<in> gset (m_gtid_set g). gtid_uuid x \<in> set uuids - {[]}}"
proof (induction uuids arbitrary: acc)
  case (Cons uuid uuids)
  have "gset (m_gtid_set (get_gtids_from uuid g)) = {x \<in> gset (m_gtid_set g). gtid_uuid x \<in> {uuid} - {[]}}"
    using gset_from [OF assms, of uuid] by (cases "uuid = []") (auto simp: get_gtids_from_def Gtid_set_new_def)
  then show ?case using Cons by (auto simp: gset_add_set)
qed simp

lemma gset_allowed:
  assumes "subtracts sub" and "nul \<notin> set (m_gtid_set g)"
  shows "gset (m_gtid_set (allowed_errant sub g uuids)) =
    {x \<in> gset (m_gtid_set g). gtid_uuid x \<in> set uuids - {[]}}"
  using gset_from_all [OF assms(2), of uuids Gtid_set_new]
  by (simp add: allowed_errant_def gset_normalize [OF assms(1)] Gtid_set_new_def)

lemma gset_purged_fold:
  assumes "subtracts sub"
  shows "gset (m_gtid_set (fold (\<lambda>h acc. intersect sub h acc) gs g)) =
    gset (m_gtid_set g) \<inter> (\<Inter>h \<in> set gs. gset (m_gtid_set h))"
  by (induction gs arbitrary: g) (auto simp: gset_intersect [OF assms])

lemma gset_purged:
  "subtracts sub \<Longrightarrow> gset (m_gtid_set (completely_purged sub gs)) = purged_everywhere gs"
  by (cases gs) (simp_all add: completely_purged_def purged_everywhere_def gset_purged_fold Gtid_set_new_def)

section \<open>Comparing two sets\<close>

lemma compare_gtid_sets_ok:
  assumes sub: "subtracts sub" and "proper a" and "proper b"
    and tags: "supports_gtid_tags version \<or> \<not> has_tags (from_normalized_string a) \<and> \<not> has_tags (from_normalized_string b)"
  shows "\<exists>ma mb. compare_gtid_sets sub version descr a b = Inr (relation_of (gset a) (gset b), ma, mb) \<and>
    gset ma = gset b - gset a \<and> gset mb = gset a - gset b"
proof (cases "a = [] \<or> b = []")
  case True
  then have "relation_of (gset a) (gset b) = (if a = [] then (if b = [] then EQUAL else CONTAINED) else CONTAINS)"
    using assms(2,3) by (auto simp: proper_def relation_of_def)
  then show ?thesis using True by (auto simp: compare_gtid_sets_def Let_def)
next
  case False
  let ?a = "from_normalized_string a" and ?b = "from_normalized_string b"
  have m: "m_gtid_set ?a = a" "m_gtid_set ?b = b" by (simp_all add: from_normalized_string_def)
  have empty_sub: "set_empty (subtract sub y x) \<longleftrightarrow> gset (m_gtid_set x) \<subseteq> gset (m_gtid_set y)" for x y
    by (simp add: set_empty_def subtract_def subtractsD(2) [OF sub])
  have "gset (m_gtid_set (intersect sub ?a ?b)) = gset b \<inter> gset a" by (simp add: gset_intersect [OF sub] m)
  then have "set_empty (intersect sub ?a ?b) \<longleftrightarrow> gset a \<inter> gset b = {}"
    using gset_intersect(2) [OF sub, of ?a ?b] unfolding set_empty_def proper_def by (metis Int_commute gset_Nil)
  then have "compare_gtid_sets sub version descr a b =
      Inr (relation_of (gset a) (gset b), m_gtid_set (subtract sub ?a ?b), m_gtid_set (subtract sub ?b ?a))"
    using False tags by (auto simp: compare_gtid_sets_def relation_of_def empty_sub m Let_def)
  then show ?thesis using gset_subtract [OF sub] m by auto
qed

section \<open>A server function\<close>

lemma ranges_of_join: "ranges_of (str_join ts '','') = concat (map ranges_of ts)"
proof (induction ts)
  case (Cons t ts)
  then show ?case by (cases ts) (simp_all add: ranges_of_append)
qed simp

lemma unit_ranges_ok:
  assumes "r \<in> set (unit_ranges s)"
  shows "\<exists>u t b e n. (u, t, b, e) \<in> set (ranges_of s) \<and> r = (u, t, n, n) \<and> n \<in> set (numbers b e)"
proof -
  from assms obtain r0 where r0: "r0 \<in> set (ranges_of s)"
    "r \<in> set ((\<lambda>(u, t, b, e). map (\<lambda>n. (u, t, n, n)) (numbers b e)) r0)"
    by (auto simp: unit_ranges_def)
  obtain u t b e where eq: "r0 = (u, t, b, e)" by (cases r0)
  from r0(2) obtain n where "r = (u, t, n, n)" "n \<in> set (numbers b e)" by (auto simp: eq)
  with r0(1) eq show ?thesis by blast
qed

lemma numbers_single [simp]: "numbers n n = [n]"
  by (simp add: numbers_def)

lemma range_gtids_unit: "range_gtids (u, t, n, n) = [unit_gtid (u, t, n, n)]"
  by (simp add: range_gtids_def unit_gtid_def range4_new_def Gtid_range_new_def)

lemma gset_units: "gset s = unit_gtid ` set (unit_ranges s)"
  by (force simp: gset_ranges unit_ranges_def range_gtids_def unit_gtid_def range4_new_def Gtid_range_new_def)

lemma ranges_of_unit_text:
  assumes "r \<in> set (unit_ranges s)"
  shows "ranges_of (range_text r) = [lower_tag r]"
proof -
  from unit_ranges_ok [OF assms] obtain u t b e n where r: "(u, t, b, e) \<in> set (ranges_of s)" "r = (u, t, n, n)"
    by blast
  with ranges_of_ok [OF r(1)] range_text_parts [of u t n n] show ?thesis by (simp add: lower_tag_def)
qed

lemma gset_unit_text:
  assumes "r \<in> set (unit_ranges s)"
  shows "gset (range_text r) = {unit_gtid r}"
proof -
  from unit_ranges_ok [OF assms] obtain u t n where r: "r = (u, t, n, n)" by blast
  have "gset (range_text r) = set (range_gtids r)" by (simp add: gset_ranges ranges_of_unit_text [OF assms])
  then show ?thesis by (simp add: r range_gtids_unit)
qed

lemma gset_join: "gset (str_join ts '','') = (\<Union>t \<in> set ts. gset t)"
  by (auto simp: gset_ranges ranges_of_join)

lemma gset_plain_subtract: "gset (plain_subtract x y) = gset x - gset y"
proof -
  have "gset (plain_subtract x y) = (\<Union>r \<in> {r \<in> set (unit_ranges x). unit_gtid r \<notin> gset y}. gset (range_text r))"
    by (simp add: plain_subtract_def gset_join)
  also have "\<dots> = (\<Union>r \<in> {r \<in> set (unit_ranges x). unit_gtid r \<notin> gset y}. {unit_gtid r})"
    by (rule SUP_cong) (auto simp: gset_unit_text [of _ x])
  also have "\<dots> = gset x - gset y" by (auto simp: gset_units [of x])
  finally show ?thesis .
qed

lemma unit_text_nul:
  assumes "r \<in> set (unit_ranges x)" and "nul \<notin> set x"
  shows "nul \<notin> set (range_text r)"
proof -
  from unit_ranges_ok [OF assms(1)] obtain u t b e n where r: "(u, t, b, e) \<in> set (ranges_of x)" "r = (u, t, n, n)"
    by blast
  have "nul \<notin> set (number n n)" using number_chars(2) [of nul n n] by (auto simp: isdigit_def)
  moreover have "nul \<notin> set u" "t = [] \<or> is_gtid_tag t" using ranges_of_ok [OF r(1)] assms(2) by auto
  moreover have "nul \<notin> set (map tolower t)" if "is_gtid_tag t"
    using is_gtid_tag_chars [OF is_gtid_tag_lower [OF that]] tag_char_not by blast
  ultimately show ?thesis by (auto simp: r(2) range_text_def)
qed

lemma plain_subtract_subtracts: "subtracts plain_subtract"
  unfolding subtracts_def
proof (intro allI conjI impI)
  fix x y
  show "gset (plain_subtract x y) = gset x - gset y" by (rule gset_plain_subtract)
  show "plain_subtract x y = []" if "gset (plain_subtract x y) = {}"
  proof -
    have "filter (\<lambda>r. unit_gtid r \<notin> gset y) (unit_ranges x) = []"
      using that unfolding gset_plain_subtract by (auto simp: gset_units [of x] filter_empty_conv)
    then show ?thesis by (simp add: plain_subtract_def)
  qed
  show "nul \<notin> set (plain_subtract x y)" if "nul \<notin> set x"
    using unit_text_nul [OF _ that] str_join_set [of "map range_text (filter (\<lambda>r. unit_gtid r \<notin> gset y) (unit_ranges x))" "'',''"]
    by (fastforce simp: plain_subtract_def)
qed

section \<open>Properties\<close>

text \<open>
  C9. Where \<open>GTID_SUBTRACT\<close> is the difference of GTID sets, \<open>compare_gtid_sets\<close> gives the relation between
  the sets of two texts, with the texts of both differences: equal, containing, contained, disjoint or
  intersecting. \<open>check_replica_gtid_state\<close> then tells new, identical and diverged replicas apart, and a replica
  that misses transactions is recoverable exactly when it has every purged one.
\<close>

theorem gtid_relation_ok:
  assumes "subtracts sub" and "proper a" and "proper b" and "proper purged" and "supports_gtid_tags version"
  shows "(\<exists>ma mb. compare_gtid_sets sub version descr a b = Inr (relation_of (gset a) (gset b), ma, mb) \<and>
      gset ma = gset b - gset a \<and> gset mb = gset a - gset b) \<and>
    (\<exists>st missing errant. check_replica_gtid_state sub version descr a purged b = Inr (st, missing, errant) \<and>
      gset missing = gset a - gset b \<and> gset errant = gset b - gset a \<and>
      st = (if gset b = {} \<and> gset purged = {} \<and> gset a \<noteq> {} then NEW
            else if gset a = gset b then IDENTICAL
            else if \<not> gset b \<subseteq> gset a then DIVERGED
            else if gset purged \<subseteq> gset b then RECOVERABLE else IRRECOVERABLE))"
proof
  have empty: "x = [] \<longleftrightarrow> gset x = {}" if "proper x" for x using that by (auto simp: proper_def)
  from compare_gtid_sets_ok [OF assms(1-3), of version descr] assms(5) obtain ma mb where
    c: "compare_gtid_sets sub version descr a b = Inr (relation_of (gset a) (gset b), ma, mb)"
      "gset ma = gset b - gset a" "gset mb = gset a - gset b" by blast
  then show "\<exists>ma mb. compare_gtid_sets sub version descr a b = Inr (relation_of (gset a) (gset b), ma, mb) \<and>
      gset ma = gset b - gset a \<and> gset mb = gset a - gset b" by blast
  show "\<exists>st missing errant. check_replica_gtid_state sub version descr a purged b = Inr (st, missing, errant) \<and>
      gset missing = gset a - gset b \<and> gset errant = gset b - gset a \<and>
      st = (if gset b = {} \<and> gset purged = {} \<and> gset a \<noteq> {} then NEW
            else if gset a = gset b then IDENTICAL
            else if \<not> gset b \<subseteq> gset a then DIVERGED
            else if gset purged \<subseteq> gset b then RECOVERABLE else IRRECOVERABLE)"
    using c empty [OF assms(2)] empty [OF assms(3)] empty [OF assms(4)] subtractsD(2) [OF assms(1), of purged b]
    by (auto simp: check_replica_gtid_state_def relation_of_def)
qed

theorem gtid_relation_ok_witness:
  "\<exists>missing errant. check_replica_gtid_state plain_subtract (Version_3 8 4 0) ''h'' ''a:1'' [] [] =
     Inr (NEW, missing, errant) \<and> gset missing = gset ''a:1''"
proof -
  have "range_str (range4_new (''a'', [], 1, 1)) = ''a:1''"
    by (simp add: range_str_def range4_new_def Gtid_range_new_def format_s_def format_u64_def
        nat_digits.simps [of "Suc 0"] char_of_def bit_0)
  with ranges_of_range_str [of "(''a'', [], 1, 1)"] have "gset ''a:1'' \<noteq> {}"
    by (simp add: gset_def gtids_def range_ok_def uuid_ok_def whitespace_def lower_tag_def range_gtids_def
        range4_new_def Gtid_range_new_def numbers_def)
  moreover have "supports_gtid_tags (Version_3 8 4 0)"
    by (simp add: supports_gtid_tags_def version_ge_def version_lt_def Version_3_def get_minor_def get_patch_def value_or_def)
  ultimately show ?thesis
    using gtid_relation_ok [OF plain_subtract_subtracts, of "''a:1''" "[]" "[]" "Version_3 8 4 0" "''h''"]
    by (auto simp: proper_def)
qed

text \<open>
  C8. \<open>compute_joining_replica_gtid_state\<close> splits the transactions of the primary that the joining instance
  misses into those purged from every instance and the others, and the transactions of the joining instance
  that the primary misses into those of an allowed UUID and the others: the four sets it returns are
  exactly these.
\<close>

theorem compute_joining_ok:
  assumes "subtracts sub" and "nul \<notin> set (m_gtid_set joiner)"
    and "supports_gtid_tags version \<or> \<not> has_tags joiner"
  shows "\<exists>ms un er al.
    compute_joining_replica_gtid_state sub version descr primary purged joiner uuids = Inr (ms, un, er, al) \<and>
    gset (m_gtid_set ms) = gset (m_gtid_set primary) - gset (m_gtid_set joiner) - purged_everywhere purged \<and>
    gset (m_gtid_set un) = (gset (m_gtid_set primary) - gset (m_gtid_set joiner)) \<inter> purged_everywhere purged \<and>
    gset (m_gtid_set er) = {x \<in> gset (m_gtid_set joiner) - gset (m_gtid_set primary). gtid_uuid x \<notin> set uuids - {[]}} \<and>
    gset (m_gtid_set al) = {x \<in> gset (m_gtid_set joiner) - gset (m_gtid_set primary). gtid_uuid x \<in> set uuids - {[]}}"
proof -
  let ?errant = "subtract sub primary joiner"
  have "nul \<notin> set (m_gtid_set ?errant)"
    using subtractsD(3) [OF assms(1) assms(2)] by (simp add: subtract_def)
  note allowed = gset_allowed [OF assms(1) this, of uuids]
  note ops = gset_subtract [OF assms(1)] gset_intersect(1) [OF assms(1)] gset_purged [OF assms(1)]
  show ?thesis
    using assms(3) by (auto simp: compute_joining_replica_gtid_state_def Let_def ops allowed)
qed

theorem compute_joining_ok_witness:
  "\<exists>ms un er al.
    compute_joining_replica_gtid_state plain_subtract (Version_3 8 0 30) ''h'' (from_normalized_string ''a:1'')
      [from_normalized_string ''a:1''] (from_normalized_string []) [''b''] = Inr (ms, un, er, al) \<and>
    gset (m_gtid_set un) = gset ''a:1''"
  using compute_joining_ok [OF plain_subtract_subtracts, of "from_normalized_string []" "Version_3 8 0 30" "''h''"
      "from_normalized_string ''a:1''" "[from_normalized_string ''a:1'']" "[''b'']"]
  by (auto simp: from_normalized_string_def has_tags_def iter_ranges_fold purged_everywhere_def)

end
