(* ===== verification/Allocator.thy ===== *)
theory Allocator
  imports Shell_Prelude
begin

text \<open>
  The block allocator of \<^verbatim>\<open>mysqlshdk/libs/storage/backend/in_memory/allocator.cc\<close>. A pointer is its address. The
  addresses that \<open>new\<close> gives for the pages are the argument \<open>fresh\<close> of the operations that add pages; when
  it runs out, \<^verbatim>\<open>std::bad_alloc\<close> is thrown. A \<open>std::set\<close> of pages is the list of its elements by ascending
  address. A failed assertion is \<^const>\<open>None\<close>.
\<close>

section \<open>Definitions\<close>

record page =
  m_memory :: nat
  p_available :: "nat list"

record allocator =
  m_blocks_per_page :: nat
  m_block_size :: nat
  m_page_size :: nat
  m_pages :: "page list"
  m_full_pages :: "page list"
  m_empty_page :: "nat option"
  m_available_blocks :: nat

text \<open>The loop of the constructor of \<open>Page\<close>, which counts down from the end of the memory.\<close>

fun page_blocks_loop :: "nat \<Rightarrow> nat \<Rightarrow> nat \<Rightarrow> nat list" where
  "page_blocks_loop 0 block_size ptr = []"
| "page_blocks_loop (Suc blocks) block_size ptr =
     (ptr - block_size) # page_blocks_loop blocks block_size (ptr - block_size)"

definition Page_new :: "nat \<Rightarrow> nat \<Rightarrow> nat \<Rightarrow> nat \<Rightarrow> page" where
  "Page_new memory page_size blocks block_size =
     \<lparr>m_memory = memory, p_available = page_blocks_loop blocks block_size (memory + page_size)\<rparr>"

fun use_blocks :: "nat \<Rightarrow> nat list \<Rightarrow> nat list \<Rightarrow> nat \<Rightarrow> nat \<times> nat list \<times> nat list" where
  "use_blocks 0 available result used = (used, available, result)"
| "use_blocks (Suc blocks) available result used =
     (if available = [] then (used, available, result)
      else use_blocks blocks (butlast available) (result @ [last available]) (used + 1))"

text \<open>Insertion into a set of pages, and the search by a block with the transparent comparator.\<close>

definition insert_page :: "page \<Rightarrow> page list \<Rightarrow> page list" where
  "insert_page p ps = (if m_memory p \<in> m_memory ` set ps then ps else insort_key m_memory p ps)"

definition holds :: "nat \<Rightarrow> nat \<Rightarrow> page \<Rightarrow> bool" where
  "holds page_size block p \<longleftrightarrow> \<not> block < m_memory p \<and> \<not> m_memory p + (page_size - 1) < block"

definition find_page :: "nat \<Rightarrow> nat \<Rightarrow> page list \<Rightarrow> page option" where
  "find_page page_size block ps = List.find (holds page_size block) ps"

definition erase_page :: "page \<Rightarrow> page list \<Rightarrow> page list" where
  "erase_page p ps = filter (\<lambda>q. m_memory q \<noteq> m_memory p) ps"

definition block_count :: "nat \<Rightarrow> allocator \<Rightarrow> nat" where
  "block_count memory s = ((memory + m_block_size s - 1) mod 2 ^ 64) div m_block_size s"

definition add_page :: "nat \<Rightarrow> allocator \<Rightarrow> allocator" where
  "add_page a s =
     s\<lparr>m_empty_page := Some a,
       m_pages := insert_page (Page_new a (m_page_size s) (m_blocks_per_page s) (m_block_size s)) (m_pages s),
       m_available_blocks := m_available_blocks s + m_blocks_per_page s\<rparr>"

definition Allocator_new :: "nat \<Rightarrow> nat \<Rightarrow> nat \<Rightarrow> allocator res" where
  "Allocator_new a page_size block_size =
     (if block_size = 0 then Inl (Runtime_error ''The block size cannot be 0'')
      else
        (let blocks_per_page = page_size div block_size
         in if blocks_per_page = 0 then Inl (Runtime_error ''The page size cannot be 0'')
            else Inr (add_page a
              \<lparr>m_blocks_per_page = blocks_per_page, m_block_size = block_size,
               m_page_size = blocks_per_page * block_size, m_pages = [], m_full_pages = [],
               m_empty_page = None, m_available_blocks = 0\<rparr>)))"

text \<open>The assertions of the destructor.\<close>

definition destructor_ok :: "allocator \<Rightarrow> bool" where
  "destructor_ok s \<longleftrightarrow>
     length (m_pages s) = 1 \<and> m_empty_page s = Some (m_memory (hd (m_pages s))) \<and>
     m_blocks_per_page s = m_available_blocks s"

text \<open>The first loop of \<open>allocate\<close>; the flag is false when \<^verbatim>\<open>std::bad_alloc\<close> is thrown.\<close>

fun grow :: "nat \<Rightarrow> nat list \<Rightarrow> allocator \<Rightarrow> bool \<times> allocator" where
  "grow blocks [] s = (\<not> blocks > m_available_blocks s, s)"
| "grow blocks (a # fresh) s =
     (if blocks > m_available_blocks s then grow blocks fresh (add_page a s) else (True, s))"

text \<open>One round of the second loop: the blocks taken from the first page, and the state after it.\<close>

definition take_page :: "nat \<Rightarrow> nat list \<Rightarrow> allocator \<Rightarrow> (nat \<times> nat list \<times> allocator) option" where
  "take_page blocks result s =
     (case m_pages s of
        [] \<Rightarrow> None
      | page # rest \<Rightarrow>
          (case use_blocks blocks (p_available page) result 0 of
             (allocated, available, result') \<Rightarrow>
               if \<not> allocated > 0 then None
               else
                 (let page' = page\<lparr>p_available := available\<rparr>;
                      empty = (if m_empty_page s = Some (m_memory page) then None else m_empty_page s);
                      n = m_available_blocks s - allocated
                  in if available = []
                     then Some (allocated, result', s\<lparr>m_pages := rest,
                            m_full_pages := insert_page page' (m_full_pages s), m_empty_page := empty,
                            m_available_blocks := n\<rparr>)
                     else Some (allocated, result', s\<lparr>m_pages := page' # rest, m_empty_page := empty,
                            m_available_blocks := n\<rparr>))))"

function take_loop :: "nat \<Rightarrow> nat list \<Rightarrow> allocator \<Rightarrow> (nat list \<times> allocator) option" where
  "take_loop blocks result s =
     (if blocks > 0
      then (case take_page blocks result s of
              None \<Rightarrow> None
            | Some (allocated, result', s') \<Rightarrow> take_loop (blocks - allocated) result' s')
      else Some (result, s))"
  by pat_completeness auto
termination
  by (relation "measure fst")
    (auto simp: take_page_def Let_def split: list.splits prod.splits if_splits)

declare take_loop.simps [simp del]

text \<open>\<open>allocate\<close>: the blocks, or nothing when \<^verbatim>\<open>std::bad_alloc\<close> is thrown; the pages added stay in both cases.\<close>

definition allocate :: "nat list \<Rightarrow> nat \<Rightarrow> allocator \<Rightarrow> (nat list option \<times> allocator) option" where
  "allocate fresh memory s =
     (let blocks = block_count memory s
      in case grow blocks fresh s of
           (False, s') \<Rightarrow> Some (None, s')
         | (True, s') \<Rightarrow>
             (case take_loop blocks [] s' of None \<Rightarrow> None | Some (result, s'') \<Rightarrow> Some (Some result, s'')))"

definition allocate_blocks :: "nat list \<Rightarrow> nat \<Rightarrow> allocator \<Rightarrow> (nat list option \<times> allocator) option" where
  "allocate_blocks fresh blocks s = allocate fresh ((blocks * m_block_size s) mod 2 ^ 64) s"

definition remove_page :: "page \<Rightarrow> allocator \<Rightarrow> allocator option" where
  "remove_page page s =
     (if m_blocks_per_page s = length (p_available page) \<and>
         m_memory page \<notin> m_memory ` set (m_full_pages s) \<and> m_empty_page s \<noteq> Some (m_memory page)
      then Some (s\<lparr>m_pages := erase_page page (m_pages s),
                   m_available_blocks := m_available_blocks s - m_blocks_per_page s\<rparr>)
      else None)"

definition replace_page :: "page \<Rightarrow> page list \<Rightarrow> page list" where
  "replace_page page ps = map (\<lambda>q. if m_memory q = m_memory page then page else q) ps"

text \<open>\<open>free_block\<close>, from the move of a full page to the other container on.\<close>

definition unfull :: "nat \<Rightarrow> allocator \<Rightarrow> allocator" where
  "unfull block s =
     (case find_page (m_page_size s) block (m_full_pages s) of
        Some full \<Rightarrow> s\<lparr>m_pages := insert_page full (m_pages s), m_full_pages := erase_page full (m_full_pages s)\<rparr>
      | None \<Rightarrow> s)"

definition free_block :: "nat \<Rightarrow> allocator \<Rightarrow> allocator option" where
  "free_block block s0 =
     (let s = unfull block s0
      in case find_page (m_page_size s) block (m_pages s) of
           None \<Rightarrow> None
         | Some page0 \<Rightarrow>
             (let page = page0\<lparr>p_available := p_available page0 @ [block]\<rparr>;
                  s' = s\<lparr>m_pages := replace_page page (m_pages s), m_available_blocks := m_available_blocks s + 1\<rparr>
              in if m_blocks_per_page s' = length (p_available page)
                 then (if m_empty_page s' \<noteq> None then remove_page page s'
                       else Some (s'\<lparr>m_empty_page := Some (m_memory page)\<rparr>))
                 else Some s'))"

fun free_blocks :: "nat list \<Rightarrow> allocator \<Rightarrow> allocator option" where
  "free_blocks [] s = Some s"
| "free_blocks (b # bs) s = (case free_block b s of None \<Rightarrow> None | Some s' \<Rightarrow> free_blocks bs s')"

subsection \<open>The blocks\<close>

definition page_blocks :: "allocator \<Rightarrow> nat \<Rightarrow> nat set" where
  "page_blocks s a = (\<lambda>k. a + k * m_block_size s) ` {..<m_blocks_per_page s}"

definition all_pages :: "allocator \<Rightarrow> page set" where
  "all_pages s = set (m_pages s) \<union> set (m_full_pages s)"

definition addrs :: "allocator \<Rightarrow> nat set" where
  "addrs s = m_memory ` all_pages s"

definition all_blocks :: "allocator \<Rightarrow> nat set" where
  "all_blocks s = (\<Union>a \<in> addrs s. page_blocks s a)"

definition free_set :: "allocator \<Rightarrow> nat set" where
  "free_set s = (\<Union>p \<in> set (m_pages s). set (p_available p))"

definition used :: "allocator \<Rightarrow> nat set" where
  "used s = all_blocks s - free_set s"

text \<open>Two pages do not overlap.\<close>

definition apart :: "allocator \<Rightarrow> nat \<Rightarrow> nat \<Rightarrow> bool" where
  "apart s a b \<longleftrightarrow> a + m_page_size s \<le> b \<or> b + m_page_size s \<le> a"

definition page_ok :: "allocator \<Rightarrow> page \<Rightarrow> bool" where
  "page_ok s p \<longleftrightarrow> p_available p \<noteq> [] \<and> distinct (p_available p) \<and> set (p_available p) \<subseteq> page_blocks s (m_memory p)"

text \<open>What holds at every moment, and between the operations.\<close>

definition pages_ok :: "allocator \<Rightarrow> bool" where
  "pages_ok s \<longleftrightarrow>
     0 < m_block_size s \<and> 0 < m_blocks_per_page s \<and> m_page_size s = m_blocks_per_page s * m_block_size s \<and>
     distinct (map m_memory (m_pages s @ m_full_pages s)) \<and>
     (\<forall>a \<in> addrs s. \<forall>b \<in> addrs s. a \<noteq> b \<longrightarrow> apart s a b) \<and>
     (\<forall>p \<in> set (m_pages s). page_ok s p) \<and> (\<forall>p \<in> set (m_full_pages s). p_available p = []) \<and>
     m_available_blocks s = (\<Sum>p \<leftarrow> m_pages s. length (p_available p))"

definition empty_known :: "allocator \<Rightarrow> bool" where
  "empty_known s \<longleftrightarrow>
     (\<forall>a. m_empty_page s = Some a \<longrightarrow>
        (\<exists>p \<in> set (m_pages s). m_memory p = a \<and> length (p_available p) = m_blocks_per_page s))"

definition single_empty :: "allocator \<Rightarrow> bool" where
  "single_empty s \<longleftrightarrow>
     (\<forall>p \<in> set (m_pages s). length (p_available p) = m_blocks_per_page s \<longrightarrow> m_empty_page s = Some (m_memory p))"

text \<open>A failed allocation can leave more than one empty page.\<close>

definition alloc_valid :: "allocator \<Rightarrow> bool" where
  "alloc_valid s \<longleftrightarrow> pages_ok s \<and> empty_known s \<and> all_pages s \<noteq> {}"

definition alloc_ok :: "allocator \<Rightarrow> bool" where
  "alloc_ok s \<longleftrightarrow> pages_ok s \<and> empty_known s \<and> single_empty s \<and> all_pages s \<noteq> {}"

text \<open>The addresses of new pages: they overlap neither each other nor a page in use.\<close>

fun fresh_ok :: "nat list \<Rightarrow> allocator \<Rightarrow> bool" where
  "fresh_ok [] s = True"
| "fresh_ok (a # as) s =
     (list_all (\<lambda>b. apart s a b) as \<and> list_all (\<lambda>p. apart s a (m_memory p)) (m_pages s @ m_full_pages s) \<and>
      fresh_ok as s)"

text \<open>
  The life of an allocator whose clients free only blocks that they hold: its state, the blocks they hold, and whether an allocation has
  failed with \<^verbatim>\<open>std::bad_alloc\<close>.
\<close>

inductive alloc_run :: "allocator \<Rightarrow> nat set \<Rightarrow> bool \<Rightarrow> bool" where
  Start: "Allocator_new a page_size block_size = Inr s \<Longrightarrow> alloc_run s {} False"
| Allocate: "alloc_run s held failed \<Longrightarrow> fresh_ok fresh s \<Longrightarrow> allocate fresh memory s = Some (Some blocks, s') \<Longrightarrow>
     alloc_run s' (held \<union> set blocks) failed"
| Fail: "alloc_run s held failed \<Longrightarrow> fresh_ok fresh s \<Longrightarrow> allocate fresh memory s = Some (None, s') \<Longrightarrow> alloc_run s' held True"
| Free: "alloc_run s held failed \<Longrightarrow> b \<in> held \<Longrightarrow> free_block b s = Some s' \<Longrightarrow> alloc_run s' (held - {b}) failed"

section \<open>Pages\<close>

text \<open>The parameters of an allocator do not change.\<close>

definition same_params :: "allocator \<Rightarrow> allocator \<Rightarrow> bool" where
  "same_params s s' \<longleftrightarrow> m_block_size s' = m_block_size s \<and> m_blocks_per_page s' = m_blocks_per_page s \<and>
     m_page_size s' = m_page_size s"

lemma same_params_cong:
  assumes "same_params s s'"
  shows "page_blocks s' a = page_blocks s a" and "apart s' a b = apart s a b" and "page_ok s' p = page_ok s p"
  using assms by (simp_all add: same_params_def page_blocks_def apart_def page_ok_def)

lemma apart_sym: "apart s a b = apart s b a"
  by (auto simp: apart_def)

lemma pages_ok_params: "pages_ok s \<Longrightarrow> 0 < m_block_size s \<and> 0 < m_blocks_per_page s \<and> 0 < m_page_size s"
  by (simp add: pages_ok_def)

lemma page_blocks_range:
  assumes "pages_ok s" and "b \<in> page_blocks s a"
  shows "a \<le> b \<and> b < a + m_page_size s"
proof -
  from assms(2) obtain k where k: "k < m_blocks_per_page s" "b = a + k * m_block_size s"
    by (auto simp: page_blocks_def)
  then show ?thesis using assms(1) by (simp add: pages_ok_def)
qed

lemma holds_iff: "0 < n \<Longrightarrow> holds n b p \<longleftrightarrow> m_memory p \<le> b \<and> b < m_memory p + n"
  by (auto simp: holds_def)

lemma pages_inj: "pages_ok s \<Longrightarrow> inj_on m_memory (all_pages s)"
  by (auto simp: pages_ok_def all_pages_def distinct_map inj_on_Un)

lemma holds_unique:
  assumes "pages_ok s" and "p \<in> all_pages s" and "q \<in> all_pages s"
    and "holds (m_page_size s) b p" and "holds (m_page_size s) b q"
  shows "p = q"
proof -
  have "m_memory p = m_memory q"
  proof (rule ccontr)
    assume "m_memory p \<noteq> m_memory q"
    then have "apart s (m_memory p) (m_memory q)" using assms(1-3) by (simp add: pages_ok_def addrs_def)
    moreover have "0 < m_page_size s" using pages_ok_params [OF assms(1)] by simp
    ultimately show False using assms(4,5) by (auto simp: holds_iff apart_def)
  qed
  with pages_inj [OF assms(1)] assms(2,3) show ?thesis by (simp add: inj_on_eq_iff)
qed

lemma page_blocks_holds: "pages_ok s \<Longrightarrow> b \<in> page_blocks s (m_memory p) \<Longrightarrow> holds (m_page_size s) b p"
  using page_blocks_range [of s b "m_memory p"] pages_ok_params [of s] by (simp add: holds_iff)

lemma apart_disjoint:
  assumes "pages_ok s" and "apart s a b"
  shows "page_blocks s a \<inter> page_blocks s b = {}"
proof -
  have False if "x \<in> page_blocks s a" "x \<in> page_blocks s b" for x
    using page_blocks_range [OF assms(1) that(1)] page_blocks_range [OF assms(1) that(2)] assms(2)
    by (auto simp: apart_def)
  then show ?thesis by blast
qed

lemma page_blocks_loop_map:
  "page_blocks_loop n bs (a + n * bs) = map (\<lambda>k. a + k * bs) (rev [0..<n])"
proof (induction n)
  case (Suc n)
  have "a + Suc n * bs - bs = a + n * bs" by simp
  with Suc show ?case by simp
qed simp

lemma Page_new_ok:
  fixes a :: nat
  assumes "0 < m_block_size s" and "0 < m_blocks_per_page s" and "m_page_size s = m_blocks_per_page s * m_block_size s"
  defines "p \<equiv> Page_new a (m_page_size s) (m_blocks_per_page s) (m_block_size s)"
  shows "page_ok s p \<and> m_memory p = a \<and> set (p_available p) = page_blocks s a \<and>
    length (p_available p) = m_blocks_per_page s"
  using assms(1,2)
  by (auto simp: p_def Page_new_def page_blocks_loop_map page_ok_def page_blocks_def distinct_map inj_on_def
      assms(3) lessThan_atLeast0)

lemma use_blocks_eq:
  "use_blocks n av res u =
     (let k = min n (length av) in (u + k, take (length av - k) av, res @ rev (drop (length av - k) av)))"
proof (induction n arbitrary: av res u)
  case (Suc n)
  show ?case
  proof (cases av rule: rev_cases)
    case (snoc xs x)
    then show ?thesis using Suc by (simp add: Let_def)
  qed simp
qed simp

lemma sum_list_insort: "(\<Sum>p \<leftarrow> insort_key f p ps. g p) = g p + (\<Sum>p \<leftarrow> ps. (g p :: nat))"
  by (induction ps) auto

lemma distinct_map_insort: "distinct (map f (insort_key f x xs)) \<longleftrightarrow> f x \<notin> f ` set xs \<and> distinct (map f xs)"
  by (induction xs) (auto simp: set_insort_key)

lemma insert_page_new:
  assumes "m_memory p \<notin> m_memory ` set ps"
  shows "insert_page p ps = insort_key m_memory p ps"
  using assms by (simp add: insert_page_def)

lemma free_set_blocks: "pages_ok s \<Longrightarrow> free_set s \<subseteq> all_blocks s"
  by (fastforce simp: free_set_def all_blocks_def addrs_def all_pages_def pages_ok_def page_ok_def)

section \<open>Adding pages\<close>

lemma add_page_fields:
  assumes "pages_ok s" and apart: "\<And>p. p \<in> all_pages s \<Longrightarrow> apart s a (m_memory p)"
  defines "p \<equiv> Page_new a (m_page_size s) (m_blocks_per_page s) (m_block_size s)"
  shows "m_pages (add_page a s) = insort_key m_memory p (m_pages s)" and "a \<notin> m_memory ` all_pages s"
    and "m_memory p = a"
proof -
  have "0 < m_page_size s" using pages_ok_params [OF assms(1)] by simp
  then show a: "a \<notin> m_memory ` all_pages s" using apart by (fastforce simp: apart_def)
  show p: "m_memory p = a" by (simp add: p_def Page_new_def)
  show "m_pages (add_page a s) = insort_key m_memory p (m_pages s)"
    using a p by (auto simp: add_page_def insert_page_def all_pages_def p_def [symmetric])
qed

lemma add_page_params: "same_params s (add_page a s)"
  by (simp add: same_params_def add_page_def)

lemma add_page_ok:
  assumes ok: "pages_ok s" and apart: "\<And>p. p \<in> all_pages s \<Longrightarrow> apart s a (m_memory p)"
  shows "pages_ok (add_page a s) \<and> empty_known (add_page a s) \<and> used (add_page a s) = used s \<and>
    m_available_blocks (add_page a s) = m_available_blocks s + m_blocks_per_page s \<and>
    all_pages (add_page a s) \<noteq> {}"
proof -
  let ?p = "Page_new a (m_page_size s) (m_blocks_per_page s) (m_block_size s)" and ?s = "add_page a s"
  note fields = add_page_fields [OF ok apart] and par = same_params_cong [OF add_page_params [of s a]]
  have p: "page_ok s ?p" "m_memory ?p = a" "set (p_available ?p) = page_blocks s a"
    "length (p_available ?p) = m_blocks_per_page s"
    using Page_new_ok [of s a] ok by (auto simp: pages_ok_def)
  have pages: "all_pages ?s = insert ?p (all_pages s)" "m_full_pages ?s = m_full_pages s"
    "set (m_pages ?s) = insert ?p (set (m_pages s))"
    using fields by (auto simp: all_pages_def set_insort_key add_page_def)
  have "distinct (map m_memory (m_pages ?s @ m_full_pages ?s))"
    using ok fields(1,2) p(2) pages(2)
    by (auto simp: pages_ok_def all_pages_def distinct_map_insort set_insort_key)
  moreover have "\<forall>x \<in> addrs ?s. \<forall>y \<in> addrs ?s. x \<noteq> y \<longrightarrow> apart ?s x y"
    using ok apart p(2) apart_sym by (auto simp: addrs_def pages par pages_ok_def)
  moreover have "m_available_blocks ?s = (\<Sum>p \<leftarrow> m_pages ?s. length (p_available p))"
    using ok p(4) fields(1) by (simp add: sum_list_insort pages_ok_def) (simp add: add_page_def)
  ultimately have pok: "pages_ok ?s"
    using ok p(1) pages add_page_params [of s a] by (auto simp: pages_ok_def par same_params_def)
  have "all_blocks ?s = page_blocks s a \<union> all_blocks s" "free_set ?s = page_blocks s a \<union> free_set s"
    using p(2,3) pages by (auto simp: all_blocks_def addrs_def free_set_def par)
  moreover have "page_blocks s a \<inter> all_blocks s = {}"
    using apart_disjoint [OF ok] apart by (auto simp: all_blocks_def addrs_def)
  ultimately have "used ?s = used s" by (auto simp: used_def)
  moreover have "empty_known ?s"
    using p pages by (auto simp: empty_known_def add_page_def)
  ultimately show ?thesis using pok pages by (simp add: add_page_def)
qed

lemma fresh_ok_add:
  assumes "fresh_ok as s" and "list_all (apart s a) as" and "pages_ok s"
    and "\<And>p. p \<in> all_pages s \<Longrightarrow> apart s a (m_memory p)"
  shows "fresh_ok as (add_page a s)"
  using assms(1,2)
proof (induction as)
  case (Cons b as)
  note par = same_params_cong [OF add_page_params [of s a]]
  note fields = add_page_fields [OF assms(3,4)]
  have full: "m_full_pages (add_page a s) = m_full_pages s" by (simp add: add_page_def)
  from Cons show ?case
    by (auto simp: par full fields(1,3) set_insort_key list_all_iff apart_sym [of s b a])
qed simp

lemma grow_ok:
  assumes "pages_ok s" and "empty_known s" and "fresh_ok fresh s" and "grow blocks fresh s = (ok, s')"
  shows "pages_ok s' \<and> empty_known s' \<and> used s' = used s \<and> same_params s s' \<and> (ok \<longrightarrow> blocks \<le> m_available_blocks s') \<and>
    (s' = s \<or> m_available_blocks s' < blocks + m_blocks_per_page s) \<and> (all_pages s \<noteq> {} \<longrightarrow> all_pages s' \<noteq> {})"
  using assms
proof (induction fresh arbitrary: s)
  case (Cons a fresh)
  show ?case
  proof (cases "blocks > m_available_blocks s")
    case True
    let ?s = "add_page a s"
    have ap: "apart s a (m_memory p)" if "p \<in> all_pages s" for p
      using Cons.prems(3) that by (auto simp: all_pages_def list_all_iff)
    note add = add_page_ok [OF Cons.prems(1) ap]
    have "fresh_ok fresh ?s"
      using fresh_ok_add [OF _ _ Cons.prems(1) ap] Cons.prems(3) by simp
    moreover have "grow blocks fresh ?s = (ok, s')" using Cons.prems(4) True by simp
    ultimately have ih: "pages_ok s' \<and> empty_known s' \<and> used s' = used ?s \<and> same_params ?s s' \<and>
        (ok \<longrightarrow> blocks \<le> m_available_blocks s') \<and>
        (s' = ?s \<or> m_available_blocks s' < blocks + m_blocks_per_page ?s) \<and> (all_pages ?s \<noteq> {} \<longrightarrow> all_pages s' \<noteq> {})"
      using Cons.IH [of ?s] add by blast
    moreover have "m_blocks_per_page ?s = m_blocks_per_page s" "same_params s ?s"
      using add_page_params [of s a] by (simp_all add: same_params_def)
    ultimately show ?thesis using add True by (auto simp: same_params_def)
  next
    case False
    with Cons.prems show ?thesis by (simp add: same_params_def)
  qed
qed (auto simp: same_params_def)

end
