(* ===== verification/Allocator_Facts.thy ===== *)
theory Allocator_Facts
  imports Allocator
begin

text \<open>
  The allocator keeps its invariant, hands out each block once, and holds exactly one empty page when all
  the blocks are back.
\<close>

section \<open>Definitions\<close>

text \<open>One round: the page keeps \<open>av\<close> and gives away \<open>new\<close>.\<close>

definition took :: "page \<Rightarrow> nat list \<Rightarrow> nat \<Rightarrow> allocator \<Rightarrow> allocator" where
  "took p av k s =
     (let p' = p\<lparr>p_available := av\<rparr>;
          e = (if m_empty_page s = Some (m_memory p) then None else m_empty_page s)
      in if av = []
         then s\<lparr>m_pages := tl (m_pages s), m_full_pages := insert_page p' (m_full_pages s), m_empty_page := e,
                m_available_blocks := m_available_blocks s - k\<rparr>
         else s\<lparr>m_pages := p' # tl (m_pages s), m_empty_page := e, m_available_blocks := m_available_blocks s - k\<rparr>)"

text \<open>The state after the block is back on its page.\<close>

definition returned :: "page \<Rightarrow> nat \<Rightarrow> allocator \<Rightarrow> allocator" where
  "returned p b s = (let s1 = unfull b s in
     s1\<lparr>m_pages := replace_page (p\<lparr>p_available := p_available p @ [b]\<rparr>) (m_pages s1),
        m_available_blocks := m_available_blocks s1 + 1\<rparr>)"

definition dropped :: "page \<Rightarrow> allocator \<Rightarrow> allocator" where
  "dropped p s = s\<lparr>m_pages := erase_page p (m_pages s),
     m_available_blocks := m_available_blocks s - m_blocks_per_page s\<rparr>"

section \<open>Taking blocks\<close>

lemma other_page_blocks:
  assumes ok: "pages_ok s" and "p \<in> all_pages s" and "q \<in> set (m_pages s)" and "m_memory p \<noteq> m_memory q"
  shows "set (p_available q) \<inter> page_blocks s (m_memory p) = {}"
proof -
  have "q \<in> all_pages s" using assms(3) by (simp add: all_pages_def)
  then have "apart s (m_memory p) (m_memory q)" using ok assms(2,4) by (simp add: pages_ok_def addrs_def)
  moreover have "set (p_available q) \<subseteq> page_blocks s (m_memory q)"
    using ok assms(3) by (simp add: pages_ok_def page_ok_def)
  ultimately show ?thesis using apart_disjoint [OF ok] by blast
qed

lemma took_fields:
  assumes ok: "pages_ok s" and ps: "m_pages s = p # rest"
  shows "same_params s (took p av k s)" and "addrs (took p av k s) = addrs s"
    and "m_available_blocks (took p av k s) = m_available_blocks s - k"
    and "set (m_pages (took p av k s)) = (if av = [] then {} else {p\<lparr>p_available := av\<rparr>}) \<union> set rest"
    and "set (m_full_pages (took p av k s)) = (if av = [] then {p\<lparr>p_available := av\<rparr>} else {}) \<union> set (m_full_pages s)"
    and "distinct (map m_memory (m_pages (took p av k s) @ m_full_pages (took p av k s)))"
proof -
  have d: "m_memory p \<notin> m_memory ` set (m_full_pages s)" "m_memory p \<notin> m_memory ` set rest"
    using ok by (auto simp: pages_ok_def ps)
  then have i: "insert_page (p\<lparr>p_available := x\<rparr>) (m_full_pages s) =
      insort_key m_memory (p\<lparr>p_available := x\<rparr>) (m_full_pages s)" for x by (simp add: insert_page_def)
  show "same_params s (took p av k s)" by (simp add: took_def same_params_def Let_def)
  show "m_available_blocks (took p av k s) = m_available_blocks s - k" by (simp add: took_def Let_def)
  show pg: "set (m_pages (took p av k s)) = (if av = [] then {} else {p\<lparr>p_available := av\<rparr>}) \<union> set rest"
    by (simp add: took_def Let_def ps)
  show fl: "set (m_full_pages (took p av k s)) = (if av = [] then {p\<lparr>p_available := av\<rparr>} else {}) \<union> set (m_full_pages s)"
    by (simp add: took_def Let_def i set_insort_key)
  show "addrs (took p av k s) = addrs s"
    unfolding addrs_def all_pages_def pg fl by (auto simp: ps)
  show "distinct (map m_memory (m_pages (took p av k s) @ m_full_pages (took p av k s)))"
    using ok d by (auto simp: took_def Let_def i ps pages_ok_def distinct_map_insort set_insort_key)
qed

lemma took_ok:
  assumes ok: "pages_ok s" and ek: "empty_known s" and ps: "m_pages s = p # rest"
    and av: "p_available p = av @ new" and new: "new \<noteq> []" and k: "k = length new"
  shows "pages_ok (took p av k s) \<and> empty_known (took p av k s) \<and> all_blocks (took p av k s) = all_blocks s \<and>
    free_set (took p av k s) = free_set s - set new \<and> set new \<subseteq> free_set s \<and>
    (single_empty s \<longrightarrow> single_empty (took p av k s))"
proof -
  let ?s = "took p av k s"
  note f = took_fields [OF ok ps, of av k] and par = same_params_cong [OF took_fields(1) [OF ok ps, of av k]]
  have p: "page_ok s p" "p \<in> all_pages s" using ok by (simp_all add: ps pages_ok_def all_pages_def)
  have dist: "set av \<inter> set new = {}" "distinct av" "set av \<subseteq> page_blocks s (m_memory p)"
    "set new \<subseteq> page_blocks s (m_memory p)" using p(1) by (auto simp: page_ok_def av)
  have rest: "set (p_available q) \<inter> set new = {}" "m_memory q \<noteq> m_memory p" if "q \<in> set rest" for q
  proof -
    have "m_memory p \<notin> m_memory ` set rest" using ok by (simp add: pages_ok_def ps)
    then show ne: "m_memory q \<noteq> m_memory p" using imageI [OF that, of m_memory] by auto
    show "set (p_available q) \<inter> set new = {}"
      using other_page_blocks [OF ok p(2), of q] ne that dist(4) by (auto simp: ps)
  qed
  have "m_available_blocks ?s = (\<Sum>p \<leftarrow> m_pages ?s. length (p_available p))"
    using ok k av by (simp add: f(3) pages_ok_def ps) (simp add: took_def Let_def ps)
  moreover have "\<forall>q \<in> set (m_pages ?s). page_ok ?s q"
    using ok dist by (auto simp: f(4) par pages_ok_def ps page_ok_def)
  moreover have "\<forall>q \<in> set (m_full_pages ?s). p_available q = []"
    using ok by (auto simp: f(5) pages_ok_def)
  ultimately have pok: "pages_ok ?s"
    using ok f(1,2,6) par by (simp add: pages_ok_def same_params_def)
  define others where "others = (\<Union>q \<in> set rest. set (p_available q))"
  have disj: "others \<inter> set new = {}" using rest(1) by (auto simp: others_def)
  have free: "free_set s = set av \<union> set new \<union> others" "free_set ?s = set av \<union> others"
    by (auto simp: free_set_def ps av f(4) others_def)
  have sub: "free_set ?s = free_set s - set new" "set new \<subseteq> free_set s"
    unfolding free using dist(1) disj by blast+
  have all: "all_blocks ?s = all_blocks s" by (simp add: all_blocks_def f(2) par)
  have e: "m_empty_page ?s = (if m_empty_page s = Some (m_memory p) then None else m_empty_page s)"
    by (simp add: took_def Let_def)
  have bpp: "m_blocks_per_page ?s = m_blocks_per_page s" using f(1) by (simp add: same_params_def)
  have known: "empty_known ?s"
    using ek rest(2) by (auto simp: empty_known_def e bpp f(4) ps)
  have "single_empty ?s" if "single_empty s"
  proof -
    have "length av < m_blocks_per_page s"
    proof -
      have "length (p_available p) = card (set (p_available p))" using p(1) by (simp add: page_ok_def distinct_card)
      also have "\<dots> \<le> card (page_blocks s (m_memory p))"
        using p(1) by (intro card_mono) (auto simp: page_ok_def page_blocks_def)
      also have "\<dots> \<le> m_blocks_per_page s" unfolding page_blocks_def by (rule order.trans [OF card_image_le]) simp_all
      finally show ?thesis using new by (cases new) (simp_all add: av)
    qed
    then show ?thesis using that rest(2) by (auto simp: single_empty_def e bpp f(4) ps)
  qed
  with pok all sub known show ?thesis by blast
qed

lemma take_page_took:
  assumes ok: "pages_ok s" and ps: "m_pages s = p # rest" and "0 < blocks"
  defines "k \<equiv> min blocks (length (p_available p))"
  defines "av \<equiv> take (length (p_available p) - k) (p_available p)"
  shows "take_page blocks result s = Some (k, result @ rev (drop (length (p_available p) - k) (p_available p)), took p av k s)"
proof -
  have "p_available p \<noteq> []" using ok by (simp add: ps pages_ok_def page_ok_def)
  then have "0 < k" using assms(3) by (simp add: k_def)
  then show ?thesis
    by (simp add: take_page_def ps use_blocks_eq took_def Let_def av_def flip: k_def)
qed

lemma take_loop_ok:
  assumes "pages_ok s" and "empty_known s" and "blocks \<le> m_available_blocks s"
  shows "\<exists>new s'. take_loop blocks result s = Some (result @ new, s') \<and> length new = blocks \<and> distinct new \<and>
    set new \<subseteq> free_set s \<and> pages_ok s' \<and> empty_known s' \<and> same_params s s' \<and>
    all_blocks s' = all_blocks s \<and> addrs s' = addrs s \<and> free_set s' = free_set s - set new \<and>
    m_available_blocks s' = m_available_blocks s - blocks \<and> (single_empty s \<longrightarrow> single_empty s')"
  using assms
proof (induction blocks arbitrary: result s rule: less_induct)
  case (less blocks)
  show ?case
  proof (cases "blocks = 0")
    case True
    then show ?thesis using less.prems by (subst take_loop.simps) (simp add: same_params_def)
  next
    case False
    have "m_pages s \<noteq> []" using less.prems False by (auto simp: pages_ok_def)
    then obtain p rest where ps: "m_pages s = p # rest" by (cases "m_pages s") auto
    define k where "k = min blocks (length (p_available p))"
    define av where "av = take (length (p_available p) - k) (p_available p)"
    define nw where "nw = drop (length (p_available p) - k) (p_available p)"
    have ne: "p_available p \<noteq> []" and d: "distinct (p_available p)"
      using less.prems(1) by (simp_all add: ps pages_ok_def page_ok_def)
    have "0 < k" using False ne by (simp add: k_def)
    moreover have len: "length nw = k" by (simp add: k_def nw_def)
    ultimately have "nw \<noteq> []" by auto
    with \<open>0 < k\<close> len have k: "0 < k" "k \<le> blocks" "length nw = k" "p_available p = av @ nw" "distinct nw" "nw \<noteq> []"
      using d by (simp_all add: k_def av_def nw_def)
    note t = took_ok [OF less.prems(1,2) ps k(4,6) k(3) [symmetric]] and f = took_fields [OF less.prems(1) ps, of av k]
    have step: "take_page blocks result s = Some (k, result @ rev nw, took p av k s)"
      using take_page_took [OF less.prems(1) ps, of blocks result] False by (simp add: k_def av_def nw_def)
    have lt: "blocks - k < blocks" and le: "blocks - k \<le> m_available_blocks (took p av k s)"
      using k(1,2) less.prems(3) False by (simp_all add: f(3))
    from t have tp: "pages_ok (took p av k s)" and tk: "empty_known (took p av k s)" by blast+
    from less.IH [OF lt tp tk le, of "result @ rev nw"]
    obtain new s' where ih: "take_loop (blocks - k) (result @ rev nw) (took p av k s) = Some ((result @ rev nw) @ new, s')"
      "length new = blocks - k" "distinct new" "set new \<subseteq> free_set (took p av k s)" "pages_ok s'" "empty_known s'"
      "same_params (took p av k s) s'" "all_blocks s' = all_blocks (took p av k s)" "addrs s' = addrs (took p av k s)"
      "free_set s' = free_set (took p av k s) - set new"
      "m_available_blocks s' = m_available_blocks (took p av k s) - (blocks - k)"
      "single_empty (took p av k s) \<longrightarrow> single_empty s'"
      by blast
    have "take_loop blocks result s = Some (result @ (rev nw @ new), s')"
      using False by (subst take_loop.simps) (simp add: step ih(1))
    moreover have "length (rev nw @ new) = blocks" using ih(2) k(2,3) by simp
    moreover have "distinct (rev nw @ new)" using k(5) ih(3,4) t by auto
    moreover have "set (rev nw @ new) \<subseteq> free_set s" using ih(4) t by auto
    moreover have "free_set s' = free_set s - set (rev nw @ new)" using ih(10) t by auto
    moreover have "m_available_blocks s' = m_available_blocks s - blocks" using ih(11) f(3) k(2) by simp
    moreover have "same_params s s'" using ih(7) f(1) by (simp add: same_params_def)
    ultimately show ?thesis using ih(5,6,8,9,12) t f(2) by (intro exI [of _ "rev nw @ new"]) auto
  qed
qed

section \<open>Allocating\<close>

lemma page_length_le: "pages_ok s \<Longrightarrow> p \<in> set (m_pages s) \<Longrightarrow> length (p_available p) \<le> m_available_blocks s"
  by (simp add: pages_ok_def member_le_sum_list)

lemma block_count_ceil:
  assumes "0 < m_block_size s" and "memory + m_block_size s \<le> 2 ^ 64"
  shows "block_count memory s = (memory + m_block_size s - 1) div m_block_size s"
  using assms by (simp add: block_count_def)

lemma allocate_valid:
  assumes ok: "alloc_valid s" and fresh: "fresh_ok fresh s"
    and g: "grow (block_count memory s) fresh s = (True, s1)"
  shows "\<exists>new s'. allocate fresh memory s = Some (Some new, s') \<and> alloc_valid s' \<and> (single_empty s \<longrightarrow> single_empty s') \<and>
    same_params s s' \<and> length new = block_count memory s \<and> distinct new \<and> set new \<inter> used s = {} \<and> used s' = used s \<union> set new"
proof -
  have s: "pages_ok s" "empty_known s" "all_pages s \<noteq> {}" using ok by (simp_all add: alloc_valid_def)
  let ?n = "block_count memory s"
  note grown = grow_ok [OF s(1,2) fresh g]
  from grown have s1: "pages_ok s1" "empty_known s1" "used s1 = used s" "same_params s s1" "?n \<le> m_available_blocks s1"
    "s1 = s \<or> m_available_blocks s1 < ?n + m_blocks_per_page s" "all_pages s1 \<noteq> {}" using s(3) by blast+
  from take_loop_ok [OF s1(1,2,5), of "[]"] obtain new s' where t: "take_loop ?n [] s1 = Some (new, s')"
    "length new = ?n" "distinct new" "set new \<subseteq> free_set s1" "pages_ok s'" "empty_known s'" "same_params s1 s'"
    "all_blocks s' = all_blocks s1" "addrs s' = addrs s1" "free_set s' = free_set s1 - set new"
    "m_available_blocks s' = m_available_blocks s1 - ?n" "single_empty s1 \<longrightarrow> single_empty s'" by auto
  have "single_empty s'" if "single_empty s"
  proof (cases "s1 = s")
    case True
    with t(12) that show ?thesis by simp
  next
    case False
    then have "m_available_blocks s' < m_blocks_per_page s'"
      using s1(4-6) t(7,11) by (simp add: same_params_def)
    then show ?thesis using page_length_le [OF t(5)] by (fastforce simp: single_empty_def)
  qed
  moreover have "all_pages s' \<noteq> {}" using t(9) s1(7) by (auto simp: addrs_def)
  then have "alloc_valid s'" using t(5,6) by (simp add: alloc_valid_def)
  moreover have "used s' = used s \<union> set new" "set new \<inter> used s = {}"
    using t(4,8,10) s1(3) free_set_blocks [OF s1(1)] unfolding used_def by blast+
  moreover have "same_params s s'" using s1(4) t(7) by (simp add: same_params_def)
  ultimately show ?thesis using t(1-3) g by (auto simp: allocate_def Let_def)
qed

lemma alloc_ok_valid: "alloc_ok s \<longleftrightarrow> alloc_valid s \<and> single_empty s"
  by (auto simp: alloc_ok_def alloc_valid_def)

lemma allocate_ok:
  assumes "alloc_ok s" and "fresh_ok fresh s" and "grow (block_count memory s) fresh s = (True, s1)"
  shows "\<exists>new s'. allocate fresh memory s = Some (Some new, s') \<and> alloc_ok s' \<and> same_params s s' \<and>
    length new = block_count memory s \<and> distinct new \<and> set new \<inter> used s = {} \<and> used s' = used s \<union> set new"
  using allocate_valid [OF _ assms(2,3)] assms(1) by (auto simp: alloc_ok_valid)

text \<open>An allocation for which there is no memory keeps the pages it has got.\<close>

lemma allocate_fails:
  assumes ok: "alloc_valid s" and fresh: "fresh_ok fresh s" and g: "grow (block_count memory s) fresh s = (False, s')"
  shows "allocate fresh memory s = Some (None, s') \<and> alloc_valid s' \<and> used s' = used s"
  using grow_ok [OF _ _ fresh g] ok g by (simp add: alloc_valid_def allocate_def Let_def)

section \<open>Freeing\<close>

lemma sum_replace:
  "distinct (map m_memory ps) \<Longrightarrow> p \<in> set ps \<Longrightarrow> m_memory p' = m_memory p \<Longrightarrow>
     (\<Sum>q \<leftarrow> replace_page p' ps. f q) + f p = (\<Sum>q \<leftarrow> ps. f q) + (f p' :: nat)"
proof (induction ps)
  case (Cons q ps)
  have id: "replace_page p' qs = qs" if "m_memory p \<notin> m_memory ` set qs" for qs
    using that Cons.prems(3) by (induction qs) (auto simp: replace_page_def)
  show ?case
  proof (cases "q = p")
    case True
    with Cons.prems id [of ps] show ?thesis by (simp add: replace_page_def)
  next
    case False
    with Cons.prems have "p \<in> set ps" "m_memory q \<noteq> m_memory p" by auto
    with Cons show ?thesis by (simp add: replace_page_def)
  qed
qed simp

lemma sum_erase:
  "distinct (map m_memory ps) \<Longrightarrow> p \<in> set ps \<Longrightarrow>
     (\<Sum>q \<leftarrow> erase_page p ps. f q) + f p = (\<Sum>q \<leftarrow> ps. (f q :: nat))"
proof (induction ps)
  case (Cons q ps)
  have id: "erase_page p qs = qs" if "m_memory p \<notin> m_memory ` set qs" for qs
    using that by (induction qs) (auto simp: erase_page_def)
  show ?case
  proof (cases "q = p")
    case True
    with Cons.prems id [of ps] show ?thesis by (simp add: erase_page_def)
  next
    case False
    with Cons.prems have "p \<in> set ps" "m_memory q \<noteq> m_memory p" by auto
    with Cons show ?thesis by (simp add: erase_page_def)
  qed
qed simp

lemma same_page: "distinct (map m_memory ps) \<Longrightarrow> p \<in> set ps \<Longrightarrow> q \<in> set ps \<Longrightarrow> m_memory q = m_memory p \<Longrightarrow> q = p"
  by (simp add: distinct_map inj_on_def)

lemma set_erase: "distinct (map m_memory ps) \<Longrightarrow> p \<in> set ps \<Longrightarrow> set (erase_page p ps) = set ps - {p}"
  using same_page [of ps p] unfolding erase_page_def by auto

lemma set_replace:
  "distinct (map m_memory ps) \<Longrightarrow> p \<in> set ps \<Longrightarrow> m_memory p' = m_memory p \<Longrightarrow>
     set (replace_page p' ps) = insert p' (set ps - {p})"
proof -
  assume h: "distinct (map m_memory ps)" "p \<in> set ps" "m_memory p' = m_memory p"
  have "(if m_memory q = m_memory p' then p' else q) = (if q = p then p' else q)" if "q \<in> set ps" for q
    using same_page [OF h(1,2) that] h(3) by auto
  then have "set (replace_page p' ps) = (\<lambda>q. if q = p then p' else q) ` set ps"
    unfolding replace_page_def by (simp cong: image_cong)
  also have "\<dots> = insert p' (set ps - {p})" using h(2) by auto
  finally show ?thesis .
qed

lemma map_replace: "m_memory p' = m_memory p \<Longrightarrow> map m_memory (replace_page p' ps) = map m_memory ps"
  by (auto simp: replace_page_def)

lemma distinct_erase: "distinct (map m_memory ps) \<Longrightarrow> distinct (map m_memory (erase_page p ps))"
  by (auto simp: erase_page_def distinct_map inj_on_def)

lemma find_unique:
  assumes "p \<in> set ps" and "P p" and "\<And>q. q \<in> set ps \<Longrightarrow> P q \<Longrightarrow> q = p"
  shows "List.find P ps = Some p"
  using assms
proof (induction ps)
  case (Cons a ps)
  show ?case
  proof (cases "P a")
    case True
    then have "a = p" using Cons.prems(3) [of a] by simp
    with True show ?thesis by simp
  next
    case False
    then have "p \<in> set ps" using Cons.prems(1,2) by auto
    then have "List.find P ps = Some p" using Cons.IH Cons.prems(2,3) by (meson list.set_intros(2))
    with False show ?thesis by simp
  qed
qed simp

lemma find_none: "(\<And>q. q \<in> set ps \<Longrightarrow> \<not> P q) \<Longrightarrow> List.find P ps = None"
  by (simp add: find_None_iff)

text \<open>The page of a block, after it has left the full pages.\<close>

lemma unfull_ok:
  assumes ok: "pages_ok s" and p: "p \<in> all_pages s" "holds (m_page_size s) b p"
  defines "s1 \<equiv> unfull b s"
  shows "find_page (m_page_size s1) b (m_pages s1) = Some p" and "same_params s s1"
    and "set (m_pages s1) = insert p (set (m_pages s))" and "set (m_full_pages s1) = set (m_full_pages s) - {p}"
    and "distinct (map m_memory (m_pages s1 @ m_full_pages s1))"
    and "(\<Sum>q \<leftarrow> m_pages s1. length (p_available q)) = (\<Sum>q \<leftarrow> m_pages s. length (p_available q))"
    and "m_empty_page s1 = m_empty_page s" and "m_available_blocks s1 = m_available_blocks s"
proof -
  have d: "distinct (map m_memory (m_pages s))" "distinct (map m_memory (m_full_pages s))"
    "m_memory ` set (m_pages s) \<inter> m_memory ` set (m_full_pages s) = {}" using ok by (auto simp: pages_ok_def)
  have uniq: "q = p" if "q \<in> all_pages s" "holds (m_page_size s) b q" for q
    using holds_unique [OF ok that(1) p(1) that(2) p(2)] .
  have ps: "m_page_size s1 = m_page_size s" by (simp add: s1_def unfull_def split: option.splits)
  show "same_params s s1" by (simp add: s1_def unfull_def same_params_def split: option.splits)
  show "m_empty_page s1 = m_empty_page s" "m_available_blocks s1 = m_available_blocks s"
    by (simp_all add: s1_def unfull_def split: option.splits)
  consider (full) "p \<in> set (m_full_pages s)" | (part) "p \<in> set (m_pages s)" "p \<notin> set (m_full_pages s)"
    using p(1) by (auto simp: all_pages_def)
  then have "set (m_pages s1) = insert p (set (m_pages s)) \<and> set (m_full_pages s1) = set (m_full_pages s) - {p} \<and>
    distinct (map m_memory (m_pages s1 @ m_full_pages s1)) \<and>
    (\<Sum>q \<leftarrow> m_pages s1. length (p_available q)) = (\<Sum>q \<leftarrow> m_pages s. length (p_available q))"
  proof cases
    case full
    have "find_page (m_page_size s) b (m_full_pages s) = Some p"
      unfolding find_page_def using full p(2) uniq by (intro find_unique) (auto simp: all_pages_def)
    then have s1: "m_pages s1 = insert_page p (m_pages s)" "m_full_pages s1 = erase_page p (m_full_pages s)"
      by (simp_all add: s1_def unfull_def)
    have new: "m_memory p \<notin> m_memory ` set (m_pages s)" using d(3) full by auto
    have er: "set (erase_page p (m_full_pages s)) = set (m_full_pages s) - {p}" by (rule set_erase [OF d(2) full])
    have "m_memory p \<notin> m_memory ` set (erase_page p (m_full_pages s))" by (auto simp: erase_page_def)
    moreover have "p_available p = []" using ok full by (simp add: pages_ok_def)
    ultimately show ?thesis
      using d new er distinct_erase [OF d(2), of p]
      by (auto simp: s1 insert_page_new [OF new] set_insort_key sum_list_insort distinct_map_insort)
  next
    case part
    have "find_page (m_page_size s) b (m_full_pages s) = None"
      unfolding find_page_def using part uniq by (intro find_none) (auto simp: all_pages_def)
    then have "s1 = s" by (simp add: s1_def unfull_def)
    then show ?thesis using part d by auto
  qed
  then show pg: "set (m_pages s1) = insert p (set (m_pages s))"
    and "set (m_full_pages s1) = set (m_full_pages s) - {p}"
    and "distinct (map m_memory (m_pages s1 @ m_full_pages s1))"
    and "(\<Sum>q \<leftarrow> m_pages s1. length (p_available q)) = (\<Sum>q \<leftarrow> m_pages s. length (p_available q))" by blast+
  show "find_page (m_page_size s1) b (m_pages s1) = Some p"
    unfolding find_page_def ps
  proof (rule find_unique [where P = "holds (m_page_size s) b"])
    show "p \<in> set (m_pages s1)" by (simp add: pg)
    show "q = p" if "q \<in> set (m_pages s1)" "holds (m_page_size s) b q" for q
      using uniq [of q] that by (cases "q = p") (simp_all add: pg all_pages_def)
  qed (rule p(2))
qed

lemma returned_ok:
  assumes ok: "pages_ok s" and p: "p \<in> all_pages s" "b \<in> page_blocks s (m_memory p)" and b: "b \<notin> free_set s"
  defines "p' \<equiv> p\<lparr>p_available := p_available p @ [b]\<rparr>" and "s2 \<equiv> returned p b s"
  shows "pages_ok s2" and "same_params s s2" and "addrs s2 = addrs s" and "used s2 = used s - {b}"
    and "set (m_pages s2) = insert p' (set (m_pages s) - {p})" and "m_empty_page s2 = m_empty_page s"
proof -
  let ?s1 = "unfull b s"
  note u = unfull_ok [OF ok p(1) page_blocks_holds [OF ok p(2)]]
  have d: "distinct (map m_memory (m_pages ?s1))" using u(5) by simp
  have mem: "m_memory p' = m_memory p" by (simp add: p'_def)
  have pin: "p \<in> set (m_pages ?s1)" by (simp add: u(3))
  have pages: "m_pages s2 = replace_page p' (m_pages ?s1)" "m_full_pages s2 = m_full_pages ?s1"
    "m_available_blocks s2 = m_available_blocks s + 1"
    by (simp_all add: s2_def returned_def p'_def Let_def u(8))
  show par: "same_params s s2" using u(2) by (simp add: s2_def returned_def Let_def same_params_def)
  note pc = same_params_cong [OF par]
  show set: "set (m_pages s2) = insert p' (set (m_pages s) - {p})"
    using set_replace [OF d pin mem] by (simp add: pages u(3))
  have addr_pages: "m_memory ` set (m_pages s2) = m_memory ` set (m_pages ?s1)"
    using map_replace [OF mem, of "m_pages ?s1"] by (metis pages(1) set_map)
  show addr: "addrs s2 = addrs s"
    using p(1) by (auto simp: addrs_def all_pages_def image_Un addr_pages pages(2) u(3,4))
  have av: "b \<notin> set (p_available p)"
    using p(1) b ok by (auto simp: all_pages_def free_set_def pages_ok_def)
  have pok: "page_ok s p'"
    using p ok av by (auto simp: p'_def page_ok_def all_pages_def pages_ok_def)
  have "(\<Sum>q \<leftarrow> m_pages s2. length (p_available q)) + length (p_available p) =
      (\<Sum>q \<leftarrow> m_pages ?s1. length (p_available q)) + length (p_available p')"
    unfolding pages(1) by (rule sum_replace [OF d pin mem])
  then have "(\<Sum>q \<leftarrow> m_pages s2. length (p_available q)) = m_available_blocks s2"
    using ok by (simp add: p'_def u(6) pages(3) pages_ok_def)
  moreover have "distinct (map m_memory (m_pages s2 @ m_full_pages s2))"
    using u(5) map_replace [OF mem, of "m_pages ?s1"] addr_pages by (simp add: pages(1,2))
  ultimately show "pages_ok s2"
    using ok pok par addr by (auto simp: pages_ok_def pc set pages(2) u(4) same_params_def)
  have "free_set s2 = insert b (free_set s)"
    using p(1) ok by (auto simp: free_set_def set p'_def all_pages_def pages_ok_def)
  moreover have "all_blocks s2 = all_blocks s" by (simp add: all_blocks_def addr pc)
  ultimately show "used s2 = used s - {b}" by (auto simp: used_def)
  show "m_empty_page s2 = m_empty_page s" by (simp add: s2_def returned_def Let_def u(7))
qed

lemma whole_page:
  assumes "page_ok s p" and "length (p_available p) = m_blocks_per_page s"
  shows "set (p_available p) = page_blocks s (m_memory p)"
proof (rule card_seteq)
  have "card (page_blocks s (m_memory p)) \<le> m_blocks_per_page s"
    unfolding page_blocks_def by (rule order.trans [OF card_image_le]) simp_all
  also have "\<dots> = card (set (p_available p))" using assms by (simp add: page_ok_def distinct_card)
  finally show "card (page_blocks s (m_memory p)) \<le> card (set (p_available p))" .
  show "set (p_available p) \<subseteq> page_blocks s (m_memory p)" using assms(1) by (simp add: page_ok_def)
qed (simp add: page_blocks_def)

lemma dropped_ok:
  assumes ok: "pages_ok s" and p: "p \<in> set (m_pages s)" "length (p_available p) = m_blocks_per_page s"
  shows "pages_ok (dropped p s) \<and> used (dropped p s) = used s \<and> set (m_pages (dropped p s)) = set (m_pages s) - {p}"
proof -
  let ?s = "dropped p s"
  have d: "distinct (map m_memory (m_pages s))" "distinct (map m_memory (m_full_pages s))"
    "m_memory ` set (m_pages s) \<inter> m_memory ` set (m_full_pages s) = {}" using ok by (auto simp: pages_ok_def)
  have par: "same_params s ?s" by (simp add: same_params_def dropped_def)
  note pc = same_params_cong [OF par]
  have set: "set (m_pages ?s) = set (m_pages s) - {p}" "m_full_pages ?s = m_full_pages s"
    using set_erase [OF d(1) p(1)] by (simp_all add: dropped_def)
  have "p \<notin> set (m_full_pages s)" using d(3) p(1) by blast
  then have "all_pages ?s = all_pages s - {p}" by (auto simp: all_pages_def set)
  moreover have "p \<in> all_pages s" using p(1) by (simp add: all_pages_def)
  ultimately have addr: "addrs ?s = addrs s - {m_memory p}"
    using inj_on_image_set_diff [OF pages_inj [OF ok], of "all_pages s" "{p}"] by (simp add: addrs_def)
  have "(\<Sum>q \<leftarrow> m_pages ?s. length (p_available q)) + m_blocks_per_page s =
      (\<Sum>q \<leftarrow> m_pages s. length (p_available q))"
    using sum_erase [OF d(1) p(1), of "\<lambda>q. length (p_available q)"] p(2) by (simp add: dropped_def)
  then have "(\<Sum>q \<leftarrow> m_pages ?s. length (p_available q)) = m_available_blocks ?s"
    using ok by (simp add: dropped_def pages_ok_def)
  moreover have "distinct (map m_memory (m_pages ?s @ m_full_pages ?s))"
    using d distinct_erase [OF d(1), of p] set by (auto simp: dropped_def)
  ultimately have pok: "pages_ok ?s"
    using ok par addr by (auto simp: pages_ok_def pc set same_params_def)
  have page: "page_blocks s (m_memory p) = set (p_available p)"
    using whole_page [of s p] ok p by (simp add: pages_ok_def)
  have "used ?s = used s"
  proof -
    have pin: "p \<in> all_pages s" using p(1) by (simp add: all_pages_def)
    have "all_blocks ?s = all_blocks s - page_blocks s (m_memory p)"
    proof -
      have "page_blocks s a \<inter> page_blocks s (m_memory p) = {}" if "a \<in> addrs s" "a \<noteq> m_memory p" for a
      proof -
        have "m_memory p \<in> addrs s" using pin by (simp add: addrs_def)
        then have "apart s a (m_memory p)" using ok that unfolding pages_ok_def by blast
        then show ?thesis by (rule apart_disjoint [OF ok])
      qed
      then show ?thesis unfolding all_blocks_def addr pc by blast
    qed
    moreover have "free_set ?s = free_set s - page_blocks s (m_memory p)"
    proof -
      have "set (p_available q) \<inter> page_blocks s (m_memory p) = {}" if "q \<in> set (m_pages s)" "q \<noteq> p" for q
        using other_page_blocks [OF ok pin that(1)] same_page [OF d(1) p(1) that(1)] that(2) by force
      then show ?thesis unfolding free_set_def set page by blast
    qed
    moreover have "page_blocks s (m_memory p) \<subseteq> free_set s" using p(1) page by (auto simp: free_set_def)
    ultimately show ?thesis unfolding used_def by blast
  qed
  with pok set show ?thesis by simp
qed

lemma used_page:
  assumes "b \<in> used s"
  shows "\<exists>p \<in> all_pages s. b \<in> page_blocks s (m_memory p) \<and> b \<notin> free_set s"
  using assms by (auto simp: used_def all_blocks_def addrs_def)

lemma free_block_valid:
  assumes ok: "alloc_valid s" and b: "b \<in> used s"
  shows "\<exists>s'. free_block b s = Some s' \<and> alloc_valid s' \<and> (single_empty s \<longrightarrow> single_empty s') \<and> same_params s s' \<and> used s' = used s - {b}"
proof -
  have s: "pages_ok s" "empty_known s" using ok by (simp_all add: alloc_valid_def)
  from used_page [OF b] obtain p where p: "p \<in> all_pages s" "b \<in> page_blocks s (m_memory p)" "b \<notin> free_set s"
    by blast
  define p' where "p' = p\<lparr>p_available := p_available p @ [b]\<rparr>"
  define s2 where "s2 = returned p b s"
  note u = unfull_ok [OF s(1) p(1) page_blocks_holds [OF s(1) p(2)]]
  note r = returned_ok [OF s(1) p, folded p'_def s2_def]
  have bpp: "m_blocks_per_page s2 = m_blocks_per_page s" using r(2) by (simp add: same_params_def)
  have p'in: "p' \<in> set (m_pages s2)" by (simp add: r(5))
  have mem: "m_memory p' = m_memory p" by (simp add: p'_def)
  have other: "m_memory q \<noteq> m_memory p" if "q \<in> set (m_pages s)" "q \<noteq> p" for q
    using pages_inj [OF s(1)] that p(1) by (auto simp: inj_on_def all_pages_def)
  have not_whole: "\<not> (p \<in> set (m_pages s) \<and> length (p_available p) = m_blocks_per_page s)"
  proof
    assume h: "p \<in> set (m_pages s) \<and> length (p_available p) = m_blocks_per_page s"
    then have "set (p_available p) = page_blocks s (m_memory p)"
      using whole_page [of s p] s(1) by (simp add: pages_ok_def)
    with h p(2,3) show False by (auto simp: free_set_def)
  qed
  have not_p: "m_empty_page s \<noteq> Some (m_memory p)"
    using s(2) not_whole other unfolding empty_known_def by blast
  have eq: "free_block b s =
      (if m_blocks_per_page s2 = length (p_available p')
       then (if m_empty_page s2 \<noteq> None then remove_page p' s2 else Some (s2\<lparr>m_empty_page := Some (m_memory p')\<rparr>))
       else Some s2)"
    by (simp add: free_block_def u(1) s2_def returned_def p'_def Let_def)
  consider (keep) "m_blocks_per_page s2 \<noteq> length (p_available p')"
    | (spare) "m_blocks_per_page s2 = length (p_available p')" "m_empty_page s = None"
    | (drop) "m_blocks_per_page s2 = length (p_available p')" "m_empty_page s \<noteq> None" by blast
  then show ?thesis
  proof cases
    case keep
    have "empty_known s2" using s(2) not_p by (auto simp: empty_known_def r(5,6) bpp)
    moreover have "single_empty s \<longrightarrow> single_empty s2" using keep by (auto simp: single_empty_def r(5,6) bpp)
    ultimately show ?thesis using r keep p'in eq by (auto simp: alloc_valid_def all_pages_def)
  next
    case spare
    let ?s = "s2\<lparr>m_empty_page := Some (m_memory p')\<rparr>"
    have "same_params s2 ?s" by (simp add: same_params_def)
    note pc = same_params_cong [OF this]
    have "addrs ?s = addrs s2" by (simp add: addrs_def all_pages_def)
    then have "pages_ok ?s" using r(1) by (simp add: pages_ok_def pc)
    moreover have "empty_known ?s" using p'in spare(1) by (auto simp: empty_known_def)
    moreover have "single_empty s \<longrightarrow> single_empty ?s" using spare(2) by (auto simp: single_empty_def r(5) bpp)
    moreover have "used ?s = used s2" by (simp add: used_def all_blocks_def addrs_def all_pages_def free_set_def page_blocks_def)
    moreover have "same_params s ?s" using r(2) by (simp add: same_params_def)
    ultimately show ?thesis using r p'in eq spare by (auto simp: alloc_valid_def all_pages_def)
  next
    case drop
    note dr = dropped_ok [OF r(1) p'in drop(1) [symmetric]]
    have full: "m_memory p' \<notin> m_memory ` set (m_full_pages s2)"
      using r(1) p'in by (auto simp: pages_ok_def)
    have "m_empty_page s2 \<noteq> Some (m_memory p')" using not_p by (simp add: mem r(6))
    then have rm: "remove_page p' s2 = Some (dropped p' s2)"
      using full drop(1) by (simp add: remove_page_def dropped_def)
    from drop(2) s(2) obtain q where q: "q \<in> set (m_pages s)" "m_empty_page s = Some (m_memory q)"
      "length (p_available q) = m_blocks_per_page s" by (auto simp: empty_known_def)
    have "q \<noteq> p" using not_p q(2) by auto
    moreover have "q \<noteq> p'" using not_p q(2) mem by auto
    ultimately have qin: "q \<in> set (m_pages (dropped p' s2))" using dr q(1) by (simp add: r(5))
    have e: "m_empty_page (dropped p' s2) = m_empty_page s" "m_blocks_per_page (dropped p' s2) = m_blocks_per_page s"
      by (simp_all add: dropped_def r(6) bpp)
    have "empty_known (dropped p' s2)" using q qin by (auto simp: empty_known_def e)
    moreover have "single_empty s \<longrightarrow> single_empty (dropped p' s2)" using dr by (auto simp: single_empty_def e r(5))
    moreover have "same_params s (dropped p' s2)" using r(2) by (simp add: same_params_def dropped_def)
    ultimately show ?thesis using dr r qin eq rm drop by (auto simp: alloc_valid_def all_pages_def)
  qed
qed

lemma free_block_ok:
  assumes "alloc_ok s" and "b \<in> used s"
  shows "\<exists>s'. free_block b s = Some s' \<and> alloc_ok s' \<and> same_params s s' \<and> used s' = used s - {b}"
  using free_block_valid [OF _ assms(2)] assms(1) by (auto simp: alloc_ok_valid)

section \<open>The life of an allocator\<close>

lemma Allocator_new_ok:
  assumes "Allocator_new a page_size block_size = Inr s"
  shows "alloc_ok s \<and> used s = {}"
proof -
  let ?n = "page_size div block_size"
  let ?s0 = "\<lparr>m_blocks_per_page = ?n, m_block_size = block_size, m_page_size = ?n * block_size, m_pages = [],
    m_full_pages = [], m_empty_page = None, m_available_blocks = 0\<rparr>"
  have n: "0 < block_size" "0 < ?n" and s: "s = add_page a ?s0"
    using assms by (auto simp: Allocator_new_def Let_def split: if_splits)
  have none: "all_pages ?s0 = {}" by (simp add: all_pages_def)
  have "pages_ok ?s0" using n by (simp add: pages_ok_def addrs_def none)
  from add_page_ok [OF this] have "pages_ok s \<and> empty_known s \<and> used s = used ?s0 \<and> all_pages s \<noteq> {}"
    by (simp add: s none)
  moreover have "used ?s0 = {}" by (simp add: used_def all_blocks_def addrs_def none)
  moreover have "single_empty s" by (simp add: s single_empty_def add_page_def insert_page_def Page_new_def)
  ultimately show ?thesis by (simp add: alloc_ok_def)
qed

lemma allocate_grows:
  assumes "allocate fresh memory s = Some (r, s')"
  shows "\<exists>s1. grow (block_count memory s) fresh s = (r \<noteq> None, s1) \<and> (r = None \<longrightarrow> s1 = s')"
  using assms by (auto simp: allocate_def Let_def split: prod.splits bool.splits option.splits)

lemma alloc_run_ok: "alloc_run s held failed \<Longrightarrow> alloc_valid s \<and> used s = held \<and> (\<not> failed \<longrightarrow> alloc_ok s)"
proof (induction rule: alloc_run.induct)
  case (Start a page_size block_size s)
  then show ?case using Allocator_new_ok by (auto simp: alloc_ok_valid)
next
  case (Allocate s held failed fresh memory blocks s')
  then obtain s1 where "grow (block_count memory s) fresh s = (True, s1)" using allocate_grows by fastforce
  from allocate_valid [OF _ Allocate.hyps(2) this] Allocate show ?case by (auto simp: alloc_ok_valid)
next
  case (Fail s held failed fresh memory s')
  then have "grow (block_count memory s) fresh s = (False, s')" using allocate_grows by fastforce
  from allocate_fails [OF _ Fail.hyps(2) this] Fail show ?case by auto
next
  case (Free s held failed b s')
  then show ?case using free_block_valid [of s b] by (auto simp: alloc_ok_valid)
qed

lemma page_blocks_card: "pages_ok s \<Longrightarrow> card (page_blocks s a) = m_blocks_per_page s"
  by (auto simp: page_blocks_def pages_ok_def card_image inj_on_def)

lemma unused_page:
  assumes ok: "pages_ok s" and none: "used s = {}" and p: "p \<in> all_pages s"
  shows "p \<in> set (m_pages s) \<and> length (p_available p) = m_blocks_per_page s"
proof -
  have sub: "page_blocks s (m_memory p) \<subseteq> free_set s"
    using none p by (auto simp: used_def all_blocks_def addrs_def)
  have only: "x \<in> set (p_available q) \<Longrightarrow> q \<in> set (m_pages s) \<Longrightarrow> x \<in> page_blocks s (m_memory p) \<Longrightarrow> q = p" for x q
    using other_page_blocks [OF ok p, of q] pages_inj [OF ok] p by (auto simp: inj_on_def all_pages_def)
  have "m_memory p \<in> page_blocks s (m_memory p)" using ok by (force simp: page_blocks_def pages_ok_def)
  with sub only have inp: "p \<in> set (m_pages s)" by (auto simp: free_set_def)
  have "page_blocks s (m_memory p) \<subseteq> set (p_available p)"
    using sub only by (auto simp: free_set_def)
  moreover have pok: "page_ok s p" using ok inp by (simp add: pages_ok_def)
  ultimately have "set (p_available p) = page_blocks s (m_memory p)" by (auto simp: page_ok_def)
  then have "length (p_available p) = m_blocks_per_page s"
    using pok page_blocks_card [OF ok] by (metis distinct_card page_ok_def)
  with inp show ?thesis by simp
qed

lemma unused_destructor:
  assumes ok: "alloc_ok s" and none: "used s = {}"
  shows "destructor_ok s"
proof -
  have s: "pages_ok s" "single_empty s" "all_pages s \<noteq> {}" using ok by (simp_all add: alloc_ok_def)
  note up = unused_page [OF s(1) none]
  have all: "m_empty_page s = Some (m_memory p) \<and> length (p_available p) = m_blocks_per_page s"
    if "p \<in> set (m_pages s)" for p
    using s(2) up [of p] that by (auto simp: single_empty_def all_pages_def)
  have ne: "m_pages s \<noteq> []" using s(3) up by fastforce
  then obtain p rest where ps: "m_pages s = p # rest" by (cases "m_pages s") auto
  have "rest = []"
  proof (rule ccontr)
    assume "rest \<noteq> []"
    then obtain q where "q \<in> set rest" by (cases rest) auto
    with all [of p] all [of q] have "m_memory q = m_memory p" by (simp add: ps)
    moreover have "m_memory p \<notin> m_memory ` set rest" using s(1) by (simp add: pages_ok_def ps)
    ultimately show False using imageI [OF \<open>q \<in> set rest\<close>, of m_memory] by simp
  qed
  then show ?thesis using all [of p] s(1) by (simp add: destructor_ok_def ps pages_ok_def)
qed

section \<open>Properties\<close>

text \<open>
  C10. At every moment of the life of an allocator whose clients free only what they hold, also after allocations that failed, the blocks
  that are not available are exactly those the clients hold; every block held lies aligned in one of the pages; freeing it and further
  allocations pass all the assertions. When nothing is held and no allocation has failed, the assertions of the destructor hold: one page
  is left, it is the empty page kept at hand, and all its blocks are available.
\<close>

theorem allocator_invariant:
  assumes "alloc_run s held failed"
  shows "used s = held \<and> held \<subseteq> all_blocks s \<and> held \<inter> free_set s = {} \<and>
    (\<forall>b \<in> held. \<exists>s'. free_block b s = Some s' \<and> used s' = held - {b}) \<and>
    (\<forall>fresh memory. fresh_ok fresh s \<longrightarrow> (\<exists>r s'. allocate fresh memory s = Some (r, s'))) \<and>
    (held = {} \<and> \<not> failed \<longrightarrow> destructor_ok s)"
proof -
  have ok: "alloc_valid s" "used s = held" "\<not> failed \<longrightarrow> alloc_ok s" using alloc_run_ok [OF assms] by simp_all
  have "\<exists>r s'. allocate fresh memory s = Some (r, s')" if "fresh_ok fresh s" for fresh memory
    using allocate_valid [OF ok(1) that, of memory] allocate_fails [OF ok(1) that, of memory]
    by (cases "grow (block_count memory s) fresh s"; cases "fst (grow (block_count memory s) fresh s)") auto
  moreover have "\<exists>s'. free_block b s = Some s' \<and> used s' = held - {b}" if "b \<in> held" for b
    using free_block_valid [OF ok(1), of b] ok(2) that by blast
  moreover have "destructor_ok s" if "held = {}" "\<not> failed" using unused_destructor [of s] ok that by simp
  ultimately show ?thesis using ok(2) by (auto simp: used_def)
qed

text \<open>An allocation fails after a page was added, three blocks are allocated in the two pages, and one of them is freed.\<close>

theorem allocator_invariant_witness:
  "\<exists>s0 s1 s2 s3 blocks. Allocator_new 0 64 32 = Inr s0 \<and> allocate [64] 256 s0 = Some (None, s1) \<and>
     allocate [] 96 s1 = Some (Some blocks, s2) \<and> length blocks = 3 \<and> free_block (hd blocks) s2 = Some s3 \<and> used s3 = set (tl blocks)"
proof -
  have "\<exists>s0 s1. Allocator_new 0 64 32 = Inr s0 \<and> fresh_ok [64] s0 \<and> allocate [64] 256 s0 = Some (None, s1) \<and>
      grow (block_count 96 s1) [] s1 = (True, s1) \<and> block_count 96 s1 = 3"
    by (simp add: Allocator_new_def add_page_def insert_page_def Page_new_def apart_def block_count_def allocate_def Let_def)
  then obtain s0 s1 where s: "Allocator_new 0 64 32 = Inr s0" "fresh_ok [64] s0" "allocate [64] 256 s0 = Some (None, s1)"
      "grow (block_count 96 s1) [] s1 = (True, s1)" "block_count 96 s1 = 3" by blast
  have run1: "alloc_run s1 {} True" by (rule alloc_run.Fail [OF alloc_run.Start [OF s(1)] s(2,3)])
  have "fresh_ok [] s1" by simp
  then obtain blocks s2 where s2: "allocate [] 96 s1 = Some (Some blocks, s2)" "length blocks = 3" "distinct blocks" "alloc_valid s2"
      "used s2 = used s1 \<union> set blocks"
    using allocate_valid [of s1 "[]" 96 s1] s(4,5) alloc_run_ok [OF run1] by auto
  then have run2: "alloc_run s2 (set blocks) True" "hd blocks \<in> set blocks"
    using alloc_run.Allocate [OF run1 \<open>fresh_ok [] s1\<close> s2(1)] by (cases blocks; simp)+
  then obtain s3 where s3: "free_block (hd blocks) s2 = Some s3" using allocator_invariant [OF run2(1)] by blast
  have "alloc_run s3 (set blocks - {hd blocks}) True" by (rule alloc_run.Free [OF run2 s3])
  moreover have "set blocks - {hd blocks} = set (tl blocks)" using s2(2,3) by (cases blocks) auto
  ultimately show ?thesis using allocator_invariant [of s3 "set (tl blocks)" True] s s2 s3 by metis
qed

text \<open>
  C29. \<open>allocate\<close> never fails an assertion. When there is memory for its pages it returns as many blocks as
  hold the memory asked for, rounded up, as long as the size does not overflow; the blocks are distinct and none of
  them was in use, and exactly they are in use in addition afterwards.
\<close>

theorem allocator_allocate:
  assumes "alloc_ok s" and "fresh_ok fresh s" and "memory + m_block_size s \<le> 2 ^ 64"
  shows "\<exists>r s'. allocate fresh memory s = Some (r, s') \<and>
    (r = None \<longleftrightarrow> \<not> fst (grow (block_count memory s) fresh s)) \<and>
    (\<forall>new. r = Some new \<longrightarrow> alloc_ok s' \<and> distinct new \<and> set new \<inter> used s = {} \<and> used s' = used s \<union> set new \<and>
       length new = (memory + m_block_size s - 1) div m_block_size s)"
proof -
  obtain ok s1 where g: "grow (block_count memory s) fresh s = (ok, s1)" by fastforce
  show ?thesis
  proof (cases ok)
    case True
    with g have g': "grow (block_count memory s) fresh s = (True, s1)" by simp
    have "0 < m_block_size s" using assms(1) by (simp add: alloc_ok_def pages_ok_def)
    from block_count_ceil [OF this assms(3)] allocate_ok [OF assms(1,2) g'] g' show ?thesis by auto
  next
    case False
    with g show ?thesis by (simp add: allocate_def)
  qed
qed

theorem allocator_allocate_witness:
  "\<exists>s new s'. Allocator_new 0 100 32 = Inr s \<and> allocate [96] 130 s = Some (Some new, s') \<and>
     distinct new \<and> length new = 5"
proof -
  have "\<exists>s. Allocator_new 0 100 32 = Inr s \<and> fresh_ok [96] s \<and> m_block_size s = 32 \<and>
      fst (grow (block_count 130 s) [96] s)"
    by (simp add: Allocator_new_def add_page_def insert_page_def Page_new_def apart_def block_count_def)
  then obtain s where s: "Allocator_new 0 100 32 = Inr s" "fresh_ok [96] s" "m_block_size s = 32"
      "fst (grow (block_count 130 s) [96] s)" by blast
  with Allocator_new_ok [OF s(1)] allocator_allocate [of s "[96]" 130] show ?thesis by auto
qed

end
