(* ===== verification/Natural_Order.thy ===== *)
theory Natural_Order
  imports Shell_Prelude "HOL-Library.Product_Lexorder" "HOL-Library.List_Lexorder"
begin

text \<open>
  \<open>natural_compare\<close> of \<^verbatim>\<open>mysqlshdk/libs/utils/natural_compare.h\<close>, which sorts file names. An iterator is the
  rest of its sequence, and a function that advances its iterators returns them.
\<close>

section \<open>Definitions\<close>

fun compare_numbers :: "int \<Rightarrow> string \<Rightarrow> string \<Rightarrow> int \<times> string \<times> string" where
  "compare_numbers bias (x # xs) (y # ys) =
     (if \<not> isdigit x \<and> \<not> isdigit y then (bias, x # xs, y # ys)
      else if \<not> isdigit x then (- 1, x # xs, y # ys)
      else if \<not> isdigit y then (1, x # xs, y # ys)
      else if schar x < schar y then compare_numbers (if bias = 0 then - 1 else bias) xs ys
      else if schar y < schar x then compare_numbers (if bias = 0 then 1 else bias) xs ys
      else compare_numbers bias xs ys)"
| "compare_numbers bias xs ys = (if xs = [] \<and> ys = [] then bias else 0, xs, ys)"

fun compare_fractional :: "string \<Rightarrow> string \<Rightarrow> int \<times> string \<times> string" where
  "compare_fractional (x # xs) (y # ys) =
     (if \<not> isdigit x \<and> \<not> isdigit y then (0, x # xs, y # ys)
      else if \<not> isdigit x then (- 1, x # xs, y # ys)
      else if \<not> isdigit y then (1, x # xs, y # ys)
      else if schar x < schar y then (- 1, x # xs, y # ys)
      else if schar y < schar x then (1, x # xs, y # ys)
      else compare_fractional xs ys)"
| "compare_fractional xs ys = (0, xs, ys)"

lemma compare_numbers_length:
  "compare_numbers bias xs ys = (r, xs', ys') \<Longrightarrow> length xs' \<le> length xs"
  by (induction bias xs ys rule: compare_numbers.induct) (auto split: if_splits)

lemma compare_fractional_length:
  "compare_fractional xs ys = (r, xs', ys') \<Longrightarrow> length xs' \<le> length xs"
  by (induction xs ys rule: compare_fractional.induct) (auto split: if_splits)

lemma compare_step_length:
  assumes "(r, xs', ys') = (if b then compare_fractional (x # xs) (y # ys) else compare_numbers 0 (x # xs) (y # ys))"
    and "isdigit x" and "isdigit y" and "r \<noteq> - 1" and "r \<noteq> 1"
  shows "length xs' < Suc (length xs)"
  using assms
  by (auto split: if_splits dest!: sym [of "(r, xs', ys')"] compare_numbers_length compare_fractional_length)

function natural_compare :: "string \<Rightarrow> string \<Rightarrow> bool" where
  "natural_compare xs ys =
     (case (xs, ys) of
        (x # xs', y # ys') \<Rightarrow>
          (if isdigit x \<and> isdigit y
           then (case (if x = CHR ''0'' \<or> y = CHR ''0'' then compare_fractional xs ys else compare_numbers 0 xs ys) of
                   (r, xs'', ys'') \<Rightarrow>
                     if r = - 1 then True else if r = 1 then False else natural_compare xs'' ys'')
           else if schar x < schar y then True
           else if schar y < schar x then False
           else natural_compare xs' ys')
      | _ \<Rightarrow> xs = [] \<and> ys \<noteq> [])"
  by pat_completeness auto
termination
proof (relation "measure (\<lambda>(xs, ys). length xs)", goal_cases)
  case 2
  then show ?case
    by (clarsimp simp del: compare_numbers.simps compare_fractional.simps) (erule compare_step_length)
qed auto

declare natural_compare.simps [simp del]

text \<open>
  The key of a text: its characters outside of numbers, and its numbers. A number that starts with 0 goes by its
  digits; any other goes by its length, then by whether it ends the text, then by its digits.
\<close>

type_synonym token = "int \<times> nat \<times> nat \<times> int list"

definition number_token :: "string \<Rightarrow> string \<Rightarrow> token" where
  "number_token run rest =
     (if hd run = CHR ''0'' then (48, 0, 0, map schar run)
      else (49, length run, (if rest = [] then 0 else 1), map schar run))"

function natural_key :: "string \<Rightarrow> token list" where
  "natural_key s =
     (case s of
        [] \<Rightarrow> []
      | c # cs \<Rightarrow>
          if isdigit c
          then number_token (takeWhile isdigit s) (dropWhile isdigit s) # natural_key (dropWhile isdigit cs)
          else (schar c, 0, 0, []) # natural_key cs)"
  by pat_completeness auto
termination
  by (relation "measure length") (auto simp: le_imp_less_Suc length_dropWhile_le)

declare natural_key.simps [simp del]

section \<open>Lemmas\<close>

lemma schar_inj [simp]: "schar x = schar y \<longleftrightarrow> x = y"
proof
  assume "schar x = schar y"
  then have "code x = code y"
    using code_less [of x] code_less [of y]
    by (cases "code x < 128"; cases "code y < 128") (simp_all add: schar_def del: code_less code_inject)
  then show "x = y"
    by simp
qed simp

lemma map_schar_inj [simp]: "map schar xs = map schar ys \<longleftrightarrow> xs = ys"
  by (simp add: inj_map_eq_map inj_def)

lemma schar_digit: "isdigit c \<Longrightarrow> 48 \<le> schar c \<and> schar c \<le> 57"
  by (simp add: isdigit_def schar_def)

lemma schar_nondigit: "\<not> isdigit c \<Longrightarrow> schar c < 48 \<or> 57 < schar c"
  using code_less [of c] by (cases "code c < 128") (auto simp: isdigit_def schar_def simp del: code_less)

abbreviation run :: "string \<Rightarrow> string" where
  "run s \<equiv> takeWhile isdigit s"

abbreviation tail :: "string \<Rightarrow> string" where
  "tail s \<equiv> dropWhile isdigit s"

lemma run_tail_Nil: "run s = [] \<Longrightarrow> tail s = s"
  by (cases s) (auto split: if_splits)

lemma compare_numbers_same:
  assumes "length (run xs) = length (run ys)" and "tail xs = [] \<longleftrightarrow> tail ys = []"
  shows "compare_numbers b xs ys =
    (if b \<noteq> 0 then b else if map schar (run xs) < map schar (run ys) then - 1
     else if map schar (run ys) < map schar (run xs) then 1 else 0, tail xs, tail ys)"
  using assms by (induction b xs ys rule: compare_numbers.induct) (auto simp: run_tail_Nil simp del: dropWhile_eq_Nil_conv)

lemma compare_numbers_ended:
  assumes "length (run xs) = length (run ys)" and "(tail xs = []) \<noteq> (tail ys = [])"
  shows "compare_numbers b xs ys = (0, tail xs, tail ys)"
  using assms
  by (induction b xs ys rule: compare_numbers.induct)
    (auto simp: run_tail_Nil simp del: dropWhile_eq_Nil_conv split: if_splits)

lemma compare_numbers_shorter:
  assumes "length (run xs) < length (run ys)"
  shows "\<exists>r xs' ys'. compare_numbers b xs ys = (r, xs', ys') \<and> (r = - 1 \<or> r = 0 \<and> xs' = [] \<and> ys' \<noteq> [])"
  using assms by (induction b xs ys rule: compare_numbers.induct) (auto split: if_splits)

lemma compare_numbers_longer:
  assumes "length (run ys) < length (run xs)"
  shows "\<exists>r xs' ys'. compare_numbers b xs ys = (r, xs', ys') \<and> (r = 1 \<or> r = 0 \<and> xs' \<noteq> [] \<and> ys' = [])"
  using assms by (induction b xs ys rule: compare_numbers.induct) (auto split: if_splits)

lemma compare_fractional_same:
  "run xs = run ys \<Longrightarrow> compare_fractional xs ys = (0, tail xs, tail ys)"
  by (induction xs ys rule: compare_fractional.induct)
    (auto simp: run_tail_Nil dest: sym [of "[]"] split: if_splits)

lemma compare_fractional_less:
  assumes "map schar (run xs) < map schar (run ys)"
  shows "\<exists>r xs' ys'. compare_fractional xs ys = (r, xs', ys') \<and> (r = - 1 \<or> r = 0 \<and> xs' = [] \<and> ys' \<noteq> [])"
  using assms by (induction xs ys rule: compare_fractional.induct) (auto split: if_splits)

lemma compare_fractional_greater:
  assumes "map schar (run ys) < map schar (run xs)"
  shows "\<exists>r xs' ys'. compare_fractional xs ys = (r, xs', ys') \<and> (r = 1 \<or> r = 0 \<and> xs' \<noteq> [] \<and> ys' = [])"
  using assms by (induction xs ys rule: compare_fractional.induct) (auto split: if_splits)

lemma natural_compare_Nil [simp]:
  "natural_compare [] ys \<longleftrightarrow> ys \<noteq> []"
  "\<not> natural_compare xs []"
  by (simp_all add: natural_compare.simps split: list.split)

definition decide :: "int \<times> string \<times> string \<Rightarrow> bool" where
  "decide p = (case p of (r, xs, ys) \<Rightarrow> if r = - 1 then True else if r = 1 then False else natural_compare xs ys)"

abbreviation front :: "string \<Rightarrow> token" where
  "front s \<equiv> number_token (run s) (tail s)"

lemma decide_numbers:
  assumes "hd (run xs) \<noteq> CHR ''0''" and "hd (run ys) \<noteq> CHR ''0''"
  shows "decide (compare_numbers 0 xs ys) \<longleftrightarrow>
    front xs < front ys \<or> front xs = front ys \<and> natural_compare (tail xs) (tail ys)"
proof (cases "length (run xs)" "length (run ys)" rule: linorder_cases)
  case less
  then show ?thesis
    using compare_numbers_shorter [OF less, of 0] assms by (auto simp: decide_def number_token_def)
next
  case equal
  show ?thesis
  proof (cases "tail xs = [] \<longleftrightarrow> tail ys = []")
    case True
    show ?thesis
      using equal True assms
      by (auto simp: decide_def number_token_def compare_numbers_same [OF equal True] simp del: dropWhile_eq_Nil_conv)
  next
    case False
    then show ?thesis
      using equal assms
      by (auto simp: decide_def number_token_def compare_numbers_ended [OF equal False] simp del: dropWhile_eq_Nil_conv)
  qed
next
  case greater
  then show ?thesis
    using compare_numbers_longer [OF greater, of 0] assms by (auto simp: decide_def number_token_def)
qed

lemma decide_fractional:
  assumes "hd (run xs) = CHR ''0''" and "hd (run ys) = CHR ''0''"
  shows "decide (compare_fractional xs ys) \<longleftrightarrow>
    front xs < front ys \<or> front xs = front ys \<and> natural_compare (tail xs) (tail ys)"
proof (cases "map schar (run xs)" "map schar (run ys)" rule: linorder_cases)
  case less
  then show ?thesis
    using compare_fractional_less [OF less] assms by (auto simp: decide_def number_token_def)
next
  case equal
  then have "run xs = run ys"
    by simp
  then show ?thesis
    using compare_fractional_same [of xs ys] assms by (auto simp: decide_def number_token_def)
next
  case greater
  then show ?thesis
    using compare_fractional_greater [OF greater] assms by (auto simp: decide_def number_token_def)
qed

lemma decide_mixed:
  assumes "isdigit x" and "isdigit y" and "(x = CHR ''0'') \<noteq> (y = CHR ''0'')"
  shows "decide (compare_fractional (x # xs) (y # ys)) \<longleftrightarrow>
    front (x # xs) < front (y # ys)
    \<or> front (x # xs) = front (y # ys) \<and> natural_compare (tail (x # xs)) (tail (y # ys))"
proof -
  have zero: "schar CHR ''0'' < schar c" if "isdigit c" "c \<noteq> CHR ''0''" for c
    using schar_digit [OF that(1)] that(2) schar_inj [of c "CHR ''0''"] by (simp add: schar_def split: if_splits)
  show ?thesis
    using assms zero [of x] zero [of y]
    by (cases "x = CHR ''0''") (auto simp: decide_def number_token_def dest: less_asym)
qed

lemma natural_compare_numbers:
  assumes "isdigit x" and "isdigit y"
  shows "natural_compare (x # xs) (y # ys) \<longleftrightarrow>
    front (x # xs) < front (y # ys)
    \<or> front (x # xs) = front (y # ys) \<and> natural_compare (tail (x # xs)) (tail (y # ys))"
proof -
  have "natural_compare (x # xs) (y # ys) =
      decide (if x = CHR ''0'' \<or> y = CHR ''0'' then compare_fractional (x # xs) (y # ys)
              else compare_numbers 0 (x # xs) (y # ys))"
    using assms
    by (simp add: natural_compare.simps [of "x # xs" "y # ys"] decide_def
        del: compare_numbers.simps compare_fractional.simps)
  also have "\<dots> \<longleftrightarrow> front (x # xs) < front (y # ys)
    \<or> front (x # xs) = front (y # ys) \<and> natural_compare (tail (x # xs)) (tail (y # ys))"
    using assms decide_mixed [OF assms, of xs ys] decide_fractional [of "x # xs" "y # ys"]
      decide_numbers [of "x # xs" "y # ys"]
    by (cases "x = CHR ''0''"; cases "y = CHR ''0''") simp_all
  finally show ?thesis .
qed

lemma number_char:
  assumes "isdigit x" and "\<not> isdigit y"
  shows "front (x # xs) < (schar y, 0, 0, []) \<longleftrightarrow> schar x < schar y"
    and "(schar y, 0, 0, []) < front (x # xs) \<longleftrightarrow> schar y < schar x"
    and "front (x # xs) \<noteq> (schar y, 0, 0, [])"
  using schar_digit [OF assms(1)] schar_nondigit [OF assms(2)] assms by (auto simp: number_token_def)

lemma natural_key_Nil [simp]: "natural_key [] = []" "natural_key s = [] \<longleftrightarrow> s = []"
  by (simp_all add: natural_key.simps split: list.split)

lemma natural_key_number: "isdigit x \<Longrightarrow> natural_key (x # xs) = front (x # xs) # natural_key (tail (x # xs))"
  by (simp add: natural_key.simps [of "x # xs"])

lemma natural_key_char: "\<not> isdigit x \<Longrightarrow> natural_key (x # xs) = (schar x, 0, 0, []) # natural_key xs"
  by (simp add: natural_key.simps [of "x # xs"])

lemma tail_less: "isdigit x \<Longrightarrow> length (tail (x # xs)) < length (x # xs)"
  by (simp add: le_imp_less_Suc length_dropWhile_le)

lemma natural_compare_key: "natural_compare xs ys \<longleftrightarrow> natural_key xs < natural_key ys"
proof (induction xs arbitrary: ys rule: length_induct)
  case (1 xs)
  show ?case
  proof (cases "xs = [] \<or> ys = []")
    case True
    then show ?thesis
      by (cases "natural_key ys"; cases "natural_key xs") auto
  next
    case False
    then obtain x xs' y ys' where xy: "xs = x # xs'" "ys = y # ys'"
      by (cases xs; cases ys) auto
    have IH: "natural_compare zs ws \<longleftrightarrow> natural_key zs < natural_key ws" if "length zs < length xs" for zs ws
      using 1 that by blast
    show ?thesis
    proof (cases "isdigit x \<and> isdigit y")
      case True
      then show ?thesis
        using IH [of "tail xs" "tail ys"] tail_less [of x xs'] unfolding xy
        by (simp add: natural_compare_numbers natural_key_number del: dropWhile.simps takeWhile.simps)
    next
      case False
      then have "natural_compare xs ys \<longleftrightarrow>
          schar x < schar y \<or> schar x = schar y \<and> natural_key xs' < natural_key ys'"
        using IH [of xs' ys'] unfolding xy by (auto simp: natural_compare.simps [of "x # xs'" "y # ys'"])
      then show ?thesis
        using False unfolding xy
        by (cases "isdigit x"; cases "isdigit y")
          (auto simp: natural_key_number natural_key_char number_char number_char(3) [THEN not_sym] simp del: dropWhile.simps takeWhile.simps)
    qed
  qed
qed

lemma front_inj:
  assumes "isdigit x" and "isdigit y" and "front (x # xs) = front (y # ys)"
  shows "run (x # xs) = run (y # ys)"
  using assms(3) unfolding number_token_def by (auto simp del: takeWhile.simps split: if_splits)

lemma natural_key_inj: "natural_key xs = natural_key ys \<Longrightarrow> xs = ys"
proof (induction xs arbitrary: ys rule: length_induct)
  case (1 xs)
  show ?case
  proof (cases "xs = [] \<or> ys = []")
    case True
    with 1(2) show ?thesis
      by (metis natural_key_Nil(2))
  next
    case False
    then obtain x xs' y ys' where xy: "xs = x # xs'" "ys = y # ys'"
      by (cases xs; cases ys) auto
    have IH: "zs = ws" if "natural_key zs = natural_key ws" "length zs < length xs" for zs ws
      using 1(1) that by blast
    show ?thesis
    proof (cases "isdigit x \<and> isdigit y")
      case True
      then have "front xs = front ys" "natural_key (tail xs) = natural_key (tail ys)"
        using 1(2) by (simp_all add: xy natural_key_number del: dropWhile.simps takeWhile.simps)
      with True have "run xs = run ys" "tail xs = tail ys"
        using front_inj [of x y xs' ys'] IH [of "tail xs" "tail ys"] tail_less [of x xs'] by (simp_all add: xy)
      then show ?thesis
        by (metis takeWhile_dropWhile_id)
    next
      case False
      then show ?thesis
        using 1(2) IH [of xs' ys'] unfolding xy
        by (cases "isdigit x"; cases "isdigit y")
          (auto simp: natural_key_number natural_key_char number_char number_char(3) [THEN not_sym]
            simp del: dropWhile.simps takeWhile.simps)
    qed
  qed
qed

subsection \<open>Numbers inside of a text\<close>

lemma list_less_append:
  fixes xs ys :: "int list"
  shows "length xs = length ys \<Longrightarrow> xs < ys \<Longrightarrow> xs @ us < ys @ vs"
  by (induction xs ys rule: list_induct2) auto

lemma list_less_prefix: "xs @ ys < xs @ zs \<longleftrightarrow> ys < zs" for xs :: "'a :: order list"
  by (induction xs) auto

lemma schar_of_digit: "n < 10 \<Longrightarrow> schar (char_of (48 + n)) = 48 + int n"
  by (simp add: schar_def)

lemma nat_digits_length: "10 \<le> n \<Longrightarrow> length (nat_digits n) = Suc (length (nat_digits (n div 10)))"
  by (subst nat_digits.simps) simp

lemma nat_digits_small: "n < 10 \<Longrightarrow> nat_digits n = [char_of (48 + n)]"
  by (subst nat_digits.simps) simp

lemma nat_digits_big: "10 \<le> n \<Longrightarrow> nat_digits n = nat_digits (n div 10) @ [char_of (48 + n mod 10)]"
  by (subst nat_digits.simps) simp

lemma nat_digits_less:
  assumes "n < m"
  shows "length (nat_digits n) < length (nat_digits m)
    \<or> length (nat_digits n) = length (nat_digits m)
      \<and> map schar (nat_digits n) < map schar (nat_digits m)"
  using assms
proof (induction n arbitrary: m rule: nat_digits.induct)
  case (1 n)
  consider "m < 10" | "n < 10" "10 \<le> m" | "10 \<le> n" "n div 10 < m div 10" | "10 \<le> n" "n div 10 = m div 10"
    using 1(2) by (metis div_le_mono leI le_eq_less_or_eq)
  then show ?case
  proof cases
    case 1
    with \<open>n < m\<close> show ?thesis
      by (simp add: nat_digits_small schar_of_digit)
  next
    case 2
    then show ?thesis
      using nat_digits_nonempty [of "m div 10"] by (simp add: nat_digits_small nat_digits_length)
  next
    case 3
    then have "\<not> n < 10" "10 \<le> m"
      using \<open>n < m\<close> by simp_all
    then show ?thesis
      using 1(1) [OF _ 3(2)] 3(1) by (auto simp: nat_digits_big list_less_append)
  next
    case 4
    then have "n mod 10 < m mod 10" "10 \<le> m"
      using \<open>n < m\<close> by (metis div_mult_mod_eq nat_add_left_cancel_less, simp)
    then show ?thesis
      using 4 by (simp add: nat_digits_big list_less_prefix schar_of_digit)
  qed
qed

lemma nat_digits_hd: "hd (nat_digits n) = CHR ''0'' \<longleftrightarrow> n = 0"
proof (induction n rule: nat_digits.induct)
  case (1 n)
  have "schar (char_of (48 + n)) = schar CHR ''0'' \<longleftrightarrow> n = 0" if "n < 10"
    using that by (simp only: schar_of_digit) (simp add: schar_def)
  then show ?case
    using 1 by (cases "n < 10") (simp_all add: nat_digits_small nat_digits_big del: schar_inj flip: schar_inj)
qed

lemma tail_last: "s \<noteq> [] \<Longrightarrow> \<not> isdigit (last s) \<Longrightarrow> tail s \<noteq> [] \<and> last (tail s) = last s"
  by (induction s) (auto split: if_splits)

lemma natural_key_append:
  "p = [] \<or> \<not> isdigit (last p) \<Longrightarrow> natural_key (p @ s) = natural_key p @ natural_key s"
proof (induction p rule: length_induct)
  case (1 p)
  show ?case
  proof (cases p)
    case Nil
    then show ?thesis
      by simp
  next
    case (Cons x p')
    with 1(2) have last: "\<not> isdigit (last p)"
      by auto
    have IH: "natural_key (t @ s) = natural_key t @ natural_key s"
      if "length t < length p" "t = [] \<or> \<not> isdigit (last t)" for t
      using 1(1) that by blast
    show ?thesis
    proof (cases "isdigit x")
      case True
      have "tail p \<noteq> []" "last (tail p) = last p"
        using tail_last [of p] last Cons by auto
      moreover have "run (p @ s) = run p" "tail (p @ s) = tail p @ s"
        using last Cons last_in_set [of p] by (metis list.distinct(1) takeWhile_append1, metis list.distinct(1) dropWhile_append1)
      ultimately have "natural_key (p @ s) = number_token (run p) (tail p @ s) # natural_key (tail p) @ natural_key s"
        using natural_key_number [OF True, of "p' @ s"] IH [of "tail p"] tail_less [OF True, of p'] last
        unfolding Cons by (simp del: dropWhile.simps takeWhile.simps dropWhile_eq_Nil_conv)
      with \<open>tail p \<noteq> []\<close> show ?thesis
        unfolding Cons natural_key_number [OF True] number_token_def by (simp del: dropWhile.simps takeWhile.simps dropWhile_eq_Nil_conv)
    next
      case False
      then show ?thesis
        using IH [of p'] last Cons by (auto simp: natural_key_char split: if_splits)
    qed
  qed
qed

lemma natural_key_run:
  assumes "d \<noteq> []" and "list_all isdigit d" and "q = [] \<or> \<not> isdigit (hd q)"
  shows "natural_key (d @ q) = number_token d q # natural_key q"
proof -
  obtain c cs where c: "d = c # cs" "isdigit c"
    using assms(1,2) by (cases d) auto
  have d: "\<And>x. x \<in> set d \<Longrightarrow> isdigit x"
    using assms(2) by (simp add: list_all_iff)
  have "run q = []" "tail q = q"
    using assms(3) by (cases q; auto)+
  then have "run (d @ q) = d" "tail (d @ q) = q"
    using d by (simp_all add: takeWhile_append2 dropWhile_append2)
  then show ?thesis
    using natural_key_number [OF c(2), of "cs @ q"] unfolding c by (simp del: dropWhile.simps takeWhile.simps)
qed

lemma number_token_less:
  assumes "n < m" and "q = [] \<longleftrightarrow> r = []"
  shows "number_token (nat_digits n) q < number_token (nat_digits m) r"
  using nat_digits_less [OF assms(1)] assms by (auto simp: number_token_def nat_digits_hd)

text \<open>Two texts that agree up to a number are compared by the numbers first.\<close>

lemma natural_compare_runs:
  assumes "p = [] \<or> \<not> isdigit (last p)" and "d \<noteq> []" "list_all isdigit d" "q = [] \<or> \<not> isdigit (hd q)"
    and "e \<noteq> []" "list_all isdigit e" "r = [] \<or> \<not> isdigit (hd r)" and "number_token d q < number_token e r"
  shows "natural_compare (p @ d @ q) (p @ e @ r)"
  using assms(8) natural_key_run [OF assms(2-4)] natural_key_run [OF assms(5-7)]
  by (simp add: natural_compare_key natural_key_append [OF assms(1)] list_less_prefix)

section \<open>Properties\<close>

text \<open>
  C32. \<open>natural_compare\<close> is a strict total order on texts: no text is below itself, the relation is transitive, and of
  two different texts one is below the other. So it can be given to a sort. It is the order of the keys, and hence the
  order of the code.
\<close>

theorem natural_compare_order:
  shows "(\<not> natural_compare a a)
    \<and> (natural_compare a b \<and> natural_compare b c \<longrightarrow> natural_compare a c)
    \<and> (a \<noteq> b \<longrightarrow> natural_compare a b \<noteq> natural_compare b a)"
  using natural_key_inj [of a b]
  by (cases "natural_key a" "natural_key b" rule: linorder_cases) (auto simp: natural_compare_key)

text \<open>Witness: \<open>a2\<close>, \<open>a10\<close> and \<open>b\<close>.\<close>

theorem natural_compare_order_witness:
  "natural_compare ''a2'' ''a10'' \<and> natural_compare ''a10'' ''b'' \<and> natural_compare ''a2'' ''b''
   \<and> \<not> natural_compare ''b'' ''a2''"
proof -
  have "natural_compare ''a2'' ''a10''" "natural_compare ''a10'' ''b''"
    by code_simp+
  then show ?thesis
    using natural_compare_order [of "''a2''" "''a10''" "''b''"] natural_compare_order [of "''a2''" "''b''" "''b''"]
    by auto
qed

text \<open>
  C33. Two runs of digits \<open>d\<close> and \<open>e\<close> at the same place of two texts. Without leading zeros they are ordered by their values, whatever their
  lengths are, when both of them end their text or both of them are followed by other characters. When only one of two with the same number
  of digits ends its text, it is the smaller one whatever the values are, so that \<open>file21\<close> is below \<open>file12.txt\<close>. A number with a leading
  zero is below every number without one, so that \<open>file08\<close> is below \<open>file1\<close>.
\<close>

theorem natural_compare_numeric:
  assumes "p = [] \<or> \<not> isdigit (last p)" and "q = [] \<or> \<not> isdigit (hd q)" and "r = [] \<or> \<not> isdigit (hd r)"
    and "d \<noteq> []" and "e \<noteq> []" and "list_all isdigit d" and "list_all isdigit e"
  shows "(d = nat_digits n \<and> e = nat_digits m \<and> n < m \<and> (q = [] \<longleftrightarrow> r = []) \<longrightarrow> natural_compare (p @ d @ q) (p @ e @ r)) \<and>
    (hd d \<noteq> CHR ''0'' \<and> hd e \<noteq> CHR ''0'' \<and> length d = length e \<and> r \<noteq> [] \<longrightarrow> natural_compare (p @ d) (p @ e @ r)) \<and>
    (hd d = CHR ''0'' \<and> hd e \<noteq> CHR ''0'' \<longrightarrow> natural_compare (p @ d @ q) (p @ e @ r))"
proof (intro conjI impI)
  assume "d = nat_digits n \<and> e = nat_digits m \<and> n < m \<and> (q = [] \<longleftrightarrow> r = [])"
  then show "natural_compare (p @ d @ q) (p @ e @ r)"
    using natural_compare_runs [OF assms(1) assms(4,6,2) assms(5,7,3)] number_token_less by blast
next
  assume "hd d \<noteq> CHR ''0'' \<and> hd e \<noteq> CHR ''0'' \<and> length d = length e \<and> r \<noteq> []"
  then have "number_token d [] < number_token e r"
    by (simp add: number_token_def)
  then show "natural_compare (p @ d) (p @ e @ r)"
    using natural_compare_runs [OF assms(1) assms(4,6) _ assms(5,7,3), of "[]"] by simp
next
  assume "hd d = CHR ''0'' \<and> hd e \<noteq> CHR ''0''"
  then have "number_token d q < number_token e r"
    by (simp add: number_token_def)
  then show "natural_compare (p @ d @ q) (p @ e @ r)"
    using natural_compare_runs [OF assms(1) assms(4,6,2) assms(5,7,3)] by blast
qed

text \<open>Witness: \<open>dump@9.tsv\<close> and \<open>dump@10.tsv\<close>, \<open>file21\<close> and \<open>file12.txt\<close>, \<open>file08\<close> and \<open>file1\<close>.\<close>

theorem natural_compare_numeric_witness:
  "natural_compare (''dump@'' @ nat_digits 9 @ ''.tsv'') (''dump@'' @ nat_digits 10 @ ''.tsv'') \<and>
   natural_compare (''file'' @ ''21'') (''file'' @ ''12'' @ ''.txt'') \<and> natural_compare (''file'' @ ''08'' @ []) (''file'' @ ''1'' @ [])"
proof -
  have "natural_compare (''dump@'' @ nat_digits 9 @ ''.tsv'') (''dump@'' @ nat_digits 10 @ ''.tsv'')"
    using natural_compare_numeric [of "''dump@''" "''.tsv''" "''.tsv''" "nat_digits 9" "nat_digits 10" 9 10]
      nat_digits_nonempty nat_digits_isdigit by (simp add: isdigit_def)
  moreover have "natural_compare (''file'' @ ''21'') (''file'' @ ''12'' @ ''.txt'')"
    using natural_compare_numeric [of "''file''" "[]" "''.txt''" "''21''" "''12''"] by (simp add: isdigit_def)
  moreover have "natural_compare (''file'' @ ''08'' @ []) (''file'' @ ''1'' @ [])"
    using natural_compare_numeric [of "''file''" "[]" "[]" "''08''" "''1''"] by (simp add: isdigit_def)
  ultimately show ?thesis by blast
qed

end
