(* ===== verification/Sql_Splitter.thy ===== *)
theory Sql_Splitter
  imports Lexing
begin

text \<open>
  \<open>Sql_splitter\<close> and the functions on top of it (\<^verbatim>\<open>mysqlshdk/libs/utils/utils_mysql_parsing.{h,cc}\<close>), which
  cut an SQL script, read chunk by chunk, into statements.

  The buffer of the caller is part of the state, and a pointer into it is an offset from \<open>m_begin\<close>; the byte
  after the buffer is NUL, as for every \<^verbatim>\<open>std::string\<close>. The two callbacks are parameters that thread a state of
  their client and may throw; the view given to the command callback comes with its offset. Moving or reading
  memory outside of the buffer is the fault \<open>Out_of_bounds\<close>. The asserts of the sources are not modelled. The two loops
  of \<open>next_range\<close> and the loop over the stream end only for well-behaved callbacks and chunk sizes, so they are
  partial functions, and \<^const>\<open>None\<close> stands for a call that never returns.
\<close>

section \<open>Definitions\<close>

subsection \<open>Memory\<close>

datatype fault = Thrown exn | Out_of_bounds

definition at :: "string \<Rightarrow> nat \<Rightarrow> char" where
  "at buf i = (if i < length buf then buf ! i else nul)"

definition slice :: "string \<Rightarrow> nat \<Rightarrow> nat \<Rightarrow> string" where
  "slice buf a b = take (b - a) (drop a buf)"

definition mem_move :: "string \<Rightarrow> nat \<Rightarrow> nat \<Rightarrow> nat \<Rightarrow> string" where
  "mem_move buf dst src n =
     take dst buf @ take (length buf - dst) (map (at buf) [src..<src + n]) @ drop (dst + n) buf"

definition memchr :: "string \<Rightarrow> char \<Rightarrow> nat \<Rightarrow> nat \<Rightarrow> nat option" where
  "memchr buf c p e = find (\<lambda>i. at buf i = c) [p..<e]"

text \<open>The difference of two pointers as a \<^verbatim>\<open>size_t\<close>.\<close>

definition size_sub :: "nat \<Rightarrow> nat \<Rightarrow> nat" where
  "size_sub a b = (if b \<le> a then a - b else a + 2 ^ 64 - b)"

subsection \<open>Scanners\<close>

function span_string :: "(nat \<Rightarrow> nat) \<Rightarrow> char \<Rightarrow> string \<Rightarrow> nat \<Rightarrow> nat \<Rightarrow> nat option" where
  "span_string target_table quote buf p e =
     (if p < e
      then (let last_ch = at buf p
            in if 0 < target_table (code last_ch)
               then span_string target_table quote buf (p + target_table (code last_ch)) e
               else if last_ch = nul then span_string target_table quote buf (p + 1) e
               else if at buf (p + 1) = quote then span_string target_table quote buf (p + 2) e
               else Some (p + 1))
      else None)"
  by pat_completeness auto
termination
  by (relation "measure (\<lambda>(_, _, _, p, e). e - p)") auto

declare span_string.simps [simp del]

function span_quoted_identifier :: "char \<Rightarrow> string \<Rightarrow> nat \<Rightarrow> nat \<Rightarrow> fault + nat option" where
  "span_quoted_identifier quote buf p e =
     (if e < p then Inl Out_of_bounds
      else case memchr buf quote p e of
             Some q \<Rightarrow> if at buf (q + 1) = quote then span_quoted_identifier quote buf (q + 2) e else Inr (Some (q + 1))
           | None \<Rightarrow> Inr None)"
  by pat_completeness auto
termination
  by (relation "measure (\<lambda>(_, _, p, e). e - p)") (auto simp: memchr_def find_Some_iff)

declare span_quoted_identifier.simps [simp del]

definition span_dollar_quote :: "string \<Rightarrow> nat \<Rightarrow> nat \<Rightarrow> nat option" where
  "span_dollar_quote buf p e = find (\<lambda>i. \<not> k_dollar_quoted_string_span_chars (code (at buf i))) [p..<e]"

definition span_dollar_quoted_string :: "string \<Rightarrow> nat \<Rightarrow> nat \<Rightarrow> string \<Rightarrow> nat option" where
  "span_dollar_quoted_string buf p e tag =
     (case find_sub (slice buf p e) tag 0 of Some q \<Rightarrow> Some (p + q + length tag) | None \<Rightarrow> None)"

function span_comment :: "string \<Rightarrow> nat \<Rightarrow> nat \<Rightarrow> nat option" where
  "span_comment buf p e =
     (if p + 1 < e
      then (case memchr buf CHR ''*'' p e of
              None \<Rightarrow> None
            | Some q \<Rightarrow>
                if at buf (q + 1) \<noteq> CHR ''/'' then span_comment buf (q + 1) e
                else if q + 1 < e then Some q else None)
      else None)"
  by pat_completeness auto
termination
  by (relation "measure (\<lambda>(_, p, e). e - p)") (auto simp: memchr_def find_Some_iff)

declare span_comment.simps [simp del]

definition is_blank :: "char \<Rightarrow> bool" where
  "is_blank c \<longleftrightarrow> c = CHR '' '' \<or> c = CHR 0x09 \<or> c = CHR 0x0D"

definition is_any_blank :: "char \<Rightarrow> bool" where
  "is_any_blank c \<longleftrightarrow> c = CHR '' '' \<or> c = CHR 0x09 \<or> c = CHR 0x0D \<or> c = newline"

definition skip_blanks :: "string \<Rightarrow> nat \<Rightarrow> nat \<Rightarrow> nat" where
  "skip_blanks buf p e = (case find (\<lambda>i. \<not> is_blank (at buf i)) [p..<e] of Some i \<Rightarrow> i | None \<Rightarrow> max p e)"

definition skip_not_blanks :: "string \<Rightarrow> nat \<Rightarrow> nat \<Rightarrow> nat" where
  "skip_not_blanks buf p e = (case find (\<lambda>i. is_any_blank (at buf i)) [p..<e] of Some i \<Rightarrow> i | None \<Rightarrow> max p e)"

definition k_delimiter :: string where
  "k_delimiter = ''delimiter''"

subsection \<open>State\<close>

datatype Context =
    kNone | kStatement | kIdentifier | kComment | kCommentHint | kCommentConditional | kSQuoteString
  | kDQuoteString | kDollarQuotedString | kBQuoteIdentifier | kDQuoteIdentifier

record Range =
  r_offset :: nat
  r_length :: nat
  r_line_num :: nat

text \<open>
  \<open>sp_buffer\<close> is the memory between \<open>m_begin\<close> and the end of the buffer of the caller, \<open>sp_fed\<close> tells
  whether \<open>m_begin\<close> is set, and the vector \<open>m_context\<close> has its back at the head.
\<close>

record splitter =
  sp_buffer :: string
  sp_fed :: bool
  m_end :: nat
  m_ptr :: nat
  m_delimiter :: string
  m_context :: "Context list"
  m_dollar_quote :: string
  m_commands_table :: "string list list"
  m_shrinked_bytes :: nat
  m_current_line :: nat
  m_total_offset :: nat
  m_ansi_quotes :: bool
  m_dollar_quoted_strings :: bool
  m_no_backslash_escapes :: bool
  m_last_chunk :: bool
  m_eof :: bool

type_synonym 's cmd_callback = "nat \<Rightarrow> string \<Rightarrow> bool \<Rightarrow> nat \<Rightarrow> 's \<Rightarrow> ((nat \<times> bool) \<times> 's) res"
type_synonym 's err_callback = "string \<Rightarrow> 's \<Rightarrow> 's res"

definition context_of :: "splitter \<Rightarrow> Context" where
  "context_of sp = (case m_context sp of [] \<Rightarrow> kNone | c # _ \<Rightarrow> c)"

definition push_context :: "Context \<Rightarrow> splitter \<Rightarrow> splitter" where
  "push_context c sp = sp\<lparr>m_context := c # m_context sp\<rparr>"

definition pop_context :: "splitter \<Rightarrow> splitter" where
  "pop_context sp = (if m_context sp \<noteq> [] then sp\<lparr>m_context := tl (m_context sp)\<rparr> else sp)"

definition chunk_size :: "splitter \<Rightarrow> nat" where
  "chunk_size sp = m_end sp"

definition eof :: "splitter \<Rightarrow> bool" where
  "eof sp \<longleftrightarrow> m_last_chunk sp \<and> (m_ptr sp \<ge> m_end sp \<or> m_eof sp)"

definition reset :: "splitter \<Rightarrow> splitter" where
  "reset sp = sp\<lparr>sp_buffer := [], sp_fed := False, m_end := 0, m_ptr := 0, m_delimiter := '';'', m_context := [],
     m_shrinked_bytes := 0, m_current_line := 1, m_total_offset := 0, m_ansi_quotes := False,
     m_no_backslash_escapes := False, m_last_chunk := False, m_eof := False\<rparr>"

text \<open>The constructor: a table of 25 buckets by first letter, each in reverse order of the arguments.\<close>

definition add_command :: "string \<Rightarrow> string list list \<Rightarrow> string list list" where
  "add_command cmd table =
     (let off = code (tolower (hd cmd)) - code CHR ''a'' in table[off := cmd # table ! off])"

definition Sql_splitter_new :: "string list \<Rightarrow> splitter" where
  "Sql_splitter_new commands =
     reset \<lparr>sp_buffer = [], sp_fed = False, m_end = 0, m_ptr = 0, m_delimiter = '';'', m_context = [],
       m_dollar_quote = [], m_commands_table = fold add_command commands (replicate 25 []), m_shrinked_bytes = 0,
       m_current_line = 1, m_total_offset = 0, m_ansi_quotes = False, m_dollar_quoted_strings = True,
       m_no_backslash_escapes = False, m_last_chunk = False, m_eof = False\<rparr>"

definition pack_buffer :: "Range \<Rightarrow> splitter \<Rightarrow> fault + string" where
  "pack_buffer last_range sp =
     (let n = length (sp_buffer sp) in
      if r_offset last_range > 0
      then (if n < r_offset last_range + m_shrinked_bytes sp then Inl Out_of_bounds
            else (let m = n - r_offset last_range - m_shrinked_bytes sp
                  in Inr (take m (mem_move (sp_buffer sp) 0 (r_offset last_range) m))))
      else if m_shrinked_bytes sp > 0
      then (if n < m_shrinked_bytes sp then Inl Out_of_bounds else Inr (take (n - m_shrinked_bytes sp) (sp_buffer sp)))
      else Inr (sp_buffer sp))"

definition feed_chunk :: "string \<Rightarrow> splitter \<Rightarrow> splitter" where
  "feed_chunk buffer sp =
     (let total = (if sp_fed sp then m_total_offset sp + m_end sp else m_total_offset sp)
      in sp\<lparr>sp_buffer := buffer, sp_fed := True, m_end := length buffer, m_ptr := 0, m_context := [],
            m_shrinked_bytes := 0, m_total_offset := total\<rparr>)"

definition feed :: "string \<Rightarrow> splitter \<Rightarrow> splitter" where
  "feed buffer sp = (feed_chunk buffer sp)\<lparr>m_last_chunk := True\<rparr>"

definition set_delimiter :: "'s err_callback \<Rightarrow> string \<Rightarrow> splitter \<Rightarrow> 's \<Rightarrow> (splitter \<times> 's) res" where
  "set_delimiter err delim sp st =
     (if delim = []
      then bind_res (err ''DELIMITER must be followed by a 'delimiter' character or string'' st) (\<lambda>st'. Inr (sp, st'))
      else if \<not> m_no_backslash_escapes sp \<and> backslash \<in> set delim
      then bind_res (err ''DELIMITER cannot contain a backslash character'' st) (\<lambda>st'. Inr (sp, st'))
      else Inr (sp\<lparr>m_delimiter := delim\<rparr>, st))"

subsection \<open>The steps of \<open>next_range\<close>\<close>

text \<open>
  The local variables of \<open>next_range\<close>, the pointers of the current line among them, and what a part of the loop
  body leads to: the next round of the inner loop, the switch over the new context, a return, or a fault.
\<close>

record scan =
  c_p :: nat
  c_bos :: nat
  c_eol :: nat
  c_next_bol :: nat
  c_line_count :: nat
  c_has_complete_line :: bool
  c_has_newline :: bool
  c_command :: bool
  c_last_line_was_delimiter :: bool

datatype 's outcome =
    Go scan splitter 's
  | Fall scan splitter 's
  | Ret bool Range "string option" splitter 's
  | Fail fault

definition unfinished_stmt :: "scan \<Rightarrow> splitter \<Rightarrow> 's \<Rightarrow> 's outcome" where
  "unfinished_stmt sc sp st =
     Ret False
       \<lparr>r_offset = c_bos sc, r_length = size_sub (m_end sp) (c_bos sc), r_line_num = m_current_line sp\<rparr> None
       (sp\<lparr>m_ptr := c_bos sc\<rparr>) st"

definition run_command ::
  "'s cmd_callback \<Rightarrow> bool \<Rightarrow> scan \<Rightarrow> splitter \<Rightarrow> 's \<Rightarrow> fault + (bool \<times> scan \<times> splitter \<times> 's)" where
  "run_command cb delimited sc sp st =
     (let bos = c_bos sc; sc' = sc\<lparr>c_command := False\<rparr> in
      case cb bos (slice (sp_buffer sp) bos (c_p sc)) True (m_current_line sp) st of
        Inl e \<Rightarrow> Inl (Thrown e)
      | Inr ((skip0, _), st') \<Rightarrow>
          if skip0 = 0 then Inr (False, sc', sp, st')
          else
            (let skip = (if delimited then skip0 + length (m_delimiter sp) else skip0); p = bos + skip in
             if m_end sp + 1 < p \<or> c_eol sc < skip \<or> c_next_bol sc < skip \<or> m_end sp < skip then Inl Out_of_bounds
             else Inr (True,
               sc'\<lparr>c_p := bos, c_eol := c_eol sc - skip, c_next_bol := c_next_bol sc - skip\<rparr>,
               pop_context (sp\<lparr>sp_buffer := mem_move (sp_buffer sp) bos p (m_end sp + 1 - p),
                 m_shrinked_bytes := m_shrinked_bytes sp + skip, m_end := m_end sp - skip\<rparr>),
               st')))"

text \<open>The end of a statement at the delimiter, and a comment that takes a whole line.\<close>

definition return_statement :: "scan \<Rightarrow> splitter \<Rightarrow> 's \<Rightarrow> 's outcome" where
  "return_statement sc sp0 st =
     (let sp = pop_context sp0 in
      Ret True
        \<lparr>r_offset = c_bos sc, r_length = size_sub (c_p sc) (c_bos sc), r_line_num = m_current_line sp\<rparr>
        (Some (m_delimiter sp))
        (sp\<lparr>m_ptr := c_p sc + length (m_delimiter sp), m_current_line := m_current_line sp + c_line_count sc\<rparr>) st)"

definition return_comment :: "scan \<Rightarrow> splitter \<Rightarrow> 's \<Rightarrow> 's outcome" where
  "return_comment sc sp st =
     (let nl = (if c_has_newline sc then 1 else 0)
               + (if at (sp_buffer sp) (c_eol sc - 1) = CHR 0x0D then 1 else 0) in
      Ret True
        \<lparr>r_offset = c_bos sc, r_length = size_sub (c_eol sc) (c_bos sc + nl), r_line_num = m_current_line sp\<rparr>
        (Some [])
        (sp\<lparr>m_ptr := c_next_bol sc, m_current_line := m_current_line sp + c_line_count sc + 1\<rparr>) st)"

definition on_backslash :: "'s cmd_callback \<Rightarrow> scan \<Rightarrow> splitter \<Rightarrow> 's \<Rightarrow> 's outcome" where
  "on_backslash cb sc sp st =
     (let p = c_p sc; bos = c_bos sc; eol = c_eol sc; buf = sp_buffer sp in
      if eol = p + 1 then unfinished_stmt sc sp st
      else case cb p (slice buf p eol) (p = bos) (m_current_line sp) st of
             Inl e \<Rightarrow> Fail (Thrown e)
           | Inr ((skip, delim), st') \<Rightarrow>
               if skip = 0 \<and> p = bos \<and> \<not> c_has_complete_line sc then unfinished_stmt sc sp st'
               else if delim
               then (if length buf < p + skip then Fail Out_of_bounds
                     else
                       (let sp' = pop_context (sp\<lparr>m_ptr := p + skip\<rparr>) in
                        Ret True
                          \<lparr>r_offset = bos, r_length = size_sub p bos, r_line_num = m_current_line sp\<rparr>
                          (Some (slice buf p (p + skip)))
                          (sp'\<lparr>m_current_line := m_current_line sp' + c_line_count sc\<rparr>) st'))
               else if m_end sp < p + skip \<or> eol < skip then Fail Out_of_bounds
               else Fall (sc\<lparr>c_eol := eol - skip\<rparr>)
                      (sp\<lparr>sp_buffer := mem_move buf p (p + skip) (m_end sp - p - skip),
                          m_shrinked_bytes := m_shrinked_bytes sp + skip, m_end := m_end sp - skip\<rparr>) st')"

definition on_dollar :: "scan \<Rightarrow> splitter \<Rightarrow> 's \<Rightarrow> 's outcome" where
  "on_dollar sc sp st =
     (let p = c_p sc; buf = sp_buffer sp in
      if m_dollar_quoted_strings sp
      then (case span_dollar_quote buf (p + 1) (c_eol sc) of
              Some pp \<Rightarrow>
                if at buf pp = CHR ''$''
                then Fall (sc\<lparr>c_p := pp + 1\<rparr>)
                       (push_context kDollarQuotedString (sp\<lparr>m_dollar_quote := slice buf p (pp + 1)\<rparr>)) st
                else Fall (sc\<lparr>c_p := pp\<rparr>) sp st
            | None \<Rightarrow> unfinished_stmt sc sp st)
      else Fall (sc\<lparr>c_p := p + 1\<rparr>) (push_context kIdentifier sp) st)"

text \<open>The label \<open>other\<close>: keyword commands at the start of a statement, and any other character.\<close>

definition find_command :: "splitter \<Rightarrow> nat \<Rightarrow> string option" where
  "find_command sp p =
     (let c = code (tolower (at (sp_buffer sp) p)) in
      if code CHR ''a'' \<le> c \<and> c - code CHR ''a'' < length (m_commands_table sp)
      then find (\<lambda>kwd. str_ibeginswith (slice (sp_buffer sp) p (m_end sp)) kwd \<and>
                       is_any_blank (at (sp_buffer sp) (p + length kwd)))
             (m_commands_table sp ! (c - code CHR ''a''))
      else None)"

definition has_commands :: "splitter \<Rightarrow> nat \<Rightarrow> bool" where
  "has_commands sp p =
     (let c = code (tolower (at (sp_buffer sp) p)) in
      code CHR ''a'' \<le> c \<and> c - code CHR ''a'' < length (m_commands_table sp) \<and>
      m_commands_table sp ! (c - code CHR ''a'') \<noteq> [])"

definition on_other :: "scan \<Rightarrow> splitter \<Rightarrow> 's \<Rightarrow> 's outcome" where
  "on_other sc sp st =
     (let p = c_p sc; c = at (sp_buffer sp) p;
          plain =
            (if \<not> is_any_blank c
             then Fall (sc\<lparr>c_p := p + 1\<rparr>) (if context_of sp = kNone then push_context kStatement sp else sp) st
             else Fall (sc\<lparr>c_p := p + 1, c_bos := (if p = c_bos sc then c_bos sc + 1 else c_bos sc)\<rparr>)
                    (if context_of sp = kIdentifier then pop_context sp else sp) st)
      in if context_of sp = kNone
         then (if has_commands sp p
               then (case find_command sp p of
                       Some kwd \<Rightarrow>
                         Go (sc\<lparr>c_command := True, c_p := p + length kwd + 1\<rparr>) (push_context kStatement sp) st
                     | None \<Rightarrow> if c_command sc then Go sc sp st else plain)
               else plain)
         else if context_of sp = kDollarQuotedString
         then Fall (sc\<lparr>c_p := p + 1\<rparr>) (sp\<lparr>m_dollar_quote := m_dollar_quote sp @ [c]\<rparr>) st
         else plain)"

definition on_slash :: "scan \<Rightarrow> splitter \<Rightarrow> 's \<Rightarrow> 's outcome" where
  "on_slash sc sp st =
     (let p = c_p sc; buf = sp_buffer sp in
      if p + 3 \<le> m_end sp
      then (if at buf (p + 1) = CHR ''*''
            then (if at buf (p + 2) = CHR ''+'' then Fall (sc\<lparr>c_p := p + 3\<rparr>) (push_context kCommentHint sp) st
                  else if at buf (p + 2) = CHR ''!''
                  then Fall (sc\<lparr>c_p := p + 3\<rparr>) (push_context kCommentConditional sp) st
                  else Fall (sc\<lparr>c_p := p + 2\<rparr>) (push_context kComment sp) st)
            else on_other sc sp st)
      else if \<not> c_has_complete_line sc then unfinished_stmt sc sp st
      else on_other sc sp st)"

definition on_delimiter :: "'s err_callback \<Rightarrow> scan \<Rightarrow> splitter \<Rightarrow> 's \<Rightarrow> 's outcome" where
  "on_delimiter err sc sp st =
     (let p = c_p sc; eol = c_eol sc; buf = sp_buffer sp; after = p + length k_delimiter in
      if context_of sp = kNone \<and> str_ibeginswith (slice buf p (m_end sp)) k_delimiter
      then (if c_has_complete_line sc
            then (let np = skip_blanks buf after eol;
                      delim = (if np = eol \<or> np = after then [] else slice buf np (skip_not_blanks buf np eol)) in
                  case set_delimiter err delim sp st of
                    Inl e \<Rightarrow> Fail (Thrown e)
                  | Inr (sp', st') \<Rightarrow>
                      (let sp'' = pop_context sp' in
                       Fall (sc\<lparr>c_bos := c_next_bol sc, c_p := c_next_bol sc, c_last_line_was_delimiter := True\<rparr>)
                         (sp''\<lparr>m_current_line := m_current_line sp'' + 1\<rparr>) st'))
            else unfinished_stmt sc sp st)
      else on_other sc sp st)"

text \<open>A comment up to the end of the line, for \<open>#\<close> and for \<open>--\<close>.\<close>

definition on_line_comment :: "scan \<Rightarrow> splitter \<Rightarrow> 's \<Rightarrow> 's outcome" where
  "on_line_comment sc sp st =
     (if c_has_complete_line sc
      then (if context_of sp = kNone then return_comment sc sp st else Fall (sc\<lparr>c_p := c_next_bol sc\<rparr>) sp st)
      else unfinished_stmt sc sp st)"

definition on_dash :: "scan \<Rightarrow> splitter \<Rightarrow> 's \<Rightarrow> 's outcome" where
  "on_dash sc sp st =
     (let p = c_p sc; buf = sp_buffer sp in
      if p + 2 < m_end sp \<and> at buf (p + 1) = CHR ''-'' \<and> is_any_blank (at buf (p + 2))
      then on_line_comment sc sp st
      else on_other sc sp st)"

definition on_char :: "'s cmd_callback \<Rightarrow> 's err_callback \<Rightarrow> scan \<Rightarrow> splitter \<Rightarrow> 's \<Rightarrow> 's outcome" where
  "on_char cb err sc sp st =
     (let p = c_p sc; c = at (sp_buffer sp) p in
      if c = backslash
      then (if m_no_backslash_escapes sp \<or> c_command sc then on_other sc sp st else on_backslash cb sc sp st)
      else if c = squote then Fall (sc\<lparr>c_p := p + 1\<rparr>) (push_context kSQuoteString sp) st
      else if c = dquote
      then Fall (sc\<lparr>c_p := p + 1\<rparr>) (push_context (if m_ansi_quotes sp then kDQuoteIdentifier else kDQuoteString) sp) st
      else if c = backtick then Fall (sc\<lparr>c_p := p + 1\<rparr>) (push_context kBQuoteIdentifier sp) st
      else if c = CHR ''$'' then on_dollar sc sp st
      else if c = CHR ''/'' then on_slash sc sp st
      else if c = CHR ''d'' \<or> c = CHR ''D'' then on_delimiter err sc sp st
      else if c = CHR ''#'' then on_line_comment sc sp st
      else if c = CHR ''-'' then on_dash sc sp st
      else on_other sc sp st)"

text \<open>The delimiter is compared with a C string, which ends at the first NUL: a delimiter with a NUL is never found.\<close>

definition at_delimiter :: "scan \<Rightarrow> splitter \<Rightarrow> bool" where
  "at_delimiter sc sp \<longleftrightarrow>
     (let d = m_delimiter sp; p = c_p sc in
      at (sp_buffer sp) p = at d 0 \<and> p + length d \<le> c_eol sc \<and> nul \<notin> set d \<and> slice (sp_buffer sp) p (p + length d) = d)"

text \<open>The first half of the body of the inner loop, up to the switch over the context.\<close>

definition step_text :: "'s cmd_callback \<Rightarrow> 's err_callback \<Rightarrow> scan \<Rightarrow> splitter \<Rightarrow> 's \<Rightarrow> 's outcome" where
  "step_text cb err sc sp st =
     (let p = c_p sc; buf = sp_buffer sp in
      if context_of sp = kCommentConditional
      then (if p + 2 < c_eol sc \<and> at buf p = CHR ''*'' \<and> at buf (p + 1) = CHR ''/''
            then Go (sc\<lparr>c_p := p + 2\<rparr>) (pop_context sp) st
            else on_char cb err sc sp st)
      else if at_delimiter sc sp
      then (if c_command sc
            then (case run_command cb True sc sp st of
                    Inl f \<Rightarrow> Fail f
                  | Inr (ok, sc', sp', st') \<Rightarrow> if ok then Go sc' sp' st' else return_statement sc' sp' st')
            else return_statement sc sp st)
      else on_char cb err sc sp st)"

text \<open>The second half: a string, a quoted identifier or a comment is spanned up to its end or the end of the line.\<close>

definition close_span :: "nat option \<Rightarrow> scan \<Rightarrow> splitter \<Rightarrow> 's \<Rightarrow> 's outcome" where
  "close_span r sc sp st =
     (case r of
        Some q \<Rightarrow> Go (sc\<lparr>c_p := q\<rparr>) (pop_context sp) st
      | None \<Rightarrow> if c_has_complete_line sc then Go (sc\<lparr>c_p := c_eol sc\<rparr>) sp st else unfinished_stmt sc sp st)"

definition span_row :: "splitter \<Rightarrow> nat" where
  "span_row sp = (if m_no_backslash_escapes sp then 1 else 0)"

definition step_span :: "scan \<Rightarrow> splitter \<Rightarrow> 's \<Rightarrow> 's outcome" where
  "step_span sc sp st =
     (let p = c_p sc; eol = c_eol sc; buf = sp_buffer sp in
      case context_of sp of
        kSQuoteString \<Rightarrow>
          close_span (span_string (k_quoted_string_span_skips_sq (span_row sp)) squote buf p eol) sc sp st
      | kDQuoteString \<Rightarrow>
          close_span (span_string (k_quoted_string_span_skips_dq (span_row sp)) dquote buf p eol) sc sp st
      | kComment \<Rightarrow> close_span (map_option (\<lambda>q. q + 2) (span_comment buf p eol)) sc sp st
      | kCommentHint \<Rightarrow> close_span (map_option (\<lambda>q. q + 2) (span_comment buf p eol)) sc sp st
      | kDollarQuotedString \<Rightarrow> close_span (span_dollar_quoted_string buf p eol (m_dollar_quote sp)) sc sp st
      | kBQuoteIdentifier \<Rightarrow>
          (case span_quoted_identifier backtick buf p eol of Inl f \<Rightarrow> Fail f | Inr r \<Rightarrow> close_span r sc sp st)
      | kDQuoteIdentifier \<Rightarrow>
          (case span_quoted_identifier dquote buf p eol of Inl f \<Rightarrow> Fail f | Inr r \<Rightarrow> close_span r sc sp st)
      | _ \<Rightarrow> Go sc sp st)"

definition is_text_context :: "Context \<Rightarrow> bool" where
  "is_text_context c \<longleftrightarrow> c = kNone \<or> c = kStatement \<or> c = kIdentifier \<or> c = kCommentConditional"

definition scan_step :: "'s cmd_callback \<Rightarrow> 's err_callback \<Rightarrow> scan \<Rightarrow> splitter \<Rightarrow> 's \<Rightarrow> 's outcome" where
  "scan_step cb err sc sp st =
     (if is_text_context (context_of sp)
      then (case step_text cb err sc sp st of Fall sc' sp' st' \<Rightarrow> step_span sc' sp' st' | out \<Rightarrow> out)
      else step_span sc sp st)"

partial_function (option) scan_line ::
  "'s cmd_callback \<Rightarrow> 's err_callback \<Rightarrow> scan \<Rightarrow> splitter \<Rightarrow> 's \<Rightarrow> 's outcome option" where
  "scan_line cb err sc sp st =
     (if c_p sc < c_eol sc
      then (case scan_step cb err sc sp st of
              Go sc' sp' st' \<Rightarrow> scan_line cb err sc' sp' st'
            | out \<Rightarrow> Some out)
      else Some (Go sc sp st))"

declare scan_line.simps [code]

text \<open>One round of the outer loop: the next line, the inner loop over it, and the end of the line.\<close>

definition start_line :: "scan \<Rightarrow> splitter \<Rightarrow> scan" where
  "start_line sc sp =
     (let bol = c_next_bol sc in
      case memchr (sp_buffer sp) newline bol (m_end sp) of
        None \<Rightarrow> sc\<lparr>c_p := bol, c_eol := m_end sp, c_next_bol := m_end sp, c_has_complete_line := m_last_chunk sp,
                  c_has_newline := False, c_command := False, c_last_line_was_delimiter := False\<rparr>
      | Some i \<Rightarrow> sc\<lparr>c_p := bol, c_eol := i + 1, c_next_bol := i + 1, c_has_complete_line := True,
                    c_has_newline := True, c_command := False, c_last_line_was_delimiter := False\<rparr>)"

definition end_line :: "'s cmd_callback \<Rightarrow> scan \<Rightarrow> splitter \<Rightarrow> 's \<Rightarrow> 's outcome" where
  "end_line cb sc sp st =
     (if c_p sc = c_eol sc
      then (if c_command sc
            then (case run_command cb False sc sp st of Inl f \<Rightarrow> Fail f | Inr (_, sc', sp', st') \<Rightarrow> Go sc' sp' st')
            else if \<not> c_last_line_was_delimiter sc then Go (sc\<lparr>c_line_count := c_line_count sc + 1\<rparr>) sp st
            else Go sc sp st)
      else Go sc sp st)"

partial_function (option) scan_lines ::
  "'s cmd_callback \<Rightarrow> 's err_callback \<Rightarrow> scan \<Rightarrow> splitter \<Rightarrow> 's \<Rightarrow> 's outcome option" where
  "scan_lines cb err sc sp st =
     (if c_next_bol sc < m_end sp
      then (case scan_line cb err (start_line sc sp) sp st of
              None \<Rightarrow> None
            | Some (Go sc' sp' st') \<Rightarrow>
                (case end_line cb sc' sp' st' of
                   Go sc'' sp'' st'' \<Rightarrow> scan_lines cb err sc'' sp'' st''
                 | out \<Rightarrow> Some out)
            | Some out \<Rightarrow> Some out)
      else Some (Go sc sp st))"

declare scan_lines.simps [code]

text \<open>The blank lines in front of a statement, which are counted.\<close>

function skip_lines :: "string \<Rightarrow> nat \<Rightarrow> nat \<Rightarrow> nat \<Rightarrow> nat \<times> nat" where
  "skip_lines buf e bos line =
     (let b = skip_blanks buf bos e in
      if at buf b = newline then skip_lines buf e (b + 1) (line + 1) else (b, line))"
  by pat_completeness auto
termination
proof (relation "measure (\<lambda>(buf, e, bos, line). length buf - bos)", goal_cases)
  case (2 buf e bos line b)
  have "bos \<le> skip_blanks buf bos e"
    by (auto simp: skip_blanks_def find_Some_iff split: option.split)
  with 2 show ?case
    by (auto simp: at_def split: if_splits)
qed simp

declare skip_lines.simps [simp del]

definition finish_range :: "scan \<Rightarrow> splitter \<Rightarrow> 's \<Rightarrow> 's outcome" where
  "finish_range sc sp st =
     (let bos = c_bos sc;
          rg = \<lparr>r_offset = bos, r_length = size_sub (m_end sp) bos, r_line_num = m_current_line sp\<rparr> in
      if m_last_chunk sp \<and> bos < m_end sp
      then Ret True rg (Some [])
             (sp\<lparr>m_ptr := m_end sp, m_current_line := m_current_line sp + c_line_count sc\<rparr>) st
      else Ret False rg None (if m_last_chunk sp then sp\<lparr>m_eof := True\<rparr> else sp) st)"

definition next_range :: "'s cmd_callback \<Rightarrow> 's err_callback \<Rightarrow> splitter \<Rightarrow> 's \<Rightarrow> 's outcome option" where
  "next_range cb err sp st =
     (case skip_lines (sp_buffer sp) (m_end sp) (m_ptr sp) (m_current_line sp) of
        (bos, line) \<Rightarrow>
          (case scan_lines cb err
                  \<lparr>c_p = bos, c_bos = bos, c_eol = bos, c_next_bol = bos, c_line_count = 0,
                   c_has_complete_line = False, c_has_newline = False, c_command = False,
                   c_last_line_was_delimiter = False\<rparr>
                  (sp\<lparr>m_current_line := line\<rparr>) st of
             None \<Rightarrow> None
           | Some (Go sc sp' st') \<Rightarrow> Some (finish_range sc sp' st')
           | Some out \<Rightarrow> Some out))"

subsection \<open>Scripts\<close>

type_synonym 't stmt_callback = "string \<Rightarrow> string \<Rightarrow> nat \<Rightarrow> nat \<Rightarrow> 't \<Rightarrow> (bool \<times> 't) res"

text \<open>The callbacks that \<open>iterate_sql_stream\<close> gives to the splitter; the second component is \<open>stop\<close>.\<close>

definition stream_command :: "'t stmt_callback \<Rightarrow> ('t \<times> bool) cmd_callback" where
  "stream_command callback pos s0 bol lnum st =
     (let s = (if bol then s0 else take 2 s0) in
      if at s 1 \<noteq> CHR ''g'' \<and> at s 1 \<noteq> CHR ''G''
      then bind_res (callback s [] lnum pos (fst st)) (\<lambda>(ok, t). Inr ((length s, False), (t, snd st \<or> \<not> ok)))
      else Inr ((2, True), st))"

definition stream_error :: "'t err_callback \<Rightarrow> ('t \<times> bool) err_callback" where
  "stream_error err_callback msg st = bind_res (err_callback msg (fst st)) (\<lambda>t. Inr (t, snd st))"

text \<open>The statement of a range is handed to the callback; the range must lie in the buffer.\<close>

definition call_statement ::
  "'t stmt_callback \<Rightarrow> Range \<Rightarrow> string \<Rightarrow> nat \<Rightarrow> splitter \<Rightarrow> 't \<times> bool \<Rightarrow> fault + ('t \<times> bool)" where
  "call_statement callback rg delim offset sp st =
     (let off = r_offset rg; e = off + r_length rg in
      if length (sp_buffer sp) < e then Inl Out_of_bounds
      else case callback (slice (sp_buffer sp) off e) delim (r_line_num rg) (offset + off) (fst st) of
             Inl x \<Rightarrow> Inl (Thrown x)
           | Inr (ok, t) \<Rightarrow> Inr (t, snd st \<or> \<not> ok))"

text \<open>The unfinished statement is moved to the start of the buffer.\<close>

definition keep_unfinished :: "Range \<Rightarrow> nat \<Rightarrow> string \<Rightarrow> nat \<Rightarrow> fault + (string \<times> nat)" where
  "keep_unfinished rg shrinkage buffer offset =
     (let n = length buffer in
      if r_offset rg > 0
      then (if n < r_offset rg + shrinkage then Inl Out_of_bounds
            else (let m = n - r_offset rg - shrinkage
                  in Inr (take m (mem_move buffer 0 (r_offset rg) m), offset + r_offset rg)))
      else if shrinkage > 0
      then (if n < shrinkage then Inl Out_of_bounds else Inr (take (n - shrinkage) buffer, offset))
      else Inr (buffer, offset))"

partial_function (option) stream_loop ::
  "nat \<Rightarrow> 't stmt_callback \<Rightarrow> 't err_callback \<Rightarrow> splitter \<Rightarrow> string \<Rightarrow> nat \<Rightarrow> nat \<Rightarrow> 't \<times> bool
   \<Rightarrow> (fault + (splitter \<times> 't \<times> bool)) option" where
  "stream_loop csize callback err_callback sp stream old_chunk_size offset st =
     (if \<not> eof sp \<and> \<not> snd st
      then (case next_range (stream_command callback) (stream_error err_callback) sp st of
              None \<Rightarrow> None
            | Some (Ret found rg delim sp' st') \<Rightarrow>
                (if found
                 then (case call_statement callback rg (case delim of None \<Rightarrow> [] | Some d \<Rightarrow> d) offset sp' st' of
                         Inl f \<Rightarrow> Some (Inl f)
                       | Inr st'' \<Rightarrow> stream_loop csize callback err_callback sp' stream old_chunk_size offset st'')
                 else if m_last_chunk sp' \<and> r_length rg > 0
                 then (case call_statement callback rg [] offset sp' st' of
                         Inl f \<Rightarrow> Some (Inl f)
                       | Inr st'' \<Rightarrow> Some (Inr (sp', st'')))
                 else (case keep_unfinished rg (size_sub old_chunk_size (chunk_size sp')) (sp_buffer sp') offset of
                         Inl f \<Rightarrow> Some (Inl f)
                       | Inr (buffer, offset') \<Rightarrow>
                           (let got = take csize stream; buffer' = buffer @ got;
                                sp'' = (if length got < csize then feed buffer' sp' else feed_chunk buffer' sp')
                            in stream_loop csize callback err_callback sp'' (drop csize stream) (chunk_size sp'')
                                 offset' st')))
            | Some (Fail f) \<Rightarrow> Some (Inl f)
            | Some out \<Rightarrow> Some (Inl Out_of_bounds))
      else Some (Inr (sp, st)))"

declare stream_loop.simps [code]

text \<open>The result: whether the callback never stopped the iteration, the last delimiter, and the state of the client.\<close>

definition iterate_sql_stream ::
  "string \<Rightarrow> nat \<Rightarrow> 't stmt_callback \<Rightarrow> 't err_callback \<Rightarrow> bool \<Rightarrow> bool \<Rightarrow> bool \<Rightarrow> string option \<Rightarrow> 't
   \<Rightarrow> (fault + (bool \<times> string \<times> 't)) option" where
  "iterate_sql_stream stream csize callback err_callback ansi_quotes no_backslash_escapes dollar_quoted_strings
     delimiter t =
     (let sp = (Sql_splitter_new [''source''])\<lparr>m_ansi_quotes := ansi_quotes,
                 m_no_backslash_escapes := no_backslash_escapes,
                 m_dollar_quoted_strings := dollar_quoted_strings\<rparr> in
      case (case delimiter of None \<Rightarrow> Inr (sp, t) | Some d \<Rightarrow> set_delimiter err_callback d sp t) of
        Inl e \<Rightarrow> Some (Inl (Thrown e))
      | Inr (sp', t') \<Rightarrow>
          (let sp'' = feed_chunk (take csize stream) sp' in
           case stream_loop csize callback err_callback sp'' (drop csize stream) (chunk_size sp'') 0 (t', False) of
             None \<Rightarrow> None
           | Some (Inl f) \<Rightarrow> Some (Inl f)
           | Some (Inr (sp3, t3, stop)) \<Rightarrow> Some (Inr (\<not> stop, m_delimiter sp3, t3))))"

definition collect_statement :: "(string \<times> string \<times> nat) list stmt_callback" where
  "collect_statement s delim lnum offset results = Inr (True, results @ [(s, delim, lnum)])"

definition split_sql_stream ::
  "string \<Rightarrow> nat \<Rightarrow> (string \<times> string \<times> nat) list err_callback \<Rightarrow> bool \<Rightarrow> bool \<Rightarrow> bool \<Rightarrow> string option
   \<Rightarrow> (fault + (string \<times> string \<times> nat) list) option" where
  "split_sql_stream stream csize err_callback ansi_quotes no_backslash_escapes dollar_quoted_strings delimiter =
     (case iterate_sql_stream stream csize collect_statement err_callback ansi_quotes no_backslash_escapes
             dollar_quoted_strings delimiter [] of
        None \<Rightarrow> None
      | Some (Inl f) \<Rightarrow> Some (Inl f)
      | Some (Inr (_, _, results)) \<Rightarrow> Some (Inr results))"

definition split_error :: "(string \<times> string \<times> nat) list err_callback" where
  "split_error err results = Inl (Runtime_error (''Error splitting SQL script: '' @ takeWhile (\<lambda>c. c \<noteq> nul) err))"

definition split_sql :: "string \<Rightarrow> bool \<Rightarrow> bool \<Rightarrow> bool \<Rightarrow> (fault + string list) option" where
  "split_sql str ansi_quotes no_backslash_escapes dollar_quoted_strings =
     (case split_sql_stream str (length str) split_error ansi_quotes no_backslash_escapes dollar_quoted_strings None of
        None \<Rightarrow> None
      | Some (Inl f) \<Rightarrow> Some (Inl f)
      | Some (Inr parts) \<Rightarrow> Some (Inr (map fst parts)))"

definition context_string :: "Context \<Rightarrow> string" where
  "context_string context =
     (case context of
        kNone \<Rightarrow> []
      | kComment \<Rightarrow> ''/*''
      | kSQuoteString \<Rightarrow> [squote]
      | kDQuoteString \<Rightarrow> [dquote]
      | kDollarQuotedString \<Rightarrow> ''$''
      | kBQuoteIdentifier \<Rightarrow> [backtick]
      | kDQuoteIdentifier \<Rightarrow> [dquote]
      | _ \<Rightarrow> ''-'')"

end
