(* ===== verification/Sql_Script.thy ===== *)
theory Sql_Script
  imports Sql_Splitter
begin

text \<open>
  A reference for scripts: a lexer that reads a text character by character, without lines, chunks, pointers and
  buffers, and the list of statements it gives. It stops as \<open>Spec\<close> at what it leaves open: backslash
  commands, dollar signs, the keyword \<open>DELIMITER\<close> and the command \<open>source\<close>.
\<close>

section \<open>Definitions\<close>

text \<open>One step: \<open>Adv k\<close> consumes \<open>k + 1\<close> characters.\<close>

datatype rstep = Adv nat "Context list" | Stmt | Comment | Out | Spec

definition top :: "Context list \<Rightarrow> Context" where
  "top ctx = (case ctx of [] \<Rightarrow> kNone | c # _ \<Rightarrow> c)"

definition complete :: "bool \<Rightarrow> string \<Rightarrow> bool" where
  "complete fin s \<longleftrightarrow> fin \<or> newline \<in> set s"

text \<open>The characters up to the end of the line, and with the newline.\<close>

definition line_length :: "string \<Rightarrow> nat" where
  "line_length s = length (takeWhile (\<lambda>c. c \<noteq> newline) s)"

definition line_size :: "string \<Rightarrow> nat" where
  "line_size s = line_length s + (if newline \<in> set s then 1 else 0)"

definition line_comment :: "string \<Rightarrow> bool" where
  "line_comment s \<longleftrightarrow>
     at s 0 = CHR ''#'' \<or>
     (at s 0 = CHR ''-'' \<and> 3 \<le> length s \<and> at s 1 = CHR ''-'' \<and> is_any_blank (at s 2))"

definition special :: "bool \<Rightarrow> Context list \<Rightarrow> string \<Rightarrow> bool" where
  "special nobs ctx s \<longleftrightarrow>
     (at s 0 = backslash \<and> \<not> nobs) \<or> at s 0 = CHR ''$'' \<or>
     (ctx = [] \<and> (str_ibeginswith s k_delimiter \<or> (str_ibeginswith s ''source'' \<and> is_any_blank (at s 6))))"

definition ref_plain :: "Context list \<Rightarrow> string \<Rightarrow> rstep" where
  "ref_plain ctx s = Adv 0 (if \<not> is_any_blank (at s 0) \<and> ctx = [] then [kStatement] else ctx)"

definition ref_text :: "bool \<Rightarrow> bool \<Rightarrow> bool \<Rightarrow> Context list \<Rightarrow> string \<Rightarrow> rstep" where
  "ref_text ansi nobs fin ctx s =
     (let c = at s 0 in
      if top ctx = kCommentConditional \<and> c = CHR ''*'' \<and> at s 1 = CHR ''/'' \<and> 3 \<le> length s then Adv 1 (tl ctx)
      else if top ctx \<noteq> kCommentConditional \<and> c = CHR '';'' then Stmt
      else if special nobs ctx s then Spec
      else if c = squote then Adv 0 (kSQuoteString # ctx)
      else if c = dquote then Adv 0 ((if ansi then kDQuoteIdentifier else kDQuoteString) # ctx)
      else if c = backtick then Adv 0 (kBQuoteIdentifier # ctx)
      else if c = CHR ''/'' \<and> length s < 3 then (if complete fin s then ref_plain ctx s else Out)
      else if c = CHR ''/'' \<and> at s 1 = CHR ''*''
      then (if at s 2 = CHR ''+'' then Adv 2 (kCommentHint # ctx)
            else if at s 2 = CHR ''!'' then Adv 2 (kCommentConditional # ctx)
            else Adv 1 (kComment # ctx))
      else if line_comment s
      then (if \<not> complete fin s then Out else if ctx = [] then Comment else Adv (line_size s - 1) ctx)
      else ref_plain ctx s)"

definition ref_quoted :: "char \<Rightarrow> bool \<Rightarrow> Context list \<Rightarrow> string \<Rightarrow> rstep" where
  "ref_quoted quote escapes ctx s =
     (if at s 0 = quote then (if at s 1 = quote then Adv 1 ctx else Adv 0 (tl ctx))
      else if escapes \<and> at s 0 = backslash then Adv 1 ctx
      else Adv 0 ctx)"

definition ref_comment :: "Context list \<Rightarrow> string \<Rightarrow> rstep" where
  "ref_comment ctx s = (if at s 0 = CHR ''*'' \<and> at s 1 = CHR ''/'' then Adv 1 (tl ctx) else Adv 0 ctx)"

definition ref_step :: "bool \<Rightarrow> bool \<Rightarrow> bool \<Rightarrow> Context list \<Rightarrow> string \<Rightarrow> rstep" where
  "ref_step ansi nobs fin ctx s =
     (case top ctx of
        kSQuoteString \<Rightarrow> ref_quoted squote (\<not> nobs) ctx s
      | kDQuoteString \<Rightarrow> ref_quoted dquote (\<not> nobs) ctx s
      | kBQuoteIdentifier \<Rightarrow> ref_quoted backtick False ctx s
      | kDQuoteIdentifier \<Rightarrow> ref_quoted dquote False ctx s
      | kComment \<Rightarrow> ref_comment ctx s
      | kCommentHint \<Rightarrow> ref_comment ctx s
      | kDollarQuotedString \<Rightarrow> Spec
      | _ \<Rightarrow> ref_text ansi nobs fin ctx s)"

text \<open>
  The element at the start of a text, with \<open>n\<close> characters behind: a statement of some length, a line
  with a comment of some length and its size with the newline, or no end in this text.
\<close>

datatype verdict = Stmt_end nat | Line_comment nat nat | Runs_out | Special

function ref_lex :: "bool \<Rightarrow> bool \<Rightarrow> bool \<Rightarrow> Context list \<Rightarrow> string \<Rightarrow> nat \<Rightarrow> verdict" where
  "ref_lex ansi nobs fin ctx s n =
     (if s = [] then Runs_out
      else case ref_step ansi nobs fin ctx s of
             Adv k ctx' \<Rightarrow> ref_lex ansi nobs fin ctx' (drop (Suc k) s) (n + k + 1)
           | Stmt \<Rightarrow> Stmt_end n
           | Comment \<Rightarrow>
               Line_comment
                 (n + line_length s - (if newline \<notin> set s \<and> at s (length s - 1) = CHR 0x0D then 1 else 0))
                 (n + line_size s)
           | Out \<Rightarrow> Runs_out
           | Spec \<Rightarrow> Special)"
  by pat_completeness auto
termination
  by (relation "measure (\<lambda>(_, _, _, _, s, _). length s)") auto

declare ref_lex.simps [simp del]

definition newlines :: "string \<Rightarrow> nat" where
  "newlines s = length (filter (\<lambda>c. c = newline) s)"

definition line_start :: "nat \<Rightarrow> string \<Rightarrow> nat" where
  "line_start line s = line + newlines (takeWhile is_any_blank s)"

lemma line_size_bounds: "s \<noteq> [] \<Longrightarrow> 0 < line_size s" "line_size s \<le> length s"
  by (induction s) (auto simp: line_size_def line_length_def)

lemma ref_lex_bounds:
  "(ref_lex ansi nobs fin ctx s n = Stmt_end k \<longrightarrow> n \<le> k \<and> k < n + length s) \<and>
   (ref_lex ansi nobs fin ctx s n = Line_comment i j \<longrightarrow> n < j \<and> j \<le> n + length s)"
proof (induction ansi nobs fin ctx s n rule: ref_lex.induct)
  case (1 ansi nobs fin ctx s n)
  show ?case
  proof (cases "s = []")
    case True
    then show ?thesis
      by (simp add: ref_lex.simps)
  next
    case False
    then show ?thesis
      using line_size_bounds [of s] 1 [OF False] False by (subst (1 2) ref_lex.simps) (auto split: rstep.split)
  qed
qed

text \<open>The statements of a script, each with its delimiter and the number of its first line.\<close>

function ref_split :: "bool \<Rightarrow> bool \<Rightarrow> string \<Rightarrow> nat \<Rightarrow> (string \<times> string \<times> nat) list option" where
  "ref_split ansi nobs s line =
     (let t = dropWhile is_any_blank s; line' = line_start line s in
      if t = [] then Some []
      else case ref_lex ansi nobs True [] t 0 of
             Stmt_end k \<Rightarrow>
               map_option ((#) (take k t, '';'', line'))
                 (ref_split ansi nobs (drop (k + 1) t) (line' + newlines (take k t)))
           | Line_comment k m \<Rightarrow>
               map_option ((#) (take k t, [], line')) (ref_split ansi nobs (drop m t) (line' + newlines (take m t)))
           | Runs_out \<Rightarrow> Some [(t, [], line')]
           | Special \<Rightarrow> None)"
  by pat_completeness auto
termination
proof (relation "measure (\<lambda>(_, _, s, _). length s)", goal_cases)
  case (2 ansi nobs s line t line' k)
  then show ?case
    using length_dropWhile_le [of is_any_blank s] ref_lex_bounds [of ansi nobs True "[]" t 0 k]
    by (auto simp del: dropWhile_eq_Nil_conv)
next
  case (3 ansi nobs s line t line' k m)
  then show ?case
    using length_dropWhile_le [of is_any_blank s] ref_lex_bounds [of ansi nobs True "[]" t 0 k k m]
    by (auto simp del: dropWhile_eq_Nil_conv)
qed simp

declare ref_split.simps [simp del]

end
