(* ===== verification/Sql_Script_Spans.thy ===== *)
theory Sql_Script_Spans
  imports Sql_Script
begin

text \<open>
  Lines of a buffer, and the scanners of \<open>Sql_splitter\<close> against the reference lexer: inside of a string, a quoted
  identifier or a comment, the scan of one line leads the lexer to the place where the scan ends.
\<close>

section \<open>Texts and offsets\<close>

lemma at_0 [simp]: "s \<noteq> [] \<Longrightarrow> at s 0 = hd s"
  by (simp add: at_def hd_conv_nth)

lemma at_Nil [simp]: "at [] i = nul"
  by (simp add: at_def)

lemma at_drop: "at (drop p s) i = at s (p + i)"
  by (auto simp: at_def add.commute)

lemma at_drop_0: "at (drop p s) 0 = at s p"
  by (simp add: at_drop)

lemma at_append: "at (s @ t) i = (if i < length s then at s i else at t (i - length s))"
  by (auto simp: at_def nth_append)

lemma at_nul: "length s \<le> i \<Longrightarrow> at s i = nul"
  by (simp add: at_def)

lemma at_length: "at s i \<noteq> nul \<Longrightarrow> i < length s"
  by (auto simp: at_def split: if_splits)

lemma slice_full: "slice s p (length s) = drop p s"
  by (simp add: slice_def)

lemma newline_in_drop:
  "newline \<in> set (drop p s) \<longleftrightarrow> (\<exists>i. p \<le> i \<and> i < length s \<and> at s i = newline)"
proof
  assume "newline \<in> set (drop p s)"
  then obtain j where "j < length s - p" "drop p s ! j = newline"
    by (auto simp: in_set_conv_nth)
  then show "\<exists>i. p \<le> i \<and> i < length s \<and> at s i = newline"
    by (intro exI [of _ "p + j"]) (simp add: at_def)
next
  assume "\<exists>i. p \<le> i \<and> i < length s \<and> at s i = newline"
  then obtain i where "p \<le> i" "i < length s" "s ! i = newline"
    by (auto simp: at_def)
  then show "newline \<in> set (drop p s)"
    using nth_mem [of "i - p" "drop p s"] by simp
qed

section \<open>Lines\<close>

text \<open>The offsets of a line from \<open>p\<close> on.\<close>

definition in_line :: "string \<Rightarrow> nat \<Rightarrow> nat \<Rightarrow> bool \<Rightarrow> bool" where
  "in_line buf p eol nl \<longleftrightarrow> p \<le> eol \<and> eol \<le> length buf \<and>
     (\<forall>i. p \<le> i \<and> i + 1 < eol \<longrightarrow> at buf i \<noteq> newline) \<and>
     (if nl then p < eol \<longrightarrow> at buf (eol - 1) = newline
      else eol = length buf \<and> (p < eol \<longrightarrow> at buf (eol - 1) \<noteq> newline))"

lemma in_line_mono: "in_line buf p eol nl \<Longrightarrow> p \<le> q \<Longrightarrow> q \<le> eol \<Longrightarrow> in_line buf q eol nl"
  by (auto simp: in_line_def)

lemma in_line_complete:
  assumes "in_line buf p eol nl" and "p < eol"
  shows "newline \<in> set (drop p buf) \<longleftrightarrow> nl"
proof
  assume "newline \<in> set (drop p buf)"
  then obtain i where "p \<le> i" "i < length buf" "at buf i = newline"
    by (auto simp: newline_in_drop)
  then have "i + 1 < length buf \<or> i = length buf - 1"
    by auto
  with assms \<open>p \<le> i\<close> \<open>at buf i = newline\<close> show nl
    by (cases nl) (auto simp: in_line_def)
next
  assume nl
  with assms show "newline \<in> set (drop p buf)"
    by (auto simp: in_line_def newline_in_drop intro!: exI [of _ "eol - 1"])
qed

lemma in_line_size:
  assumes "in_line buf p eol nl" and "p < eol"
  shows "line_size (drop p buf) = eol - p" and "line_length (drop p buf) = eol - p - (if nl then 1 else 0)"
proof -
  let ?m = "eol - p - (if nl then 1 else 0)"
  have "takeWhile (\<lambda>c. c \<noteq> newline) (drop p buf) = take ?m (drop p buf)"
  proof (cases nl)
    case True
    have "buf ! (p + i) \<noteq> newline" if "i < eol - p - 1" for i
      using assms that by (auto simp: in_line_def at_def split: if_splits)
    moreover have "buf ! (p + (eol - p - 1)) = newline"
      using assms True by (auto simp: in_line_def at_def split: if_splits)
    ultimately show ?thesis
      using assms True by (intro takeWhile_eq_take_P_nth) (auto simp: in_line_def)
  next
    case False
    then have "takeWhile (\<lambda>c. c \<noteq> newline) (drop p buf) = drop p buf"
      using in_line_complete [OF assms] by (auto simp: takeWhile_eq_all_conv)
    then show ?thesis
      using assms False by (simp add: in_line_def)
  qed
  then show "line_length (drop p buf) = ?m"
    using assms by (auto simp: line_length_def in_line_def)
  then show "line_size (drop p buf) = eol - p"
    using assms in_line_complete [OF assms] by (auto simp: line_size_def)
qed

text \<open>A character that is no newline is not the last one of a line that has one.\<close>

lemma in_line_next:
  assumes "in_line buf p eol nl" and "p < eol" and "at buf p \<noteq> newline"
  shows "p + 1 < eol \<or> eol = length buf"
  using assms by (cases "p + 1 = eol") (auto simp: in_line_def split: if_splits)

section \<open>Strings, quoted identifiers and comments\<close>

lemma ref_adv:
  assumes "ref_step a b f ctx (drop p buf) = Adv k ctx'" and "p < length buf" and "bos \<le> p"
  shows "ref_lex a b f ctx (drop p buf) (p - bos) = ref_lex a b f ctx' (drop (p + k + 1) buf) (p + k + 1 - bos)"
  using assms by (subst ref_lex.simps) (auto simp: ac_simps Suc_diff_le)

lemma ref_lex_Nil [simp]: "ref_lex a b f ctx [] n = Runs_out"
  by (simp add: ref_lex.simps)

text \<open>The lexer in the context \<open>K\<close> at \<open>p\<close> gets to the end \<open>q\<close> of the element, or to the end of the line.\<close>

definition spanned ::
  "bool \<Rightarrow> bool \<Rightarrow> bool \<Rightarrow> Context \<Rightarrow> Context list \<Rightarrow> string \<Rightarrow> nat \<Rightarrow> nat \<Rightarrow> nat \<Rightarrow> nat option \<Rightarrow> bool" where
  "spanned a b f K ctx buf p eol bos r \<longleftrightarrow>
     (case r of
        Some q \<Rightarrow> p < q \<and> q \<le> eol \<and> ref_lex a b f (K # ctx) (drop p buf) (p - bos) = ref_lex a b f ctx (drop q buf) (q - bos)
      | None \<Rightarrow> ref_lex a b f (K # ctx) (drop p buf) (p - bos) = ref_lex a b f (K # ctx) (drop eol buf) (eol - bos))"

lemma span_string_sim:
  assumes step: "\<And>s. ref_step a b f (K # ctx) s = ref_quoted quote esc (K # ctx) s"
    and table: "\<And>c. tbl (code c) = (if c = nul \<or> c = quote then 0 else if c = backslash \<and> esc then 2 else 1)"
    and quote: "quote \<noteq> nul" "quote \<noteq> newline" "quote \<noteq> backslash"
    and line: "if p \<le> eol then in_line buf p eol nl else eol = length buf" and "bos \<le> p"
  shows "spanned a b f K ctx buf p eol bos (span_string tbl quote buf p eol)"
  unfolding spanned_def using line \<open>bos \<le> p\<close>
proof (induction "eol - p" arbitrary: p rule: less_induct)
  case less
  show ?case
  proof (cases "p < eol")
    case False
    then have "drop p buf = drop eol buf \<and> (p = eol \<or> length buf \<le> eol)"
      using less.prems by (cases "p = eol") auto
    then show ?thesis
      using False by (subst span_string.simps) auto
  next
    case True
    then have line: "in_line buf p eol nl" and p: "p < length buf"
      using less.prems by (auto simp: in_line_def)
    let ?c = "at buf p"
    have dec: "eol - (p + k + 1) < eol - p" for k
      using True by simp
    have line_next: "if p + k + 1 \<le> eol then in_line buf (p + k + 1) eol nl else eol = length buf"
      if "k = 0 \<or> k = 1 \<and> ?c \<noteq> newline" for k
      using in_line_next [OF line True] in_line_mono [OF line, of "p + k + 1"] that True by auto
    have IH: "case span_string tbl quote buf (p + k + 1) eol of
        Some q \<Rightarrow> p < q \<and> q \<le> eol \<and>
          ref_lex a b f (K # ctx) (drop p buf) (p - bos) = ref_lex a b f ctx (drop q buf) (q - bos)
      | None \<Rightarrow> ref_lex a b f (K # ctx) (drop p buf) (p - bos) = ref_lex a b f (K # ctx) (drop eol buf) (eol - bos)"
      if "k = 0 \<or> k = 1 \<and> ?c \<noteq> newline" "ref_quoted quote esc (K # ctx) (drop p buf) = Adv k (K # ctx)" for k
      using less.hyps [OF dec line_next [OF that(1)]] True less.prems(2)
        ref_adv [of a b f "K # ctx" p buf k "K # ctx" bos] step that(2) p
      by (auto split: option.split_asm option.split)
    consider "?c = quote" "at buf (p + 1) = quote" | "?c = quote" "at buf (p + 1) \<noteq> quote"
      | "?c \<noteq> quote" "esc" "?c = backslash" | "?c \<noteq> quote" "\<not> (esc \<and> ?c = backslash)"
      by blast
    then show ?thesis
    proof cases
      case 1
      then have "ref_quoted quote esc (K # ctx) (drop p buf) = Adv 1 (K # ctx)"
        by (simp add: ref_quoted_def at_drop)
      then show ?thesis
        using IH [of 1] 1 True quote by (subst span_string.simps) (simp add: table)
    next
      case 2
      then have "ref_quoted quote esc (K # ctx) (drop p buf) = Adv 0 ctx"
        by (simp add: ref_quoted_def at_drop)
      then show ?thesis
        using 2 True quote ref_adv [of a b f "K # ctx" p buf 0 ctx bos] step p less.prems(2)
        by (subst span_string.simps) (simp add: table)
    next
      case 3
      then have "ref_quoted quote esc (K # ctx) (drop p buf) = Adv 1 (K # ctx)"
        by (simp add: ref_quoted_def at_drop)
      then show ?thesis
        using IH [of 1] 3 True quote table [of backslash] by (subst span_string.simps) (simp add: table)
    next
      case 4
      then have "ref_quoted quote esc (K # ctx) (drop p buf) = Adv 0 (K # ctx)"
        by (simp add: ref_quoted_def at_drop)
      then show ?thesis
        using IH [of 0] 4 True quote table [of nul] table [of ?c]
        by (subst span_string.simps) (cases "?c = nul"; cases esc; simp add: Let_def)
    qed
  qed
qed

lemma memchr_rec:
  "memchr buf c p e = (if p < e then if at buf p = c then Some p else memchr buf c (p + 1) e else None)"
  by (simp add: memchr_def upt_rec)

lemma memchr_Some:
  "memchr buf c p e = Some q \<Longrightarrow> p \<le> q \<and> q < e \<and> at buf q = c \<and> (\<forall>i. p \<le> i \<and> i < q \<longrightarrow> at buf i \<noteq> c)"
proof (induction "e - p" arbitrary: p)
  case 0
  then show ?case
    using memchr_rec [of buf c p e] by simp
next
  case (Suc d)
  show ?case
  proof (cases "at buf p = c")
    case True
    with Suc.prems Suc.hyps(2) show ?thesis
      using memchr_rec [of buf c p e] by (auto split: if_splits)
  next
    case False
    with Suc.prems Suc.hyps(2) have "memchr buf c (p + 1) e = Some q"
      using memchr_rec [of buf c p e] by (auto split: if_splits)
    with Suc.hyps(1) [of "p + 1"] Suc.hyps(2) have
      "p + 1 \<le> q \<and> q < e \<and> at buf q = c \<and> (\<forall>i. p + 1 \<le> i \<and> i < q \<longrightarrow> at buf i \<noteq> c)"
      by simp
    with False show ?thesis
      by (metis Suc_eq_plus1 Suc_leI Suc_le_lessD le_neq_implies_less less_imp_le)
  qed
qed

lemma memchr_None: "memchr buf c p e = None \<longleftrightarrow> (\<forall>i. p \<le> i \<and> i < e \<longrightarrow> at buf i \<noteq> c)"
  by (auto simp: memchr_def find_None_iff)

lemma span_quoted_identifier_rec:
  assumes "p \<le> e"
  shows "span_quoted_identifier quote buf p e =
    (if p = e then Inr None
     else if at buf p = quote
     then (if at buf (p + 1) = quote then span_quoted_identifier quote buf (p + 2) e else Inr (Some (p + 1)))
     else span_quoted_identifier quote buf (p + 1) e)"
  using assms
  by (cases "p = e"; cases "at buf p = quote")
    (simp_all add: span_quoted_identifier.simps [of quote buf p] span_quoted_identifier.simps [of quote buf "Suc p"]
      memchr_rec [of buf quote p] span_quoted_identifier.simps [of quote buf e e] memchr_rec [of buf quote e e])

lemma span_comment_rec:
  assumes "p + 1 < e"
  shows "span_comment buf p e =
    (if at buf p = CHR ''*'' \<and> at buf (p + 1) = CHR ''/'' then Some p else span_comment buf (p + 1) e)"
proof (cases "at buf p = CHR ''*''")
  case True
  with assms show ?thesis
    by (simp add: span_comment.simps [of buf p] memchr_rec [of buf _ p])
next
  case False
  then show ?thesis
    using assms memchr_rec [of buf "CHR ''*''" p e] memchr_rec [of buf "CHR ''*''" "p + 1" e]
      memchr_rec [of buf "CHR ''*''" "p + 2" e]
    by (simp add: span_comment.simps [of buf p] span_comment.simps [of buf "Suc p"] split: option.split)
       (auto simp: span_comment.simps)
qed

lemma span_identifier_sim:
  assumes step: "\<And>s. ref_step a b f (K # ctx) s = ref_quoted quote False (K # ctx) s"
    and quote: "quote \<noteq> nul" "quote \<noteq> newline"
    and line: "in_line buf p eol nl" and "bos \<le> p"
  shows "\<exists>r. span_quoted_identifier quote buf p eol = Inr r \<and> spanned a b f K ctx buf p eol bos r"
  unfolding spanned_def using line \<open>bos \<le> p\<close>
proof (induction "eol - p" arbitrary: p rule: less_induct)
  case less
  then have rec: "p \<le> eol"
    by (simp add: in_line_def)
  show ?case
  proof (cases "p < eol")
    case False
    then show ?thesis
      using rec by (simp add: span_quoted_identifier_rec)
  next
    case True
    then have p: "p < length buf"
      using less.prems by (auto simp: in_line_def)
    have IH: "\<exists>r. span_quoted_identifier quote buf (p + k + 1) eol = Inr r \<and>
      (case r of
         Some q \<Rightarrow> p < q \<and> q \<le> eol \<and>
           ref_lex a b f (K # ctx) (drop p buf) (p - bos) = ref_lex a b f ctx (drop q buf) (q - bos)
       | None \<Rightarrow> ref_lex a b f (K # ctx) (drop p buf) (p - bos) = ref_lex a b f (K # ctx) (drop eol buf) (eol - bos))"
      if "p + k + 1 \<le> eol" "ref_quoted quote False (K # ctx) (drop p buf) = Adv k (K # ctx)" for k
    proof -
      have "eol - (p + k + 1) < eol - p"
        using True by simp
      from less.hyps [OF this in_line_mono [OF less.prems(1)]] that(1) less.prems(2) show ?thesis
        using ref_adv [of a b f "K # ctx" p buf k "K # ctx" bos] step that(2) p
        by (fastforce split: option.splits)
    qed
    consider "at buf p = quote" "at buf (p + 1) = quote" | "at buf p = quote" "at buf (p + 1) \<noteq> quote"
      | "at buf p \<noteq> quote"
      by blast
    then show ?thesis
    proof cases
      case 1
      then have "p + 1 < eol"
        using in_line_next [OF less.prems(1) True] at_length [of buf "p + 1"] quote by auto
      moreover have "ref_quoted quote False (K # ctx) (drop p buf) = Adv 1 (K # ctx)"
        using 1 by (simp add: ref_quoted_def at_drop)
      ultimately show ?thesis
        using IH [of 1] 1 True rec by (simp add: span_quoted_identifier_rec)
    next
      case 2
      then have "ref_quoted quote False (K # ctx) (drop p buf) = Adv 0 ctx"
        by (simp add: ref_quoted_def at_drop)
      then show ?thesis
        using 2 True rec ref_adv [of a b f "K # ctx" p buf 0 ctx bos] step p less.prems(2)
        by (simp add: span_quoted_identifier_rec)
    next
      case 3
      then have "ref_quoted quote False (K # ctx) (drop p buf) = Adv 0 (K # ctx)"
        by (simp add: ref_quoted_def at_drop)
      then show ?thesis
        using IH [of 0] 3 True rec by (simp add: span_quoted_identifier_rec)
    qed
  qed
qed

lemma span_comment_sim:
  assumes step: "\<And>s. ref_step a b f (K # ctx) s = ref_comment (K # ctx) s"
    and line: "in_line buf p eol nl" and "bos \<le> p"
  shows "spanned a b f K ctx buf p eol bos (map_option (\<lambda>q. q + 2) (span_comment buf p eol))"
proof -
  have "case span_comment buf p eol of
      Some q \<Rightarrow> p < q + 2 \<and> q + 2 \<le> eol \<and>
        ref_lex a b f (K # ctx) (drop p buf) (p - bos) = ref_lex a b f ctx (drop (q + 2) buf) (q + 2 - bos)
    | None \<Rightarrow> ref_lex a b f (K # ctx) (drop p buf) (p - bos) = ref_lex a b f (K # ctx) (drop eol buf) (eol - bos)"
  using line \<open>bos \<le> p\<close>
proof (induction "eol - p" arbitrary: p rule: less_induct)
  case less
  have adv: "ref_lex a b f (K # ctx) (drop p buf) (p - bos) = ref_lex a b f (K # ctx) (drop (p + 1) buf) (p + 1 - bos)"
    if "p < eol" "\<not> (at buf p = CHR ''*'' \<and> at buf (p + 1) = CHR ''/'')"
    using ref_adv [of a b f "K # ctx" p buf 0 "K # ctx" bos] that step less.prems
    by (auto simp: ref_comment_def at_drop in_line_def)
  show ?case
  proof (cases "p + 1 < eol")
    case False
    then consider "p = eol" | "p + 1 = eol"
      using less.prems by (fastforce simp: in_line_def)
    then show ?thesis
    proof cases
      case 2
      then have "\<not> (at buf p = CHR ''*'' \<and> at buf (p + 1) = CHR ''/'')"
        using in_line_next [OF less.prems(1)] at_nul [of buf "p + 1"] by auto
      from adv [OF _ this] 2 show ?thesis
        by (simp add: span_comment.simps)
    qed (simp add: span_comment.simps)
  next
    case True
    show ?thesis
    proof (cases "at buf p = CHR ''*'' \<and> at buf (p + 1) = CHR ''/''")
      case here: True
      then show ?thesis
        using ref_adv [of a b f "K # ctx" p buf 1 ctx bos] True step less.prems
        by (auto simp: span_comment_rec ref_comment_def at_drop in_line_def)
    next
      case here: False
      have rec: "span_comment buf p eol = span_comment buf (p + 1) eol"
        using span_comment_rec [OF True, of buf] unfolding if_not_P [OF here] .
      have "eol - (p + 1) < eol - p"
        using True by simp
      from less.hyps [OF this in_line_mono [OF less.prems(1)]] less.prems(2) True adv [OF _ here] show ?thesis
        unfolding rec by (simp split: option.splits)
    qed
  qed
qed
  then show ?thesis
    by (simp add: spanned_def split: option.splits)
qed

end
