(* ===== verification/Sql_Script_Sim.thy ===== *)
theory Sql_Script_Sim
  imports Sql_Script_Spans
begin

text \<open>
  The two loops of \<open>next_range\<close> follow the reference lexer: a round of the inner loop, the inner loop over a line,
  and the outer loop over the lines, for buffers in which no command has been removed and the delimiter is a semicolon.
\<close>

section \<open>One step\<close>

definition source_table :: "string list list" where
  "source_table = fold add_command [''source''] (replicate 25 [])"

definition ctx_ok :: "Context list \<Rightarrow> bool" where
  "ctx_ok ctx \<longleftrightarrow> (\<forall>c \<in> set (tl ctx). c = kCommentConditional \<or> c = kStatement) \<and> kStatement \<notin> set (butlast ctx) \<and>
     kNone \<notin> set ctx \<and> kIdentifier \<notin> set ctx \<and> kDollarQuotedString \<notin> set ctx"

text \<open>The states of the loops in which the splitter has read up to \<open>c_p\<close>, without commands and other delimiters.\<close>

definition ready :: "bool \<Rightarrow> bool \<Rightarrow> bool \<Rightarrow> string \<Rightarrow> splitter \<Rightarrow> bool" where
  "ready a b f buf sp \<longleftrightarrow> sp_buffer sp = buf \<and> m_end sp = length buf \<and> m_delimiter sp = '';'' \<and>
     m_commands_table sp = source_table \<and> m_ansi_quotes sp = a \<and> m_no_backslash_escapes sp = b \<and> m_last_chunk sp = f \<and>
     ctx_ok (m_context sp)"

definition live :: "bool \<Rightarrow> bool \<Rightarrow> bool \<Rightarrow> string \<Rightarrow> scan \<Rightarrow> splitter \<Rightarrow> bool" where
  "live a b f buf sc sp \<longleftrightarrow> ready a b f buf sp \<and>
     \<not> c_command sc \<and> \<not> c_last_line_was_delimiter sc \<and> c_next_bol sc = c_eol sc \<and>
     in_line buf (c_p sc) (c_eol sc) (c_has_newline sc) \<and> c_has_complete_line sc = (f \<or> c_has_newline sc) \<and>
     c_bos sc \<le> c_p sc \<and> (c_bos sc < length buf \<longrightarrow> \<not> is_any_blank (at buf (c_bos sc)))"

lemma ctx_ok_Nil [simp]: "ctx_ok []"
  by (simp add: ctx_ok_def)

lemma context_of_top: "context_of sp = top (m_context sp)"
  by (simp add: context_of_def top_def)

lemma ctx_ok_none: "ctx_ok ctx \<Longrightarrow> top ctx = kNone \<longleftrightarrow> ctx = []"
  by (cases ctx) (auto simp: ctx_ok_def top_def)

lemma ctx_ok_tl: "ctx_ok ctx \<Longrightarrow> ctx_ok (tl ctx)"
  by (cases ctx rule: remdups_adj.cases) (auto simp: ctx_ok_def)

lemma ctx_ok_push:
  "ctx_ok ctx \<Longrightarrow> is_text_context (top ctx) \<Longrightarrow> c \<notin> {kNone, kIdentifier, kDollarQuotedString, kStatement} \<Longrightarrow> ctx_ok (c # ctx)"
  by (cases ctx) (auto simp: ctx_ok_def top_def is_text_context_def)

lemma source_table_nth:
  "k < 25 \<Longrightarrow> source_table ! k = (if k = 18 then [''source''] else [])"
  by (simp add: source_table_def add_command_def tolower_def nth_list_update)

lemma length_source_table [simp]: "length source_table = 25"
  by (simp add: source_table_def add_command_def Let_def)

lemma ready_context [simp]: "ready a b f buf sp \<Longrightarrow> m_context sp = ctx \<Longrightarrow> ctx_ok ctx' \<Longrightarrow> ready a b f buf (sp\<lparr>m_context := ctx'\<rparr>)"
  by (simp add: ready_def)

lemma on_other_sim:
  assumes "live a b f buf sc sp" and "c_p sc < c_eol sc"
    and "\<not> special b (m_context sp) (drop (c_p sc) buf)"
  shows "on_other sc sp st =
    Fall (sc\<lparr>c_p := c_p sc + 1\<rparr>)
      (sp\<lparr>m_context := if \<not> is_any_blank (at buf (c_p sc)) \<and> m_context sp = [] then [kStatement] else m_context sp\<rparr>) st"
proof -
  have sp: "ready a b f buf sp" and ctx: "ctx_ok (m_context sp)" and buf: "sp_buffer sp = buf" "m_end sp = length buf"
    using assms(1) by (auto simp: live_def ready_def)
  have none: "context_of sp = kNone \<longleftrightarrow> m_context sp = []"
    using ctx_ok_none [OF ctx] by (simp add: context_of_top)
  have other: "context_of sp \<noteq> kIdentifier" "context_of sp \<noteq> kDollarQuotedString"
    using ctx by (auto simp: context_of_def ctx_ok_def split: list.splits)
  have start: "c_p sc = c_bos sc \<Longrightarrow> \<not> is_any_blank (at buf (c_p sc))"
    using assms(1,2) by (auto simp: live_def in_line_def)
  have cmd: "find_command sp (c_p sc) = None" if "m_context sp = []"
  proof -
    have "m_commands_table sp = source_table"
      using sp by (simp add: ready_def)
    moreover have "\<not> (str_ibeginswith (drop (c_p sc) buf) ''source'' \<and> is_any_blank (at buf (c_p sc + length ''source'')))"
      using assms(3) that by (simp add: special_def at_drop numeral_eq_Suc)
    ultimately show ?thesis
      by (auto simp: find_command_def Let_def buf slice_full source_table_nth)
  qed
  show ?thesis
    using assms(1) other start cmd
    by (auto simp: on_other_def Let_def none buf push_context_def live_def)
qed

text \<open>What the first half of the loop body does for a step of the reference.\<close>

fun text_sim :: "rstep \<Rightarrow> 's outcome \<Rightarrow> bool \<Rightarrow> scan \<Rightarrow> splitter \<Rightarrow> 's \<Rightarrow> bool" where
  "text_sim (Adv k ctx) out f sc sp st \<longleftrightarrow>
     c_p sc + k + 1 \<le> c_eol sc \<and> ctx_ok ctx \<and>
     (out = Fall (sc\<lparr>c_p := c_p sc + k + 1\<rparr>) (sp\<lparr>m_context := ctx\<rparr>) st \<or>
      is_text_context (top ctx) \<and> out = Go (sc\<lparr>c_p := c_p sc + k + 1\<rparr>) (sp\<lparr>m_context := ctx\<rparr>) st)"
| "text_sim Stmt out f sc sp st \<longleftrightarrow> out = return_statement sc sp st \<and> pop_context sp = sp\<lparr>m_context := []\<rparr>"
| "text_sim Comment out f sc sp st \<longleftrightarrow> out = return_comment sc sp st \<and> m_context sp = []"
| "text_sim Out out f sc sp st \<longleftrightarrow> out = unfinished_stmt sc sp st \<and> \<not> f"
| "text_sim Spec out f sc sp st \<longleftrightarrow> True"

lemma ref_plain_sim:
  assumes "live a b f buf sc sp" and "c_p sc < c_eol sc" and "ctx_ok (m_context sp)"
    and "\<not> special b (m_context sp) (drop (c_p sc) buf)"
  shows "text_sim (ref_plain (m_context sp) (drop (c_p sc) buf)) (on_other sc sp st) f sc sp st"
  using on_other_sim [OF assms(1,2,4), of st] assms(2,3)
  by (auto simp: ref_plain_def at_drop ctx_ok_def)

definition ref_char :: "bool \<Rightarrow> bool \<Rightarrow> Context list \<Rightarrow> string \<Rightarrow> rstep" where
  "ref_char ansi fin ctx s =
     (let c = at s 0 in
      if c = squote then Adv 0 (kSQuoteString # ctx)
      else if c = dquote then Adv 0 ((if ansi then kDQuoteIdentifier else kDQuoteString) # ctx)
      else if c = backtick then Adv 0 (kBQuoteIdentifier # ctx)
      else if c = CHR ''/'' \<and> length s < 3 then (if complete fin s then ref_plain ctx s else Out)
      else if c = CHR ''/'' \<and> at s 1 = CHR ''*''
      then (if at s 2 = CHR ''+'' then Adv 2 (kCommentHint # ctx)
            else if at s 2 = CHR ''!'' then Adv 2 (kCommentConditional # ctx)
            else Adv 1 (kComment # ctx))
      else if line_comment s
      then (if \<not> complete fin s then Out else if ctx = [] then Comment else Adv (line_size s - 1) ctx)
      else ref_plain ctx s)"

lemma ref_text_char:
  "ref_text ansi nobs fin ctx s =
     (if top ctx = kCommentConditional \<and> at s 0 = CHR ''*'' \<and> at s 1 = CHR ''/'' \<and> 3 \<le> length s then Adv 1 (tl ctx)
      else if top ctx \<noteq> kCommentConditional \<and> at s 0 = CHR '';'' then Stmt
      else if special nobs ctx s then Spec
      else ref_char ansi fin ctx s)"
  by (simp add: ref_text_def ref_char_def Let_def)

lemma in_line_two:
  assumes "in_line buf p eol nl" and "p < eol" and "p + 1 < length buf" and "at buf p \<noteq> newline"
  shows "p + 2 \<le> eol"
  using in_line_next [OF assms(1,2,4)] assms(3) by auto

lemma in_line_three:
  assumes "in_line buf p eol nl" and "p < eol" and "p + 2 < length buf" and "at buf p \<noteq> newline" and "at buf (p + 1) \<noteq> newline"
  shows "p + 3 \<le> eol"
proof -
  have "p + 2 \<le> eol"
    using in_line_two [OF assms(1,2) _ assms(4)] assms(3) by simp
  then show ?thesis
    using in_line_two [OF in_line_mono [OF assms(1), of "p + 1"], of] assms by auto
qed

lemma on_line_comment_sim:
  assumes "live a b f buf sc sp" and "c_p sc < c_eol sc" and "ctx_ok (m_context sp)"
  shows "text_sim
    (if \<not> complete f (drop (c_p sc) buf) then Out
     else if m_context sp = [] then Comment else Adv (line_size (drop (c_p sc) buf) - 1) (m_context sp))
    (on_line_comment sc sp st) f sc sp st"
proof -
  have line: "in_line buf (c_p sc) (c_eol sc) (c_has_newline sc)" and
    complete: "c_has_complete_line sc = (f \<or> c_has_newline sc)" and bol: "c_next_bol sc = c_eol sc"
    using assms(1) by (auto simp: live_def)
  have none: "context_of sp = kNone \<longleftrightarrow> m_context sp = []"
    using ctx_ok_none [OF assms(3)] by (simp add: context_of_top)
  show ?thesis
    using in_line_complete [OF line assms(2)] in_line_size(1) [OF line assms(2)] assms(2,3)
    by (auto simp: on_line_comment_def complete_def complete none bol)
qed

lemma on_char_sim:
  assumes "live a b f buf sc sp" and "c_p sc < c_eol sc" and "is_text_context (top (m_context sp))"
    and "\<not> special b (m_context sp) (drop (c_p sc) buf)"
  shows "text_sim (ref_char a f (m_context sp) (drop (c_p sc) buf)) (on_char cb err sc sp st) f sc sp st"
proof -
  let ?p = "c_p sc"
  have ctx: "ctx_ok (m_context sp)" and line: "in_line buf ?p (c_eol sc) (c_has_newline sc)"
    and buf: "sp_buffer sp = buf" "m_end sp = length buf" "m_ansi_quotes sp = a" "m_no_backslash_escapes sp = b"
    and complete: "c_has_complete_line sc = (f \<or> c_has_newline sc)"
    using assms(1) by (auto simp: live_def ready_def)
  have none: "context_of sp = kNone \<longleftrightarrow> m_context sp = []"
    using ctx_ok_none [OF ctx] by (simp add: context_of_top)
  note push = ctx_ok_push [OF ctx assms(3)]
  note plain = ref_plain_sim [OF assms(1,2) ctx assms(4), of st]
  note comment = on_line_comment_sim [OF assms(1,2) ctx, of st]
  let ?c = "at buf ?p"
  consider "?c = squote \<or> ?c = dquote \<or> ?c = backtick" | "?c = CHR ''/''" | "?c = CHR ''#''" | "?c = CHR ''-''"
    | "?c \<notin> {squote, dquote, backtick, CHR ''/'', CHR ''#'', CHR ''-''}"
    by auto
  then show ?thesis
  proof cases
    case 1
    then show ?thesis
      using assms(2)
      by (elim disjE) (simp_all add: on_char_def ref_char_def Let_def at_drop buf push_context_def push)
  next
    case 2
    have s: "\<not> length buf - ?p < 3 \<longleftrightarrow> ?p + 3 \<le> length buf"
      by auto
    have two: "?p + 2 \<le> c_eol sc" if "?p + 3 \<le> length buf"
      using in_line_two [OF line assms(2)] that 2 by auto
    have three: "?p + 3 \<le> c_eol sc" if "?p + 3 \<le> length buf" "at buf (Suc ?p) = CHR ''*''"
      using in_line_three [OF line assms(2)] that 2 by auto
    show ?thesis
      using 2 s two three plain complete in_line_complete [OF line assms(2)]
      by (cases "?p + 3 \<le> length buf"; cases "at buf (?p + 1) = CHR ''*''")
        (simp_all add: on_char_def on_slash_def ref_char_def Let_def at_drop buf push_context_def complete_def
          line_comment_def push)
  next
    case 3
    then show ?thesis
      using comment by (simp add: on_char_def ref_char_def Let_def at_drop buf line_comment_def)
  next
    case 4
    then show ?thesis
      using comment plain
      by (auto simp: on_char_def on_dash_def ref_char_def Let_def at_drop buf line_comment_def)
  next
    case 5
    then have "on_char cb err sc sp st = on_other sc sp st"
      using assms(1,4) none
      by (auto simp: on_char_def on_delimiter_def Let_def buf special_def at_drop slice_full live_def)
    with 5 plain show ?thesis
      by (auto simp: ref_char_def Let_def at_drop line_comment_def)
  qed
qed

lemma step_text_sim:
  assumes "live a b f buf sc sp" and "c_p sc < c_eol sc" and "is_text_context (top (m_context sp))"
  shows "text_sim (ref_text a b f (m_context sp) (drop (c_p sc) buf)) (step_text cb err sc sp st) f sc sp st"
proof -
  let ?p = "c_p sc"
  have ctx: "ctx_ok (m_context sp)" and line: "in_line buf ?p (c_eol sc) (c_has_newline sc)"
    and buf: "sp_buffer sp = buf" "m_delimiter sp = '';''" and command: "\<not> c_command sc"
    using assms(1) by (auto simp: live_def ready_def)
  have p: "?p < length buf"
    using line assms(2) by (simp add: in_line_def)
  have delim: "at_delimiter sc sp \<longleftrightarrow> at buf ?p = CHR '';''"
    using p assms(2) by (auto simp: at_delimiter_def Let_def buf slice_def at_def take_Suc hd_drop_conv_nth)
  have close: "?p + 2 < c_eol sc \<longleftrightarrow> ?p + 3 \<le> length buf"
    if "at buf ?p = CHR ''*''" "at buf (?p + 1) = CHR ''/''"
    using in_line_three [OF line assms(2)] that line by (auto simp: in_line_def)
  show ?thesis
  proof (cases "top (m_context sp) = kCommentConditional")
    case True
    then have "pop_context sp = sp\<lparr>m_context := tl (m_context sp)\<rparr>"
      by (auto simp: pop_context_def top_def)
    moreover have "is_text_context (top (tl (m_context sp)))"
      using ctx by (cases "tl (m_context sp)") (auto simp: ctx_ok_def top_def is_text_context_def)
    ultimately show ?thesis
      using True close on_char_sim [OF assms, of cb err st] ctx_ok_tl [OF ctx]
      by (auto simp: step_text_def ref_text_char Let_def context_of_top buf at_drop)
  next
    case False
    then have "pop_context sp = sp\<lparr>m_context := []\<rparr>"
      using ctx assms(3)
      by (cases "m_context sp"; cases "tl (m_context sp)")
        (auto simp: pop_context_def top_def is_text_context_def ctx_ok_def)
    then show ?thesis
      using False delim on_char_sim [OF assms, of cb err st] command
      by (auto simp: step_text_def ref_text_char Let_def context_of_top buf at_drop)
  qed
qed

text \<open>The second half of the loop body follows the reference through a string, an identifier or a comment.\<close>

definition span_sim ::
  "bool \<Rightarrow> bool \<Rightarrow> bool \<Rightarrow> string \<Rightarrow> 's outcome \<Rightarrow> scan \<Rightarrow> splitter \<Rightarrow> 's \<Rightarrow> bool" where
  "span_sim a b f buf out sc sp st \<longleftrightarrow>
     (\<exists>q ctx. out = Go (sc\<lparr>c_p := q\<rparr>) (sp\<lparr>m_context := ctx\<rparr>) st \<and> c_p sc \<le> q \<and> q \<le> c_eol sc \<and> ctx_ok ctx \<and>
        (\<not> is_text_context (top (m_context sp)) \<and> c_p sc < c_eol sc \<longrightarrow> c_p sc < q) \<and>
        ref_lex a b f (m_context sp) (drop (c_p sc) buf) (c_p sc - c_bos sc) =
          ref_lex a b f ctx (drop q buf) (q - c_bos sc)) \<or>
     (\<not> f \<and> out = unfinished_stmt sc sp st \<and>
        ref_lex a b f (m_context sp) (drop (c_p sc) buf) (c_p sc - c_bos sc) = Runs_out)"

lemma span_simI:
  assumes "out = Go (sc\<lparr>c_p := q\<rparr>) (sp\<lparr>m_context := ctx\<rparr>) st" and "c_p sc \<le> q" and "q \<le> c_eol sc" and "ctx_ok ctx"
    and "\<not> is_text_context (top (m_context sp)) \<Longrightarrow> c_p sc < c_eol sc \<Longrightarrow> c_p sc < q"
    and "ref_lex a b f (m_context sp) (drop (c_p sc) buf) (c_p sc - c_bos sc) = ref_lex a b f ctx (drop q buf) (q - c_bos sc)"
  shows "span_sim a b f buf out sc sp st"
  unfolding span_sim_def using assms by blast

lemma close_span_sim:
  assumes "live a b f buf sc sp" and "\<not> is_text_context (top (m_context sp))"
    and K: "m_context sp = K # ctx" and r: "spanned a b f K ctx buf (c_p sc) (c_eol sc) (c_bos sc) r"
  shows "span_sim a b f buf (close_span r sc sp st) sc sp st"
proof (cases r)
  case None
  have line: "c_p sc \<le> c_eol sc" "in_line buf (c_p sc) (c_eol sc) (c_has_newline sc)" "ctx_ok (m_context sp)"
    "c_has_complete_line sc = (f \<or> c_has_newline sc)"
    using assms(1) by (auto simp: live_def ready_def in_line_def)
  show ?thesis
  proof (cases "c_has_complete_line sc")
    case True
    then show ?thesis
      using None r [unfolded spanned_def] K line by (intro span_simI [where q = "c_eol sc" and ctx = "m_context sp"]) (auto simp: close_span_def)
  next
    case False
    then show ?thesis
      using None r [unfolded spanned_def] K line by (auto simp: close_span_def span_sim_def in_line_def)
  qed
next
  case (Some q)
  have "ctx_ok ctx"
    using assms(1) ctx_ok_tl [of "m_context sp"] K by (auto simp: live_def ready_def)
  then show ?thesis
    using r [unfolded spanned_def] Some K
    by (intro span_simI [where q = q and ctx = ctx]) (auto simp: close_span_def pop_context_def)
qed

lemma skip_tables:
  "k_quoted_string_span_skips_sq row (code c) =
     (if c = nul \<or> c = squote then 0 else if c = backslash \<and> row = 0 then 2 else 1)"
  "k_quoted_string_span_skips_dq row (code c) =
     (if c = nul \<or> c = dquote then 0 else if c = backslash \<and> row = 0 then 2 else 1)"
  using code_inject [of c nul] code_inject [of c squote] code_inject [of c dquote] code_inject [of c backslash]
  by (simp_all add: k_quoted_string_span_skips_sq_def k_quoted_string_span_skips_dq_def del: code_inject)

lemma step_span_sim:
  assumes "live a b f buf sc sp"
  shows "span_sim a b f buf (step_span sc sp st) sc sp st"
proof (cases "is_text_context (top (m_context sp))")
  case True
  then have "step_span sc sp st = Go sc sp st"
    by (auto simp: step_span_def context_of_top is_text_context_def Let_def)
  then show ?thesis
    using assms by (intro span_simI [where q = "c_p sc" and ctx = "m_context sp"]) (auto simp: live_def ready_def in_line_def True)
next
  case False
  then obtain K ctx where K: "m_context sp = K # ctx"
    by (cases "m_context sp") (auto simp: top_def is_text_context_def)
  have line: "in_line buf (c_p sc) (c_eol sc) (c_has_newline sc)" and bos: "c_bos sc \<le> c_p sc" and buf: "sp_buffer sp = buf"
    "m_no_backslash_escapes sp = b" and "ctx_ok (m_context sp)"
    using assms by (auto simp: live_def ready_def)
  have "c_p sc \<le> c_eol sc"
    using line by (simp add: in_line_def)
  with line have line': "if c_p sc \<le> c_eol sc then in_line buf (c_p sc) (c_eol sc) (c_has_newline sc) else c_eol sc = length buf"
    by simp
  note close = close_span_sim [OF assms False K]
  note string = span_string_sim [OF _ _ _ _ _ line' bos]
  note ident = span_identifier_sim [OF _ _ _ line bos]
  note comment = span_comment_sim [OF _ line bos]
  consider "K = kSQuoteString" | "K = kDQuoteString" | "K = kComment \<or> K = kCommentHint" | "K = kBQuoteIdentifier" | "K = kDQuoteIdentifier"
    using False \<open>ctx_ok (m_context sp)\<close> by (cases K) (auto simp: K top_def is_text_context_def ctx_ok_def)
  then show ?thesis
  proof cases
    case 1
    then have step: "ref_step a b f (K # ctx) s = ref_quoted squote (\<not> b) (K # ctx) s" for s
      by (simp add: ref_step_def top_def)
    have table: "k_quoted_string_span_skips_sq (span_row sp) (code c) =
        (if c = nul \<or> c = squote then 0 else if c = backslash \<and> \<not> b then 2 else 1)" for c
      by (simp add: skip_tables span_row_def buf)
    show ?thesis
      using close [OF string [OF step table]] \<open>K = kSQuoteString\<close> by (simp add: step_span_def context_of_top top_def K Let_def buf)
  next
    case 2
    then have step: "ref_step a b f (K # ctx) s = ref_quoted dquote (\<not> b) (K # ctx) s" for s
      by (simp add: ref_step_def top_def)
    have table: "k_quoted_string_span_skips_dq (span_row sp) (code c) =
        (if c = nul \<or> c = dquote then 0 else if c = backslash \<and> \<not> b then 2 else 1)" for c
      by (simp add: skip_tables span_row_def buf)
    show ?thesis
      using close [OF string [OF step table]] \<open>K = kDQuoteString\<close> by (simp add: step_span_def context_of_top top_def K Let_def buf)
  next
    case 3
    then have "step_span sc sp st = close_span (map_option (\<lambda>q. q + 2) (span_comment buf (c_p sc) (c_eol sc))) sc sp st"
      by (auto simp: step_span_def context_of_top top_def K Let_def buf)
    moreover have "ref_step a b f (K # ctx) s = ref_comment (K # ctx) s" for s
      using 3 by (auto simp: ref_step_def top_def)
    ultimately show ?thesis
      using close [OF comment] by simp
  next
    case 4
    then have step: "ref_step a b f (K # ctx) s = ref_quoted backtick False (K # ctx) s" for s
      by (simp add: ref_step_def top_def)
    have quote: "backtick \<noteq> nul" "backtick \<noteq> newline"
      by simp_all
    from ident [OF step quote] obtain r where "span_quoted_identifier backtick buf (c_p sc) (c_eol sc) = Inr r"
      and r: "spanned a b f K ctx buf (c_p sc) (c_eol sc) (c_bos sc) r"
      by (elim exE conjE)
    then show ?thesis
      using close [OF r] \<open>K = kBQuoteIdentifier\<close> by (simp add: step_span_def context_of_top top_def K Let_def buf)
  next
    case 5
    then have step: "ref_step a b f (K # ctx) s = ref_quoted dquote False (K # ctx) s" for s
      by (simp add: ref_step_def top_def)
    have quote: "dquote \<noteq> nul" "dquote \<noteq> newline"
      by simp_all
    from ident [OF step quote] obtain r where "span_quoted_identifier dquote buf (c_p sc) (c_eol sc) = Inr r"
      and r: "spanned a b f K ctx buf (c_p sc) (c_eol sc) (c_bos sc) r"
      by (elim exE conjE)
    then show ?thesis
      using close [OF r] \<open>K = kDQuoteIdentifier\<close> by (simp add: step_span_def context_of_top top_def K Let_def buf)
  qed
qed

section \<open>A line\<close>

text \<open>What \<open>next_range\<close> returns for a verdict of the reference.\<close>

fun returns :: "verdict \<Rightarrow> 's outcome \<Rightarrow> bool \<Rightarrow> scan \<Rightarrow> splitter \<Rightarrow> 's \<Rightarrow> bool" where
  "returns (Stmt_end k) out f sc sp st \<longleftrightarrow> c_bos sc + k < c_eol sc \<and>
     out = Ret True \<lparr>r_offset = c_bos sc, r_length = k, r_line_num = m_current_line sp\<rparr> (Some '';'')
       (sp\<lparr>m_context := [], m_ptr := c_bos sc + k + 1, m_current_line := m_current_line sp + c_line_count sc\<rparr>) st"
| "returns (Line_comment k m) out f sc sp st \<longleftrightarrow> c_bos sc + m = c_eol sc \<and> (f \<or> c_has_newline sc) \<and>
     out = Ret True \<lparr>r_offset = c_bos sc, r_length = k, r_line_num = m_current_line sp\<rparr> (Some [])
       (sp\<lparr>m_context := [], m_ptr := c_bos sc + m, m_current_line := m_current_line sp + c_line_count sc + 1\<rparr>) st"
| "returns Runs_out out f sc sp st \<longleftrightarrow>
     \<not> f \<and> (\<exists>ctx. out = unfinished_stmt sc (sp\<lparr>m_context := ctx\<rparr>) st)"
| "returns Special out f sc sp st \<longleftrightarrow> True"

lemma returns_position [simp]:
  "returns v out f (sc\<lparr>c_p := q\<rparr>) (sp\<lparr>m_context := ctx\<rparr>) st \<longleftrightarrow> returns v out f sc sp st"
  by (cases v) (auto simp: unfinished_stmt_def)

lemma live_move:
  assumes "live a b f buf sc sp" and "c_p sc \<le> q" and "q \<le> c_eol sc" and "ctx_ok ctx"
  shows "live a b f buf (sc\<lparr>c_p := q\<rparr>) (sp\<lparr>m_context := ctx\<rparr>)"
  using assms in_line_mono [of buf "c_p sc" "c_eol sc" "c_has_newline sc" q] by (auto simp: live_def ready_def)

lemma return_statement_returns:
  assumes "live a b f buf sc sp" and "c_p sc < c_eol sc" and "pop_context sp = sp\<lparr>m_context := []\<rparr>"
  shows "returns (Stmt_end (c_p sc - c_bos sc)) (return_statement sc sp st) f sc sp st"
  using assms by (auto simp: return_statement_def live_def ready_def size_sub_def Let_def)

lemma return_comment_returns:
  assumes "live a b f buf sc sp" and "c_p sc < c_eol sc" and "m_context sp = []" and "complete f (drop (c_p sc) buf)"
  shows "returns
    (Line_comment
       (c_p sc - c_bos sc + line_length (drop (c_p sc) buf) -
         (if newline \<notin> set (drop (c_p sc) buf) \<and> at (drop (c_p sc) buf) (length (drop (c_p sc) buf) - 1) = CHR 0x0D
          then 1 else 0))
       (c_p sc - c_bos sc + line_size (drop (c_p sc) buf)))
    (return_comment sc sp st) f sc sp st"
proof -
  have line: "in_line buf (c_p sc) (c_eol sc) (c_has_newline sc)" and bos: "c_bos sc \<le> c_p sc" and buf: "sp_buffer sp = buf"
    and bol: "c_next_bol sc = c_eol sc"
    using assms(1) by (auto simp: live_def ready_def)
  have eol: "c_eol sc \<le> length buf" "c_has_newline sc \<Longrightarrow> at buf (c_eol sc - 1) = newline"
    "\<not> c_has_newline sc \<Longrightarrow> c_eol sc = length buf"
    using line assms(2) by (auto simp: in_line_def)
  show ?thesis
    using in_line_size [OF line assms(2)] in_line_complete [OF line assms(2)] eol bos assms(2-4)
    by (cases "c_has_newline sc")
      (auto simp: complete_def return_comment_def Let_def buf bol size_sub_def at_drop)
qed

text \<open>The verdict of the reference at the place where the splitter is.\<close>

abbreviation verdict_at :: "bool \<Rightarrow> bool \<Rightarrow> bool \<Rightarrow> string \<Rightarrow> scan \<Rightarrow> splitter \<Rightarrow> verdict" where
  "verdict_at a b f buf sc sp \<equiv> ref_lex a b f (m_context sp) (drop (c_p sc) buf) (c_p sc - c_bos sc)"

definition stops :: "verdict \<Rightarrow> 's outcome \<Rightarrow> bool \<Rightarrow> scan \<Rightarrow> splitter \<Rightarrow> 's \<Rightarrow> bool" where
  "stops v out f sc sp st \<longleftrightarrow> (case out of Go _ _ _ \<Rightarrow> False | _ \<Rightarrow> returns v out f sc sp st)"

lemma stops_position [simp]:
  "stops v out f (sc\<lparr>c_p := q\<rparr>) (sp\<lparr>m_context := ctx\<rparr>) st \<longleftrightarrow> stops v out f sc sp st"
  by (simp add: stops_def split: outcome.split)

lemma unfinished_stops:
  assumes "\<not> f"
  shows "stops Runs_out (unfinished_stmt sc sp st) f sc sp st"
proof -
  have "unfinished_stmt sc sp st = unfinished_stmt sc (sp\<lparr>m_context := m_context sp\<rparr>) st"
    by simp
  then have "returns Runs_out (unfinished_stmt sc sp st) f sc sp st"
    using assms by (metis returns.simps(3))
  then show ?thesis
    by (simp add: unfinished_stmt_def stops_def)
qed

text \<open>A round of the inner loop comes closer to the end of the line and keeps the verdict, or returns it.\<close>

lemma scan_step_sim:
  assumes "live a b f buf sc sp" and "c_p sc < c_eol sc" and "verdict_at a b f buf sc sp \<noteq> Special"
  shows "(\<exists>q ctx. scan_step cb err sc sp st = Go (sc\<lparr>c_p := q\<rparr>) (sp\<lparr>m_context := ctx\<rparr>) st \<and> c_p sc < q \<and> q \<le> c_eol sc \<and>
      ctx_ok ctx \<and> verdict_at a b f buf sc sp = ref_lex a b f ctx (drop q buf) (q - c_bos sc)) \<or>
    stops (verdict_at a b f buf sc sp) (scan_step cb err sc sp st) f sc sp st"
    (is "?goes \<or> ?stops")
proof (cases "is_text_context (top (m_context sp))")
  case False
  then have "scan_step cb err sc sp st = step_span sc sp st"
    by (simp add: scan_step_def context_of_top)
  then show ?thesis
    using step_span_sim [OF assms(1), of st] False assms(2) unfinished_stops [of f sc sp st]
    by (auto simp: span_sim_def)
next
  case True
  let ?s = "drop (c_p sc) buf" and ?ctx = "m_context sp"
  have p: "c_p sc < length buf" "c_bos sc \<le> c_p sc" and ctx: "ctx_ok ?ctx"
    using assms(1,2) by (auto simp: live_def in_line_def ready_def)
  have ref: "ref_step a b f ?ctx ?s = ref_text a b f ?ctx ?s"
    using True ctx by (cases ?ctx) (auto simp: ref_step_def top_def is_text_context_def ctx_ok_def)
  note sim = step_text_sim [OF assms(1,2) True, of cb err st]
  have v: "verdict_at a b f buf sc sp = (case ref_text a b f ?ctx ?s of
      Adv k ctx' \<Rightarrow> ref_lex a b f ctx' (drop (c_p sc + k + 1) buf) (c_p sc + k + 1 - c_bos sc)
    | Stmt \<Rightarrow> Stmt_end (c_p sc - c_bos sc)
    | Comment \<Rightarrow> Line_comment
        (c_p sc - c_bos sc + line_length ?s - (if newline \<notin> set ?s \<and> at ?s (length ?s - 1) = CHR 0x0D then 1 else 0))
        (c_p sc - c_bos sc + line_size ?s)
    | Out \<Rightarrow> Runs_out
    | Spec \<Rightarrow> Special)"
    using p by (subst ref_lex.simps) (auto simp: ref ac_simps Suc_diff_le split: rstep.split)
  show ?thesis
  proof (cases "ref_text a b f ?ctx ?s")
    case (Adv k ctx')
    let ?sc = "sc\<lparr>c_p := c_p sc + k + 1\<rparr>" and ?sp = "sp\<lparr>m_context := ctx'\<rparr>"
    have le: "c_p sc + k + 1 \<le> c_eol sc" and ok: "ctx_ok ctx'"
      using sim Adv by simp_all
    have "scan_step cb err sc sp st = step_span ?sc ?sp st"
      using sim Adv True
      by (auto simp: scan_step_def context_of_top step_span_def is_text_context_def Let_def)
    moreover have "span_sim a b f buf (step_span ?sc ?sp st) ?sc ?sp st"
      using step_span_sim [OF live_move [OF assms(1) _ le ok]] by simp
    moreover have "verdict_at a b f buf ?sc ?sp = verdict_at a b f buf sc sp"
      using v Adv by simp
    ultimately consider q ctx where "scan_step cb err sc sp st = Go (sc\<lparr>c_p := q\<rparr>) (sp\<lparr>m_context := ctx\<rparr>) st" "c_p sc < q"
        "q \<le> c_eol sc" "ctx_ok ctx" "verdict_at a b f buf sc sp = ref_lex a b f ctx (drop q buf) (q - c_bos sc)"
      | "scan_step cb err sc sp st = unfinished_stmt ?sc ?sp st" "\<not> f" "verdict_at a b f buf sc sp = Runs_out"
      unfolding span_sim_def by (elim disjE exE conjE) simp_all
    then show ?thesis
    proof cases
      case 1
      then show ?thesis
        by blast
    next
      case 2
      then show ?thesis
        using unfinished_stops [of f ?sc ?sp st] by simp
    qed
  next
    case Stmt
    then show ?thesis
      using sim True v return_statement_returns [OF assms(1,2), of st]
      by (auto simp: scan_step_def context_of_top stops_def return_statement_def Let_def)
  next
    case Comment
    then have "complete f ?s"
      by (auto simp: ref_text_def ref_plain_def Let_def split: if_splits)
    then show ?thesis
      using sim Comment True v return_comment_returns [OF assms(1,2), of st]
      by (auto simp: scan_step_def context_of_top stops_def return_comment_def Let_def)
  next
    case Out
    then show ?thesis
      using sim True v unfinished_stops [of f sc sp st] by (auto simp: scan_step_def context_of_top unfinished_stmt_def)
  next
    case Spec
    then show ?thesis
      using v assms(3) by simp
  qed
qed

lemma scan_line_sim:
  assumes "live a b f buf sc sp" and "verdict_at a b f buf sc sp \<noteq> Special"
  shows "\<exists>out. scan_line cb err sc sp st = Some out \<and>
    ((\<exists>ctx. out = Go (sc\<lparr>c_p := c_eol sc\<rparr>) (sp\<lparr>m_context := ctx\<rparr>) st \<and> ctx_ok ctx \<and>
        verdict_at a b f buf sc sp = ref_lex a b f ctx (drop (c_eol sc) buf) (c_eol sc - c_bos sc)) \<or>
     stops (verdict_at a b f buf sc sp) out f sc sp st)"
  using assms
proof (induction "c_eol sc - c_p sc" arbitrary: sc sp rule: less_induct)
  case less
  show ?case
  proof (cases "c_p sc < c_eol sc")
    case False
    then have "c_p sc = c_eol sc" "ctx_ok (m_context sp)"
      using less.prems(1) by (auto simp: live_def in_line_def ready_def)
    moreover have "sc\<lparr>c_p := c_eol sc\<rparr> = sc"
      using \<open>c_p sc = c_eol sc\<close> by (metis scan.surjective scan.update_convs(1))
    ultimately show ?thesis
      using False by (subst scan_line.simps) (auto intro!: exI [of _ "m_context sp"])
  next
    case True
    from scan_step_sim [OF less.prems(1) True less.prems(2), of cb err st] show ?thesis
    proof (elim disjE exE conjE)
      fix q ctx
      assume go: "scan_step cb err sc sp st = Go (sc\<lparr>c_p := q\<rparr>) (sp\<lparr>m_context := ctx\<rparr>) st" and q: "c_p sc < q" "q \<le> c_eol sc"
        and ok: "ctx_ok ctx" and v: "verdict_at a b f buf sc sp = ref_lex a b f ctx (drop q buf) (q - c_bos sc)"
      have "live a b f buf (sc\<lparr>c_p := q\<rparr>) (sp\<lparr>m_context := ctx\<rparr>)"
        using live_move [OF less.prems(1) _ q(2) ok] q by simp
      from less.hyps [OF _ this] q v less.prems(2) True go show ?thesis
        by (subst scan_line.simps) simp
    next
      assume stop: "stops (verdict_at a b f buf sc sp) (scan_step cb err sc sp st) f sc sp st"
      then have "scan_line cb err sc sp st = Some (scan_step cb err sc sp st)"
        using True by (subst scan_line.simps) (auto simp: stops_def split: outcome.splits)
      with stop show ?thesis
        by blast
    qed
  qed
qed

section \<open>All lines\<close>

definition newlines_in :: "string \<Rightarrow> nat \<Rightarrow> nat \<Rightarrow> nat" where
  "newlines_in buf i j = newlines (take (j - i) (drop i buf))"

lemma newlines_append [simp]: "newlines (s @ t) = newlines s + newlines t"
  by (simp add: newlines_def)

lemma newlines_in_split:
  assumes "i \<le> j" and "j \<le> k"
  shows "newlines_in buf i k = newlines_in buf i j + newlines_in buf j k"
proof -
  have "take (k - i) (drop i buf) = take (j - i) (drop i buf) @ take (k - j) (drop j buf)"
    using assms take_add [of "j - i" "k - j" "drop i buf"] by (simp add: drop_drop)
  then show ?thesis
    by (simp add: newlines_in_def)
qed

lemma newlines_in_Suc: "p < length buf \<Longrightarrow> newlines_in buf p (p + 1) = (if at buf p = newline then 1 else 0)"
  by (simp add: newlines_in_def newlines_def take_Suc_conv_app_nth at_def hd_drop_conv_nth take_Suc)

lemma newlines_in_line:
  assumes "in_line buf p eol nl" and "p \<le> q" and "q < eol"
  shows "newlines_in buf p q = 0"
proof -
  have "c \<noteq> newline" if "c \<in> set (take (q - p) (drop p buf))" for c
  proof -
    from that obtain i where "i < q - p" "p + i < length buf" "c = buf ! (p + i)"
      by (auto simp: in_set_conv_nth)
    with assms show ?thesis
      by (auto simp: in_line_def at_def)
  qed
  then show ?thesis
    by (auto simp: newlines_in_def newlines_def filter_empty_conv)
qed

lemma newlines_in_full_line:
  assumes "in_line buf p eol True" and "p < eol"
  shows "newlines_in buf p eol = 1"
  using newlines_in_split [of p "eol - 1" eol buf] newlines_in_line [OF assms(1), of "eol - 1"]
    newlines_in_Suc [of "eol - 1" buf] assms
  by (auto simp: in_line_def)

lemma start_line_live:
  assumes "ready a b f buf sp" and "c_bos sc \<le> c_next_bol sc" and "c_next_bol sc < length buf"
    and "c_bos sc < length buf \<longrightarrow> \<not> is_any_blank (at buf (c_bos sc))"
  shows "live a b f buf (start_line sc sp) sp" and "c_next_bol sc < c_eol (start_line sc sp)"
proof -
  have buf: "sp_buffer sp = buf" "m_end sp = length buf" "m_last_chunk sp = f"
    using assms(1) by (auto simp: ready_def)
  have "live a b f buf (start_line sc sp) sp \<and> c_next_bol sc < c_eol (start_line sc sp)"
  proof (cases "memchr buf newline (c_next_bol sc) (length buf)")
    case None
    then have none: "at buf i \<noteq> newline" if "c_next_bol sc \<le> i" "i < length buf" for i
      using that memchr_None [of buf newline "c_next_bol sc" "length buf"] by blast
    then have "at buf (length buf - 1) \<noteq> newline"
      using assms(3) by simp
    then show ?thesis
      using assms None none
      by (auto simp: start_line_def Let_def buf live_def in_line_def)
  next
    case (Some i)
    from memchr_Some [OF this] Some assms show ?thesis
      by (auto simp: start_line_def Let_def buf live_def in_line_def)
  qed
  then show "live a b f buf (start_line sc sp) sp" "c_next_bol sc < c_eol (start_line sc sp)"
    by simp_all
qed

lemma start_line_fields [simp]:
  "c_p (start_line sc sp) = c_next_bol sc" "c_bos (start_line sc sp) = c_bos sc"
  "c_line_count (start_line sc sp) = c_line_count sc"
  by (auto simp: start_line_def Let_def split: option.split)

fun found_sim :: "verdict \<Rightarrow> 's outcome \<Rightarrow> bool \<Rightarrow> string \<Rightarrow> nat \<Rightarrow> splitter \<Rightarrow> 's \<Rightarrow> bool" where
  "found_sim (Stmt_end k) out f buf bos sp st \<longleftrightarrow>
     out = Ret True \<lparr>r_offset = bos, r_length = k, r_line_num = m_current_line sp\<rparr> (Some '';'')
       (sp\<lparr>m_context := [], m_ptr := bos + k + 1,
           m_current_line := m_current_line sp + newlines_in buf bos (bos + k)\<rparr>) st"
| "found_sim (Line_comment k m) out f buf bos sp st \<longleftrightarrow>
     (\<exists>line. (line = m_current_line sp + newlines_in buf bos (bos + m) \<or> f \<and> bos + m = length buf) \<and>
        out = Ret True \<lparr>r_offset = bos, r_length = k, r_line_num = m_current_line sp\<rparr> (Some [])
          (sp\<lparr>m_context := [], m_ptr := bos + m, m_current_line := line\<rparr>) st)"
| "found_sim Runs_out out f buf bos sp st \<longleftrightarrow>
     (\<exists>sc ctx. c_bos sc = bos \<and>
        (out = Go sc (sp\<lparr>m_context := ctx\<rparr>) st \<or> \<not> f \<and> out = unfinished_stmt sc (sp\<lparr>m_context := ctx\<rparr>) st))"
| "found_sim Special out f buf bos sp st \<longleftrightarrow> True"

lemma found_sim_context [simp]: "found_sim v out f buf bos (sp\<lparr>m_context := ctx\<rparr>) st \<longleftrightarrow> found_sim v out f buf bos sp st"
  by (cases v) auto

lemma stops_found:
  assumes "live a b f buf sc sp" and "c_p sc < c_eol sc" and "stops (verdict_at a b f buf sc sp) out f sc sp st"
    and "c_line_count sc = newlines_in buf (c_bos sc) (c_p sc)" and "verdict_at a b f buf sc sp \<noteq> Special"
  shows "(\<nexists>sc sp st. out = Go sc sp st) \<and> found_sim (verdict_at a b f buf sc sp) out f buf (c_bos sc) sp st"
proof -
  have out: "returns (verdict_at a b f buf sc sp) out f sc sp st" "\<nexists>sc sp st. out = Go sc sp st"
    using assms(3) by (auto simp: stops_def split: outcome.splits)
  have line: "in_line buf (c_p sc) (c_eol sc) (c_has_newline sc)" and bos: "c_bos sc \<le> c_p sc"
    and complete: "c_has_complete_line sc = (f \<or> c_has_newline sc)"
    using assms(1) by (auto simp: live_def)
  show ?thesis
  proof (cases "verdict_at a b f buf sc sp")
    case (Stmt_end k)
    then have k: "c_p sc \<le> c_bos sc + k" "c_bos sc + k < c_eol sc"
      using ref_lex_bounds [of a b f "m_context sp" "drop (c_p sc) buf" "c_p sc - c_bos sc" k] out bos by auto
    then have "newlines_in buf (c_bos sc) (c_bos sc + k) = c_line_count sc"
      using newlines_in_split [OF bos, of "c_bos sc + k" buf] newlines_in_line [OF line, of "c_bos sc + k"] assms(4) by simp
    then show ?thesis
      using out Stmt_end by simp
  next
    case (Line_comment k m)
    then have m: "c_bos sc + m = c_eol sc"
      using out by simp
    have "newlines_in buf (c_bos sc) (c_eol sc) = c_line_count sc + 1" if "c_has_newline sc"
      using newlines_in_split [OF bos, of "c_eol sc" buf] newlines_in_full_line [of buf "c_p sc" "c_eol sc"] line that assms(2,4)
      by simp
    moreover have "c_eol sc = length buf" if "\<not> c_has_newline sc"
      using line that by (simp add: in_line_def)
    ultimately have line_ok: "m_current_line sp + c_line_count sc + 1 = m_current_line sp + newlines_in buf (c_bos sc) (c_bos sc + m) \<or>
        f \<and> c_bos sc + m = length buf"
      using out(1) Line_comment m by (cases "c_has_newline sc") auto
    have "out = Ret True \<lparr>r_offset = c_bos sc, r_length = k, r_line_num = m_current_line sp\<rparr> (Some [])
        (sp\<lparr>m_context := [], m_ptr := c_bos sc + m, m_current_line := m_current_line sp + c_line_count sc + 1\<rparr>) st"
      using out(1) Line_comment by simp
    then show ?thesis
      using out(2) line_ok unfolding Line_comment found_sim.simps by blast
  next
    case Runs_out
    then show ?thesis
      using out by auto
  next
    case Special
    with assms(5) show ?thesis
      by simp
  qed
qed

lemma scan_lines_sim:
  assumes "ready a b f buf sp" and "c_bos sc \<le> c_next_bol sc" and "c_next_bol sc \<le> length buf"
    and "c_bos sc < length buf \<longrightarrow> \<not> is_any_blank (at buf (c_bos sc))"
    and "c_next_bol sc < length buf \<longrightarrow> c_line_count sc = newlines_in buf (c_bos sc) (c_next_bol sc)"
    and "v = ref_lex a b f (m_context sp) (drop (c_next_bol sc) buf) (c_next_bol sc - c_bos sc)" and "v \<noteq> Special"
  shows "\<exists>out. scan_lines cb err sc sp st = Some out \<and> found_sim v out f buf (c_bos sc) sp st \<and>
    (v \<noteq> Runs_out \<longrightarrow> (\<nexists>sc sp st. out = Go sc sp st))"
  using assms
proof (induction "length buf - c_next_bol sc" arbitrary: sc sp rule: less_induct)
  case less
  have m_end: "m_end sp = length buf"
    using less.prems(1) by (simp add: ready_def)
  show ?case
  proof (cases "c_next_bol sc < length buf")
    case False
    then have "v = Runs_out"
      using less.prems(3,6) by simp
    moreover have "sp = sp\<lparr>m_context := m_context sp\<rparr>"
      by simp
    ultimately show ?thesis
      using False m_end by (subst scan_lines.simps) (auto intro!: exI [of _ sc] exI [of _ "m_context sp"])
  next
    case True
    let ?sc = "start_line sc sp"
    have live: "live a b f buf ?sc sp" and eol: "c_p ?sc < c_eol ?sc"
      using start_line_live [OF less.prems(1,2) True less.prems(4)] by simp_all
    have v: "verdict_at a b f buf ?sc sp = v"
      using less.prems(6) by simp
    from scan_line_sim [OF live, of cb err st] v less.prems(7) obtain out where
      out: "scan_line cb err ?sc sp st = Some out" and
      sim: "(\<exists>ctx. out = Go (?sc\<lparr>c_p := c_eol ?sc\<rparr>) (sp\<lparr>m_context := ctx\<rparr>) st \<and> ctx_ok ctx \<and>
          v = ref_lex a b f ctx (drop (c_eol ?sc) buf) (c_eol ?sc - c_bos sc)) \<or> stops v out f ?sc sp st"
      by auto
    from sim show ?thesis
    proof (elim disjE exE conjE)
      fix ctx
      assume go: "out = Go (?sc\<lparr>c_p := c_eol ?sc\<rparr>) (sp\<lparr>m_context := ctx\<rparr>) st" and ok: "ctx_ok ctx"
        and v': "v = ref_lex a b f ctx (drop (c_eol ?sc) buf) (c_eol ?sc - c_bos sc)"
      let ?sc' = "?sc\<lparr>c_p := c_eol ?sc, c_line_count := c_line_count sc + 1\<rparr>" and ?sp' = "sp\<lparr>m_context := ctx\<rparr>"
      have rec: "scan_lines cb err sc sp st = scan_lines cb err ?sc' ?sp' st"
        using True m_end out go live by (subst scan_lines.simps) (simp add: end_line_def live_def)
      have line: "in_line buf (c_next_bol sc) (c_eol ?sc) (c_has_newline ?sc)" "c_next_bol ?sc' = c_eol ?sc"
        "c_eol ?sc \<le> length buf"
        using live by (auto simp: live_def in_line_def)
      have "c_line_count sc + 1 = newlines_in buf (c_bos sc) (c_eol ?sc)" if "c_eol ?sc < length buf"
      proof -
        have "c_has_newline ?sc"
          using line that by (cases "c_has_newline ?sc") (auto simp: in_line_def)
        then show ?thesis
          using newlines_in_split [OF less.prems(2), of "c_eol ?sc" buf] line(1) eol less.prems(5) True
            newlines_in_full_line [of buf "c_next_bol sc" "c_eol ?sc"]
          by simp
      qed
      then have "\<exists>out. scan_lines cb err ?sc' ?sp' st = Some out \<and> found_sim v out f buf (c_bos ?sc') ?sp' st \<and>
          (v \<noteq> Runs_out \<longrightarrow> (\<nexists>sc sp st. out = Go sc sp st))"
        using less.prems line eol ok v' by (intro less.hyps) (auto simp: ready_def)
      then show ?thesis
        unfolding rec by simp
    next
      assume stop: "stops v out f ?sc sp st"
      have "c_line_count ?sc = newlines_in buf (c_bos ?sc) (c_p ?sc)"
        using less.prems(5) True by simp
      from stops_found [OF live eol, unfolded v, OF stop this less.prems(7)]
      have found: "\<nexists>sc sp st. out = Go sc sp st" "found_sim v out f buf (c_bos sc) sp st"
        by simp_all
      moreover have "scan_lines cb err sc sp st = Some out"
        using True m_end out found(1) by (subst scan_lines.simps) (auto split: outcome.split)
      ultimately show ?thesis
        by blast
    qed
  qed
qed

end
