(* ===== verification/Sql_Script_Prefix.thy ===== *)
theory Sql_Script_Prefix
  imports Sql_Script_Sim
begin

text \<open>
  The reference lexer on a part of a script: an element that ends in the part is the element of the whole script. A part
  may end in the middle of a comment sign, of a doubled quote or of a keyword; then the lexer runs out of text.
\<close>

section \<open>Prefixes of a script\<close>

lemma ref_lex_Adv:
  "s \<noteq> [] \<Longrightarrow> ref_step a b f ctx s = Adv k ctx' \<Longrightarrow> ref_lex a b f ctx s n = ref_lex a b f ctx' (drop (Suc k) s) (n + k + 1)"
  by (simp add: ref_lex.simps [of a b f ctx s])

lemma at_Suc [simp]: "at (c # s) (Suc i) = at s i"
  by (simp add: at_def)

lemma at_append_less: "i < length s \<Longrightarrow> at (s @ t) i = at s i"
  by (simp add: at_append)

lemma isalpha_no_special:
  assumes "isalpha c"
  shows "c \<notin> {CHR '';'', backslash, CHR ''$'', squote, dquote, backtick, CHR ''/'', CHR ''#'', CHR ''-'', CHR ''*''}"
  using assms by (auto simp: isalpha_def)

lemma letters_run: "list_all isalpha t \<Longrightarrow> ref_lex a b f [kStatement] t n = Runs_out"
proof (induction t arbitrary: n)
  case (Cons c t)
  then have "ref_step a b f [kStatement] (c # t) = Adv 0 [kStatement]"
    using isalpha_no_special [of c]
    by (simp add: ref_step_def top_def ref_text_def ref_plain_def special_def line_comment_def Let_def)
  with Cons show ?case
    by (simp add: ref_lex_Adv)
qed simp

lemma letters_start:
  assumes "list_all isalpha t" and "\<not> special b [] t"
  shows "ref_lex a b f [] t n = Runs_out"
proof (cases t)
  case (Cons c cs)
  then have "isalpha c"
    using assms(1) by simp
  then have "\<not> is_any_blank c"
    by (auto simp: is_any_blank_def isalpha_def)
  then have "ref_step a b f [] t = Adv 0 [kStatement]"
    using Cons assms(2) isalpha_no_special [OF \<open>isalpha c\<close>]
    by (simp add: ref_step_def top_def ref_text_def ref_plain_def line_comment_def Let_def)
  then show ?thesis
    using Cons assms letters_run [of cs] by (simp add: ref_lex_Adv)
qed simp

lemma casecmp_letters:
  "str_casecmp (t @ u) w n = 0 \<Longrightarrow> n \<le> length w \<Longrightarrow> length t \<le> n \<Longrightarrow> list_all isalpha w \<Longrightarrow> list_all isalpha t"
proof (induction t arbitrary: w n)
  case (Cons c t)
  then obtain d w' n' where w: "w = d # w'" "n = Suc n'"
    by (cases w; cases n) auto
  have "isalpha d"
    using Cons.prems(4) w by simp
  then have "code (tolower d) \<noteq> 0"
    by (auto simp: tolower_def isalpha_def)
  then have d: "tolower d \<noteq> nul" "isalpha d"
    using \<open>isalpha d\<close> by auto
  then have "tolower c = tolower d" "str_casecmp (t @ u) w' n' = 0"
    using Cons.prems(1) w by (auto simp: Let_def split: if_splits)
  moreover have "isalpha c" if "tolower c = tolower d"
  proof -
    have "isalpha c = isalpha (tolower c)" for c
      by (auto simp: tolower_def isalpha_def)
    then show ?thesis
      using that d(2) by metis
  qed
  ultimately show ?case
    using Cons.IH [of w' n'] Cons.prems w by simp
qed simp

lemma casecmp_prefix: "n \<le> length t \<Longrightarrow> str_casecmp (t @ u) w n = str_casecmp t w n"
proof (induction n arbitrary: t w)
  case (Suc n)
  then show ?case
    by (cases t) (auto simp: Let_def)
qed simp

lemma ibeginswith_append:
  assumes "str_ibeginswith (t @ u) w" and "list_all isalpha w"
  shows "str_ibeginswith t w \<or> length t < length w \<and> list_all isalpha t"
  using assms casecmp_letters [of t u w "length w"] casecmp_prefix [of "length w" t u w]
  by (cases "length w \<le> length t") (auto simp: str_ibeginswith_def)

lemma ibeginswith_appendI: "str_ibeginswith t w \<Longrightarrow> str_ibeginswith (t @ u) w"
  using casecmp_prefix [of "length w" t u w] by (simp add: str_ibeginswith_def)

lemma ibeginswith_letters:
  "str_ibeginswith t w \<Longrightarrow> length t = length w \<Longrightarrow> list_all isalpha w \<Longrightarrow> list_all isalpha t"
  using casecmp_letters [of t "[]" w "length w"] by (simp add: str_ibeginswith_def)

text \<open>A construct that the lexer does not read is seen in the part, or the part ends inside of its keyword.\<close>

lemma special_prefix:
  assumes "t \<noteq> []" and "special b ctx (t @ u)"
  shows "special b ctx t \<or> ctx = [] \<and> list_all isalpha t"
proof (cases "at t 0 = backslash \<and> \<not> b \<or> at t 0 = CHR ''$''")
  case True
  then show ?thesis
    by (auto simp: special_def)
next
  case False
  then have ctx: "ctx = []" and s: "str_ibeginswith (t @ u) k_delimiter \<or> str_ibeginswith (t @ u) ''source'' \<and> is_any_blank (at (t @ u) 6)"
    using assms by (auto simp: special_def at_append_less)
  have letters: "list_all isalpha k_delimiter" "list_all isalpha ''source''"
    by (simp_all add: k_delimiter_def isalpha_def)
  from s show ?thesis
  proof
    assume "str_ibeginswith (t @ u) k_delimiter"
    then show ?thesis
      using ibeginswith_append [OF _ letters(1)] ctx by (auto simp: special_def)
  next
    assume source: "str_ibeginswith (t @ u) ''source'' \<and> is_any_blank (at (t @ u) 6)"
    show ?thesis
    proof (cases "6 < length t")
      case True
      then have "str_ibeginswith t ''source''"
        using ibeginswith_append [OF _ letters(2), of t u] source by auto
      then show ?thesis
        using source True ctx by (auto simp: special_def at_append)
    next
      case False
      then have "list_all isalpha t"
        using ibeginswith_append [OF _ letters(2), of t u] source ibeginswith_letters [OF _ _ letters(2), of t]
        by (cases "length t = 6") (auto simp: str_ibeginswith_def)
      then show ?thesis
        using ctx by simp
    qed
  qed
qed

lemma special_appendI:
  assumes "t \<noteq> []" and "special b ctx t"
  shows "special b ctx (t @ u)"
proof -
  have "at t 6 = nul \<or> at (t @ u) 6 = at t 6"
    by (simp add: at_def nth_append)
  moreover have "\<not> is_any_blank nul"
    by (simp add: is_any_blank_def)
  ultimately show ?thesis
    using assms by (auto simp: special_def at_append_less dest: ibeginswith_appendI)
qed

definition is_text :: "Context list \<Rightarrow> bool" where
  "is_text ctx \<longleftrightarrow> top ctx \<in> {kNone, kStatement, kIdentifier, kCommentConditional}"

lemma ref_step_text: "is_text ctx \<Longrightarrow> ref_step a b f ctx s = ref_text a b f ctx s"
  by (auto simp: is_text_def ref_step_def)

lemma is_text_plain: "is_text ctx \<Longrightarrow> \<exists>ctx'. ref_plain ctx s = Adv 0 ctx' \<and> is_text ctx'"
  by (auto simp: ref_plain_def is_text_def top_def)

lemma ref_lex_one: "ref_step a b f ctx [c] = Adv k ctx' \<Longrightarrow> ref_lex a b f ctx [c] n = Runs_out"
  by (simp add: ref_lex_Adv)

lemma not_special_short:
  "length s < 6 \<Longrightarrow> at s 0 \<noteq> backslash \<Longrightarrow> at s 0 \<noteq> CHR ''$'' \<Longrightarrow> \<not> special b ctx s"
  by (simp add: special_def str_ibeginswith_def k_delimiter_def)

lemma short_runs_out:
  assumes "is_text ctx"
  shows "ref_lex a b f ctx ''-'' n = Runs_out" "ref_lex a b False ctx ''/'' n = Runs_out"
    "ref_lex a b f ctx ''*'' n = Runs_out" "ref_lex a b f ctx ''--'' n = Runs_out" "ref_lex a b False ctx ''*/'' n = Runs_out"
proof -
  have plain: "\<exists>ctx'. is_text ctx' \<and> ref_lex a b f ctx (c # s) n = ref_lex a b f ctx' s (n + 1)"
    if "is_text ctx" "c = CHR ''-'' \<or> c = CHR ''*''" "length s < 2" for a b f ctx c s n
  proof -
    have "\<not> special b ctx (c # s)"
      using that(2,3) by (intro not_special_short) auto
    with that have "ref_step a b f ctx (c # s) = ref_plain ctx (c # s)"
      by (elim disjE) (simp_all add: ref_step_text ref_text_def Let_def line_comment_def)
    moreover obtain ctx' where "ref_plain ctx (c # s) = Adv 0 ctx'" "is_text ctx'"
      using is_text_plain [OF \<open>is_text ctx\<close>] by blast
    ultimately show ?thesis
      by (auto simp: ref_lex_Adv)
  qed
  have slash: "ref_lex a b False ctx ''/'' n = Runs_out" if "is_text ctx" for ctx n
    using that not_special_short [of "''/''" b ctx]
    by (simp add: ref_lex.simps [of a b False ctx "''/''"] ref_step_text ref_text_def Let_def complete_def)
  show "ref_lex a b f ctx ''-'' n = Runs_out" "ref_lex a b f ctx ''*'' n = Runs_out"
    using plain [OF assms, of "CHR ''-''" "[]" a b f n] plain [OF assms, of "CHR ''*''" "[]" a b f n] by auto
  show "ref_lex a b False ctx ''/'' n = Runs_out"
    by (rule slash [OF assms])
  show "ref_lex a b f ctx ''--'' n = Runs_out"
    using plain [OF assms, of "CHR ''-''" "''-''" a b f n] plain [of _ "CHR ''-''" "[]" a b f "n + 1"] by auto
  show "ref_lex a b False ctx ''*/'' n = Runs_out"
    using plain [OF assms, of "CHR ''*''" "''/''" a b False n] slash by auto
qed

lemma line_append:
  assumes "newline \<in> set t"
  shows "line_length (t @ u) = line_length t" "line_size (t @ u) = line_size t"
  using assms by (simp_all add: line_size_def line_length_def takeWhile_append1 [of newline])

lemma ref_plain_append: "t \<noteq> [] \<Longrightarrow> ref_plain ctx (t @ u) = ref_plain ctx t"
  by (simp add: ref_plain_def at_append_less)

lemma ref_text_prefix:
  assumes t: "t \<noteq> []" and txt_ctx: "is_text ctx" and runs: "ref_lex a b False ctx t n \<noteq> Runs_out"
  shows "ref_text a b f ctx (t @ u) = ref_text a b False ctx t"
proof -
  note short = short_runs_out [OF txt_ctx]
  have at0: "at (t @ u) 0 = at t 0"
    using t by (simp add: at_append_less)
  have lens: "(\<exists>c. t = [c]) \<or> (\<exists>c d. t = [c, d]) \<or>
      3 \<le> length t \<and> at (t @ u) 1 = at t 1 \<and> at (t @ u) 2 = at t 2"
    using t by (cases t rule: remdups_adj.cases; cases "drop 2 t") (simp_all add: at_def)
  have out: "ref_text a b False ctx t \<noteq> Out"
    using runs t by (auto simp: ref_lex.simps [of a b False ctx t] ref_step_text [OF txt_ctx])
  have spec: "special b ctx (t @ u) = special b ctx t"
    using special_prefix [OF t] special_appendI [OF t] letters_start [of t b a False n] runs by blast
  have close: "(at (t @ u) 1 = CHR ''/'' \<and> 3 \<le> length (t @ u)) = (at t 1 = CHR ''/'' \<and> 3 \<le> length t)"
    if "at t 0 = CHR ''*''"
    using lens short(3,5) runs that by auto
  have comment: "line_comment (t @ u) = line_comment t"
    using lens short(1,4) runs at0 by (auto simp: line_comment_def)
  have slash: "3 \<le> length t \<or> t = [CHR ''/'', newline]"
    if "at t 0 = CHR ''/''" "\<not> special b ctx t"
  proof -
    have "3 \<le> length t \<or> newline \<in> set t"
      using out that by (cases "length t < 3"; cases "newline \<in> set t") (auto simp: ref_text_def Let_def complete_def)
    then show ?thesis
      using lens that(1) by (auto simp: at_def)
  qed
  have full: "newline \<in> set t"
    if "line_comment t" "\<not> special b ctx t"
      "\<not> (top ctx \<noteq> kCommentConditional \<and> at t 0 = CHR '';'')"
    using out that by (auto simp: ref_text_def Let_def complete_def line_comment_def split: if_splits)
  show ?thesis
  proof (cases "special b ctx t")
    case True
    then show ?thesis
      using at0 spec close by (cases "at t 0 = CHR ''*''") (simp_all add: ref_text_def Let_def)
  next
    case False
    have line: "complete f (t @ u)" "complete False t" "line_size (t @ u) = line_size t" if "line_comment t"
      "\<not> (top ctx \<noteq> kCommentConditional \<and> at t 0 = CHR '';'')"
      using full [OF that(1) False that(2)] line_append [of t u] by (auto simp: complete_def)
    consider "at t 0 = CHR ''/''" | "at t 0 = CHR ''*''" | "line_comment t" "at t 0 \<noteq> CHR ''/''" "at t 0 \<noteq> CHR ''*''"
      | "\<not> line_comment t" "at t 0 \<noteq> CHR ''/''" "at t 0 \<noteq> CHR ''*''"
      by blast
    then show ?thesis
    proof cases
      case 1
      then show ?thesis
        using slash [OF _ False] at0 lens False spec ref_plain_append [OF t]
        by (cases "3 \<le> length t") (auto simp: ref_text_def Let_def complete_def line_comment_def)
    next
      case 2
      then show ?thesis
        using close [OF 2] at0 False spec ref_plain_append [OF t] by (simp add: ref_text_def Let_def line_comment_def)
    next
      case 3
      then show ?thesis
        using line [OF 3(1)] at0 False spec comment by (simp add: ref_text_def Let_def)
    next
      case 4
      then show ?thesis
        using at0 False spec comment ref_plain_append [OF t] by (simp add: ref_text_def Let_def)
    qed
  qed
qed

lemma ref_step_span:
  "\<not> is_text ctx \<Longrightarrow> top ctx = kDollarQuotedString \<or> (\<exists>k ctx'. ref_step a b f ctx s = Adv k ctx')"
  by (cases "top ctx") (simp_all add: is_text_def ref_step_def ref_quoted_def ref_comment_def)

lemma ref_step_prefix:
  assumes t: "t \<noteq> []" and runs: "ref_lex a b False ctx t n \<noteq> Runs_out"
  shows "ref_step a b f ctx (t @ u) = ref_step a b False ctx t"
proof (cases "is_text ctx")
  case True
  then show ?thesis
    using ref_text_prefix [OF t True runs] by (simp add: ref_step_text)
next
  case False
  show ?thesis
  proof (cases "length t = 1")
    case True
    then obtain c where "t = [c]"
      by (cases t) auto
    then have "top ctx = kDollarQuotedString"
      using runs ref_lex_one ref_step_span [OF False, of a b False t] by blast
    then show ?thesis
      by (simp add: ref_step_def)
  next
    case False
    with t have "1 < length t"
      by (cases t) auto
    then have "at (t @ u) 0 = at t 0" "at (t @ u) 1 = at t 1"
      using t by (simp_all add: at_append_less)
    then show ?thesis
      using \<open>\<not> is_text ctx\<close>
      by (cases "top ctx") (simp_all add: ref_step_def ref_quoted_def ref_comment_def is_text_def)
  qed
qed

lemma ref_step_Comment: "ref_step a b False ctx t = Comment \<Longrightarrow> newline \<in> set t"
  by (cases "top ctx")
    (auto simp: ref_step_def ref_text_def ref_quoted_def ref_comment_def ref_plain_def complete_def Let_def split: if_splits)

lemma ref_lex_prefix:
  "ref_lex a b False ctx t n \<noteq> Runs_out \<Longrightarrow> ref_lex a b f ctx (t @ u) n = ref_lex a b False ctx t n"
proof (induction "length t" arbitrary: ctx t n rule: less_induct)
  case less
  then have t: "t \<noteq> []"
    by (auto simp: ref_lex.simps)
  note step = ref_step_prefix [OF t less.prems, of f u]
  note unfold = ref_lex.simps [of a b f ctx "t @ u" n] ref_lex.simps [of a b False ctx t n]
  show ?case
  proof (cases "ref_step a b False ctx t")
    case (Adv k ctx')
    then have lex: "ref_lex a b False ctx t n = ref_lex a b False ctx' (drop (Suc k) t) (n + k + 1)"
      by (simp add: ref_lex_Adv t)
    then have k: "Suc k < length t"
      using less.prems by (cases "Suc k < length t") (simp_all add: ref_lex.simps)
    then show ?thesis
      using less.hyps [of "drop (Suc k) t" ctx' "n + k + 1"] less.prems lex t Adv step
      by (simp add: ref_lex_Adv [of "t @ u"])
  next
    case Comment
    then show ?thesis
      using line_append [OF ref_step_Comment [OF Comment], of u] ref_step_Comment [OF Comment]
      by (simp add: unfold step Comment t)
  qed (simp_all add: unfold step t)
qed

end
