(* ===== verification/Sql_Script_Facts.thy ===== *)
theory Sql_Script_Facts
  imports Sql_Script_Prefix
begin

text \<open>
  \<open>split_sql_stream\<close> gives the statements of the reference for every chunk size: \<open>next_range\<close> gives the next element of
  the buffer, and an element found in the first part of a script is the one of the whole script. What the splitter does
  with the constructs that the reference leaves open is shown on examples.
\<close>

section \<open>The next range\<close>

lemma skip_blanks_rec:
  "p \<le> e \<Longrightarrow> skip_blanks buf p e = (if p < e \<and> is_blank (at buf p) then skip_blanks buf (p + 1) e else p)"
  by (auto simp: skip_blanks_def upt_rec [of p] split: option.split)

lemma skip_lines_rec:
  assumes "p \<le> length buf"
  shows "skip_lines buf (length buf) p line =
    (if p < length buf \<and> is_blank (at buf p) then skip_lines buf (length buf) (p + 1) line
     else if at buf p = newline then skip_lines buf (length buf) (p + 1) (line + 1)
     else (p, line))"
proof (cases "p < length buf \<and> is_blank (at buf p)")
  case True
  then show ?thesis
    using skip_blanks_rec [OF assms, of buf]
    by (simp add: skip_lines.simps [of buf "length buf" p] skip_lines.simps [of buf "length buf" "Suc p"])
next
  case False
  then show ?thesis
    using skip_blanks_rec [OF assms, of buf] by (auto simp: skip_lines.simps [of buf "length buf" p])
qed

lemma skip_lines_blank:
  assumes "p \<le> length buf"
  shows "skip_lines buf (length buf) p line =
    (p + length (takeWhile is_any_blank (drop p buf)), line_start line (drop p buf))"
  using assms
proof (induction "length buf - p" arbitrary: p line rule: less_induct)
  case less
  show ?case
  proof (cases "p < length buf")
    case False
    then show ?thesis
      using less.prems by (simp add: skip_lines_rec at_def line_start_def newlines_def)
  next
    case True
    then have "drop p buf = at buf p # drop (p + 1) buf"
      by (simp add: Cons_nth_drop_Suc at_def)
    moreover have "is_any_blank (at buf p) \<longleftrightarrow> is_blank (at buf p) \<or> at buf p = newline"
      by (auto simp: is_any_blank_def is_blank_def)
    moreover have "\<not> is_blank newline"
      by (simp add: is_blank_def)
    ultimately show ?thesis
      using less.hyps [of "p + 1"] True skip_lines_rec [of p buf line]
      by (auto simp: line_start_def newlines_def)
  qed
qed

text \<open>What \<open>next_range\<close> gives for the verdict on the buffer behind the blanks, which starts at \<open>bos\<close>.\<close>

fun range_sim :: "verdict \<Rightarrow> 's outcome \<Rightarrow> bool \<Rightarrow> string \<Rightarrow> nat \<Rightarrow> splitter \<Rightarrow> 's \<Rightarrow> bool" where
  "range_sim Runs_out out f buf bos sp st \<longleftrightarrow>
     (\<exists>ctx ptr line.
        out = Ret (f \<and> bos < length buf) \<lparr>r_offset = bos, r_length = length buf - bos, r_line_num = m_current_line sp\<rparr>
          (if f \<and> bos < length buf then Some [] else None)
          (sp\<lparr>m_context := ctx, m_ptr := ptr, m_current_line := line, m_eof := m_eof sp \<or> (f \<and> \<not> bos < length buf)\<rparr>) st \<and>
        (f \<and> bos < length buf \<longrightarrow> ptr = length buf) \<and> (\<not> f \<longrightarrow> line = m_current_line sp))"
| "range_sim v out f buf bos sp st \<longleftrightarrow> found_sim v out f buf bos sp st"

lemma finish_range_sim:
  assumes "m_end sp = length buf" "m_last_chunk sp = f" "c_bos sc = bos" "bos \<le> length buf"
  shows "range_sim Runs_out (finish_range sc (sp\<lparr>m_context := ctx\<rparr>) st) f buf bos sp st"
proof -
  let ?last = "f \<and> bos < length buf"
  have "finish_range sc (sp\<lparr>m_context := ctx\<rparr>) st =
    Ret ?last \<lparr>r_offset = bos, r_length = length buf - bos, r_line_num = m_current_line sp\<rparr> (if ?last then Some [] else None)
      (sp\<lparr>m_context := ctx, m_ptr := if ?last then length buf else m_ptr sp,
        m_current_line := m_current_line sp + (if ?last then c_line_count sc else 0), m_eof := m_eof sp \<or> (f \<and> \<not> bos < length buf)\<rparr>) st"
    using assms by (auto simp: finish_range_def size_sub_def Let_def)
  then show ?thesis
    unfolding range_sim.simps by fastforce
qed

lemma unfinished_stmt_sim:
  assumes "m_end sp = length buf" "\<not> f" "c_bos sc = bos" "bos \<le> length buf"
  shows "range_sim Runs_out (unfinished_stmt sc (sp\<lparr>m_context := ctx\<rparr>) st) f buf bos sp st"
proof -
  have "unfinished_stmt sc (sp\<lparr>m_context := ctx\<rparr>) st =
    Ret False \<lparr>r_offset = bos, r_length = length buf - bos, r_line_num = m_current_line sp\<rparr> None
      (sp\<lparr>m_context := ctx, m_ptr := bos, m_current_line := m_current_line sp, m_eof := m_eof sp\<rparr>) st"
    using assms by (simp add: unfinished_stmt_def size_sub_def)
  then show ?thesis
    unfolding range_sim.simps using assms(2) by fastforce
qed

lemma next_range_sim:
  assumes "ready a b f buf sp" and "m_context sp = []" and "m_ptr sp \<le> length buf"
    and "bos = m_ptr sp + length (takeWhile is_any_blank (drop (m_ptr sp) buf))"
    and "line = line_start (m_current_line sp) (drop (m_ptr sp) buf)"
    and "v = ref_lex a b f [] (drop bos buf) 0" and "v \<noteq> Special"
  shows "\<exists>out. next_range cb err sp st = Some out \<and> range_sim v out f buf bos (sp\<lparr>m_current_line := line\<rparr>) st"
proof -
  let ?sp = "sp\<lparr>m_current_line := line\<rparr>"
  let ?sc = "\<lparr>c_p = bos, c_bos = bos, c_eol = bos, c_next_bol = bos, c_line_count = 0,
     c_has_complete_line = False, c_has_newline = False, c_command = False, c_last_line_was_delimiter = False\<rparr>"
  have buf: "sp_buffer sp = buf" "m_end sp = length buf" "m_last_chunk sp = f"
    using assms(1) by (simp_all add: ready_def)
  have skip: "skip_lines buf (length buf) (m_ptr sp) (m_current_line sp) = (bos, line)"
    using assms(3-5) by (simp add: skip_lines_blank)
  have drop: "drop bos buf = dropWhile is_any_blank (drop (m_ptr sp) buf)"
    using assms(4) by (simp add: dropWhile_eq_drop add.commute)
  then have start: "bos < length buf \<longrightarrow> \<not> is_any_blank (at buf bos)"
    using hd_dropWhile [of is_any_blank "drop (m_ptr sp) buf"] at_drop_0 [of bos buf]
    by (metis at_0 drop_eq_Nil2 dropWhile_eq_Nil_conv hd_drop_conv_nth not_le at_def)
  have bos: "bos \<le> length buf"
    using assms(3,4) length_takeWhile_le [of is_any_blank "drop (m_ptr sp) buf"] by simp
  have "ready a b f buf ?sp"
    using assms(1) by (simp add: ready_def)
  then obtain out where out: "scan_lines cb err ?sc ?sp st = Some out" "found_sim v out f buf bos ?sp st"
    "v \<noteq> Runs_out \<Longrightarrow> \<nexists>sc sp st. out = Go sc sp st"
    using scan_lines_sim [of a b f buf ?sp ?sc v cb err st] bos start assms(2,6,7) by (auto simp: newlines_in_def newlines_def)
  have range: "next_range cb err sp st = Some (case out of Go sc sp' st' \<Rightarrow> finish_range sc sp' st' | _ \<Rightarrow> out)"
    using out(1) skip buf by (cases out) (simp_all add: next_range_def)
  show ?thesis
  proof (cases "v = Runs_out")
    case False
    then show ?thesis
      using range out(2,3) by (cases v; cases out) auto
  next
    case True
    from out(2) obtain sc ctx where bos': "c_bos sc = bos" and
      cases: "out = Go sc (?sp\<lparr>m_context := ctx\<rparr>) st \<or> \<not> f \<and> out = unfinished_stmt sc (?sp\<lparr>m_context := ctx\<rparr>) st"
      unfolding True found_sim.simps by blast
    then show ?thesis
      using range finish_range_sim [of ?sp buf f sc bos ctx st] unfinished_stmt_sim [of ?sp buf f sc bos ctx st] buf bos bos' True
      by (auto simp del: range_sim.simps simp: unfinished_stmt_def)
  qed
qed

section \<open>The reference on the rest of a script\<close>

lemma ref_split_blanks:
  assumes "list_all is_any_blank w"
  shows "ref_split a b (w @ s) line = ref_split a b s (line + newlines w)"
proof -
  have "dropWhile is_any_blank (w @ s) = dropWhile is_any_blank s"
    "takeWhile is_any_blank (w @ s) = w @ takeWhile is_any_blank s"
    using assms by (simp_all add: list_all_iff)
  then show ?thesis
    by (simp add: ref_split.simps [of a b "w @ s"] ref_split.simps [of a b s] line_start_def add.assoc del: dropWhile_eq_Nil_conv)
qed

lemma newlines_Nil [simp]: "newlines [] = 0"
  by (simp add: newlines_def)

lemma ref_split_Nil [simp]: "ref_split a b [] line = Some []"
  by (simp add: ref_split.simps)

lemma ref_split_start:
  assumes "t \<noteq> []" and "\<not> is_any_blank (hd t)"
  shows "ref_split a b t line =
    (case ref_lex a b True [] t 0 of
       Stmt_end k \<Rightarrow> map_option ((#) (take k t, '';'', line)) (ref_split a b (drop (k + 1) t) (line + newlines (take k t)))
     | Line_comment k m \<Rightarrow> map_option ((#) (take k t, [], line)) (ref_split a b (drop m t) (line + newlines (take m t)))
     | Runs_out \<Rightarrow> Some [(t, [], line)]
     | Special \<Rightarrow> None)"
proof -
  have "dropWhile is_any_blank t = t" "takeWhile is_any_blank t = []"
    using assms by (cases t; simp)+
  then show ?thesis
    using assms(1) by (simp add: ref_split.simps [of a b t] line_start_def newlines_def del: dropWhile_eq_Nil_conv)
qed

lemma ref_lex_comment_bound: "ref_lex a b f ctx s n = Line_comment k m \<Longrightarrow> k \<le> m"
proof (induction "length s" arbitrary: ctx s n rule: less_induct)
  case less
  then have s: "s \<noteq> []"
    by (auto simp: ref_lex.simps)
  show ?case
  proof (cases "ref_step a b f ctx s")
    case (Adv i ctx')
    then show ?thesis
      using less.hyps [of "drop (Suc i) s" ctx' "n + i + 1"] less.prems s by (simp add: ref_lex_Adv)
  qed (insert less.prems s, auto simp: ref_lex.simps [of a b f ctx s] line_size_def)
qed

section \<open>The loop over the chunks\<close>

lemma stream_loop_eof: "eof sp \<Longrightarrow> stream_loop n callback err sp stream old offset st = Some (Inr (sp, st))"
  by (subst stream_loop.simps) simp

lemma stream_loop_found:
  assumes "\<not> eof sp" and "next_range (stream_command collect_statement) (stream_error err) sp (results, False) =
      Some (Ret True rg (Some d) sp' (results, False))"
    and "r_offset rg + r_length rg \<le> length (sp_buffer sp')"
  shows "stream_loop n collect_statement err sp stream old offset (results, False) =
    stream_loop n collect_statement err sp' stream old offset
      (results @ [(take (r_length rg) (drop (r_offset rg) (sp_buffer sp')), d, r_line_num rg)], False)"
  using assms
  by (subst stream_loop.simps) (simp add: call_statement_def collect_statement_def slice_def take_drop Let_def)

lemma keep_unfinished_drop:
  assumes "r_offset rg \<le> length buf"
  shows "\<exists>offset'. keep_unfinished rg 0 buf offset = Inr (drop (r_offset rg) buf, offset')"
proof -
  have "map (at buf) [r_offset rg..<length buf] = drop (r_offset rg) buf"
    by (rule nth_equalityI) (auto simp: at_def)
  then show ?thesis
    using assms by (auto simp: keep_unfinished_def mem_move_def Let_def)
qed

definition feed_next :: "nat \<Rightarrow> string \<Rightarrow> string \<Rightarrow> splitter \<Rightarrow> splitter" where
  "feed_next n rest stream sp =
     (if length (take n stream) < n then feed (rest @ take n stream) sp else feed_chunk (rest @ take n stream) sp)"

lemma stream_loop_more:
  assumes "\<not> eof sp" and "\<not> stop" and "next_range (stream_command callback) (stream_error err) sp (t, stop) =
      Some (Ret False rg d sp' (t, stop))"
    and "\<not> (m_last_chunk sp' \<and> r_length rg > 0)" and "chunk_size sp' = old" and "r_offset rg \<le> length (sp_buffer sp')"
  shows "\<exists>offset'. stream_loop n callback err sp stream old offset (t, stop) =
    (let sp'' = feed_next n (drop (r_offset rg) (sp_buffer sp')) stream sp'
     in stream_loop n callback err sp'' (drop n stream) (chunk_size sp'') offset' (t, stop))"
proof -
  obtain offset' where "keep_unfinished rg (size_sub old (chunk_size sp')) (sp_buffer sp') offset =
      Inr (drop (r_offset rg) (sp_buffer sp'), offset')"
    using keep_unfinished_drop [OF assms(6)] assms(5) by (auto simp: size_sub_def)
  then show ?thesis
    using assms(1-4) by (subst stream_loop.simps) (auto simp: feed_next_def Let_def simp del: length_take)
qed

text \<open>A splitter between two ranges, with \<open>f\<close> for the last chunk, \<open>buf\<close> for the buffer and the stream behind it.\<close>

definition idle :: "bool \<Rightarrow> bool \<Rightarrow> bool \<Rightarrow> string \<Rightarrow> string \<Rightarrow> splitter \<Rightarrow> bool" where
  "idle a b f buf stream sp \<longleftrightarrow> ready a b f buf sp \<and> m_context sp = [] \<and> m_ptr sp \<le> length buf \<and> \<not> m_eof sp \<and>
     (f \<longrightarrow> stream = [])"

lemma idle_feed_next:
  assumes "idle a b False buf stream sp" and "sp' = sp\<lparr>m_context := ctx, m_ptr := ptr, m_current_line := line, m_eof := False\<rparr>"
    and "0 < n"
  shows "idle a b (length stream < n) (rest @ take n stream) (drop n stream) (feed_next n rest stream sp')"
    "m_ptr (feed_next n rest stream sp') = 0" "m_current_line (feed_next n rest stream sp') = line"
    "chunk_size (feed_next n rest stream sp') = length (rest @ take n stream)"
  using assms by (auto simp: idle_def ready_def feed_next_def feed_def feed_chunk_def chunk_size_def ctx_ok_def Let_def min_def)

lemma verdict_rest:
  assumes "f \<longrightarrow> stream = []" and "t \<noteq> []" and "ref_lex a b f [] t 0 \<noteq> Runs_out \<or> f"
  shows "ref_lex a b True [] (t @ stream) 0 = ref_lex a b f [] t 0"
  using assms ref_lex_prefix [of a b "[]" t 0 True stream] by (cases f) auto

lemma ref_split_rest:
  assumes "f \<longrightarrow> stream = []" and "t \<noteq> []" and "\<not> is_any_blank (hd t)" and "v = ref_lex a b f [] t 0" and "v \<noteq> Runs_out \<or> f"
  shows "ref_split a b (t @ stream) line =
    (case v of
       Stmt_end k \<Rightarrow>
         map_option ((#) (take k t, '';'', line)) (ref_split a b (drop (k + 1) t @ stream) (line + newlines (take k t)))
     | Line_comment k m \<Rightarrow>
         map_option ((#) (take k t, [], line)) (ref_split a b (drop m t @ stream) (line + newlines (take m t)))
     | Runs_out \<Rightarrow> Some [(t, [], line)]
     | Special \<Rightarrow> None)"
proof -
  have v: "ref_lex a b True [] (t @ stream) 0 = v"
    using verdict_rest [OF assms(1,2), of a b] assms(4,5) by simp
  have start: "t @ stream \<noteq> []" "\<not> is_any_blank (hd (t @ stream))"
    using assms(2,3) by simp_all
  note split = ref_split_start [OF start, of a b line, unfolded v]
  show ?thesis
  proof (cases v)
    case (Stmt_end k)
    then show ?thesis
      using ref_lex_bounds [of a b f "[]" t 0 k] assms(4) by (simp add: split)
  next
    case (Line_comment k m)
    then show ?thesis
      using ref_lex_bounds [of a b f "[]" t 0 0 k m] ref_lex_comment_bound [of a b f "[]" t 0 k m] assms(4)
      by (simp add: split)
  qed (insert split assms(1,5), auto)
qed

lemma idle_next:
  assumes "idle a b f buf stream sp"
    and "ref_split a b (drop (m_ptr sp) buf @ stream) (m_current_line sp) = Some rs"
  obtains bos line v out where "m_ptr sp \<le> bos" "bos \<le> length buf" "bos < length buf \<Longrightarrow> \<not> is_any_blank (hd (drop bos buf))"
    "v = ref_lex a b f [] (drop bos buf) 0" "v \<noteq> Special" "next_range cb err sp st = Some out"
    "range_sim v out f buf bos (sp\<lparr>m_current_line := line\<rparr>) st"
    "ref_split a b (drop bos buf @ stream) line = Some rs"
proof -
  let ?d = "drop (m_ptr sp) buf"
  define bos line v where "bos = m_ptr sp + length (takeWhile is_any_blank ?d)"
    and "line = line_start (m_current_line sp) ?d" and "v = ref_lex a b f [] (drop bos buf) 0"
  have sp: "ready a b f buf sp" "m_context sp = []" "m_ptr sp \<le> length buf" "f \<longrightarrow> stream = []"
    using assms(1) by (simp_all add: idle_def)
  have t: "drop bos buf = dropWhile is_any_blank ?d"
    by (simp add: bos_def dropWhile_eq_drop add.commute)
  have bos: "m_ptr sp \<le> bos" "bos \<le> length buf"
    using sp(3) length_takeWhile_le [of is_any_blank ?d] by (simp_all add: bos_def)
  have start: "\<not> is_any_blank (hd (drop bos buf))" if "bos < length buf"
    using that hd_dropWhile [of is_any_blank ?d] t by (metis drop_eq_Nil2 not_le)
  have split: "?d @ stream = takeWhile is_any_blank ?d @ drop bos buf @ stream"
    unfolding t by (simp flip: append_assoc)
  have "list_all is_any_blank (takeWhile is_any_blank ?d)"
    by (auto simp: list_all_iff dest: set_takeWhileD)
  then have rest: "ref_split a b (drop bos buf @ stream) line = Some rs"
    using assms(2) ref_split_blanks [of "takeWhile is_any_blank ?d" a b "drop bos buf @ stream" "m_current_line sp"]
    unfolding split line_def line_start_def by simp
  have special: "v \<noteq> Special"
  proof
    assume v: "v = Special"
    then have nonempty: "drop bos buf \<noteq> []"
      by (auto simp: v_def ref_lex.simps)
    then have "ref_lex a b True [] (drop bos buf @ stream) 0 = Special"
      using verdict_rest [OF sp(4) nonempty, of a b] v by (simp add: v_def)
    then show False
      using rest ref_split_start [of "drop bos buf @ stream" a b line] nonempty start by simp
  qed
  obtain out where "next_range cb err sp st = Some out" "range_sim v out f buf bos (sp\<lparr>m_current_line := line\<rparr>) st"
    using next_range_sim [OF sp(1-3) bos_def line_def v_def special, of cb err st] by blast
  then show thesis
    using that bos start v_def special rest by blast
qed

text \<open>The three ways in which a round of the loop goes on: an element in the buffer, the end of the script, a new chunk.\<close>

lemma loop_found:
  assumes "idle a b f buf stream sp" and "\<not> eof sp" and "next_range (stream_command collect_statement) (stream_error err) sp (results, False) =
      Some (Ret True \<lparr>r_offset = bos, r_length = k, r_line_num = line\<rparr> (Some d) sp' (results, False))"
    and "sp' = sp\<lparr>m_context := [], m_ptr := bos + m, m_current_line := line'\<rparr>" and "k \<le> m" and "bos + m \<le> length buf"
  shows "stream_loop n collect_statement err sp stream old offset (results, False) =
      stream_loop n collect_statement err sp' stream old offset (results @ [(take k (drop bos buf), d, line)], False)"
    "idle a b f buf stream sp'" "drop (m_ptr sp') buf = drop m (drop bos buf)"
  using stream_loop_found [OF assms(2,3)] assms(1,4-6) by (simp_all add: idle_def ready_def add.commute)

lemma loop_last:
  assumes "idle a b True buf stream sp" and "\<not> eof sp" and "next_range (stream_command collect_statement) (stream_error err) sp (results, False) = Some out"
    and "range_sim Runs_out out True buf bos (sp\<lparr>m_current_line := line\<rparr>) (results, False)" and "bos \<le> length buf" and "old = length buf"
  shows "\<exists>sp'. stream_loop n collect_statement err sp stream old offset (results, False) =
      Some (Inr (sp', results @ (if bos < length buf then [(drop bos buf, [], line)] else []), False))"
proof -
  have sp: "sp_buffer sp = buf" "m_end sp = length buf" "m_last_chunk sp"
    using assms(1) by (simp_all add: idle_def ready_def)
  obtain ctx ptr line' where out: "out = Ret (bos < length buf) \<lparr>r_offset = bos, r_length = length buf - bos, r_line_num = line\<rparr>
      (if bos < length buf then Some [] else None)
      (sp\<lparr>m_context := ctx, m_ptr := ptr, m_current_line := line', m_eof := m_eof sp \<or> \<not> bos < length buf\<rparr>) (results, False)"
    (is "_ = Ret _ ?rg _ ?sp _") and ptr: "bos < length buf \<longrightarrow> ptr = length buf"
    using assms(4) by auto
  show ?thesis
  proof (cases "bos < length buf")
    case True
    then have "eof ?sp"
      using ptr sp by (simp add: eof_def)
    then show ?thesis
      using stream_loop_found [OF assms(2), of err results ?rg "[]" ?sp n stream old offset] assms(3) out True sp
      by (auto simp: stream_loop_eof)
  next
    case False
    have "eof (feed_next n (drop bos buf) stream ?sp)"
      using False sp by (simp add: eof_def feed_next_def feed_def feed_chunk_def Let_def)
    moreover have "next_range (stream_command collect_statement) (stream_error err) sp (results, False) =
        Some (Ret False ?rg None ?sp (results, False))"
      using assms(3) out False by simp
    note stream_loop_more [OF assms(2) _ this, of old n stream offset]
    ultimately show ?thesis
      using False sp assms(5,6) by (auto simp: chunk_size_def Let_def stream_loop_eof)
  qed
qed

lemma loop_more:
  assumes "idle a b False buf stream sp" and "\<not> eof sp" and "next_range (stream_command collect_statement) (stream_error err) sp (results, False) = Some out"
    and "range_sim Runs_out out False buf bos (sp\<lparr>m_current_line := line\<rparr>) (results, False)" and "bos \<le> length buf" and "old = length buf" and "0 < n"
  shows "\<exists>offset' sp'. stream_loop n collect_statement err sp stream old offset (results, False) =
      stream_loop n collect_statement err sp' (drop n stream) (length (drop bos buf @ take n stream)) offset' (results, False) \<and>
    idle a b (length stream < n) (drop bos buf @ take n stream) (drop n stream) sp' \<and> m_ptr sp' = 0 \<and> m_current_line sp' = line"
proof -
  have sp: "sp_buffer sp = buf" "m_end sp = length buf" "\<not> m_last_chunk sp" "\<not> m_eof sp"
    using assms(1) by (simp_all add: idle_def ready_def)
  obtain ctx ptr where out: "out = Ret False \<lparr>r_offset = bos, r_length = length buf - bos, r_line_num = line\<rparr> None
      (sp\<lparr>m_context := ctx, m_ptr := ptr, m_current_line := line, m_eof := False\<rparr>) (results, False)" (is "_ = Ret _ ?rg _ ?sp _")
    using assms(4) sp by auto
  note fed = idle_feed_next [OF assms(1) refl assms(7), where rest = "drop bos buf" and ctx = ctx and ptr = ptr and line = line]
  show ?thesis
    using stream_loop_more [OF assms(2) _ assms(3) [unfolded out], of old n stream offset] fed sp assms(5,6)
    by (auto simp: chunk_size_def Let_def simp del: length_append)
qed

lemma stream_loop_sim:
  assumes "idle a b f buf stream sp" and "0 < n" and "old = length buf"
    and "ref_split a b (drop (m_ptr sp) buf @ stream) (m_current_line sp) = Some rs"
  shows "\<exists>sp'. stream_loop n collect_statement err sp stream old offset (results, False) =
      Some (Inr (sp', results @ rs, False))"
  using assms
proof (induction "2 * length stream + (length buf - m_ptr sp) + (if f then 0 else 1)"
    arbitrary: f buf stream sp old offset results rs rule: less_induct)
  case less
  note idle = less.prems(1) and n = less.prems(2) and old = less.prems(3)
  have sp: "m_end sp = length buf" "m_last_chunk sp = f" "\<not> m_eof sp" and f: "f \<longrightarrow> stream = []"
    using idle by (simp_all add: idle_def ready_def)
  show ?case
  proof (cases "eof sp")
    case True
    then have "rs = []"
      using less.prems(4) sp f by (simp add: eof_def)
    then show ?thesis
      using True by (simp add: stream_loop_eof)
  next
    case False
    obtain bos line v out where bos: "m_ptr sp \<le> bos" "bos \<le> length buf" "bos < length buf \<Longrightarrow> \<not> is_any_blank (hd (drop bos buf))"
      and v: "v = ref_lex a b f [] (drop bos buf) 0" "v \<noteq> Special"
      and out: "next_range (stream_command collect_statement) (stream_error err) sp (results, False) = Some out"
      "range_sim v out f buf bos (sp\<lparr>m_current_line := line\<rparr>) (results, False)"
      and rest: "ref_split a b (drop bos buf @ stream) line = Some rs"
      using idle_next [OF idle less.prems(4)] by metis
    let ?t = "drop bos buf"
    have v_end: "v = Runs_out" if "\<not> bos < length buf"
      using v that by (simp add: ref_lex.simps)
    note split = ref_split_rest [OF f _ bos(3) v(1), of line]
    have found: ?thesis if out': "out = Ret True \<lparr>r_offset = bos, r_length = k, r_line_num = line\<rparr> (Some d) sp' (results, False)"
      and sp': "sp' = sp\<lparr>m_context := [], m_ptr := bos + m, m_current_line := line'\<rparr>"
      and m: "0 < m" "k \<le> m" "bos + m \<le> length buf"
      and rs: "rs = (take k ?t, d, line) # rs'" "ref_split a b (drop m ?t @ stream) line' = Some rs'"
      for k m d sp' line' rs'
    proof -
      note loop = loop_found [OF idle False out(1) [unfolded out'] sp' m(2,3)]
      have "\<exists>sp2. stream_loop n collect_statement err sp' stream old offset (results @ [(take k ?t, d, line)], False) =
          Some (Inr (sp2, (results @ [(take k ?t, d, line)]) @ rs', False))"
        using m bos(1) rs(2) loop(3) by (intro less.hyps [OF _ loop(2) n old]) (simp_all add: sp')
      then show ?thesis
        unfolding loop(1) rs(1) by simp
    qed
    show ?thesis
    proof (cases v)
      case (Stmt_end k)
      then have "bos < length buf" and k: "k < length ?t"
        using v_end v ref_lex_bounds [of a b f "[]" ?t 0 k] by auto
      then obtain rs' where rs: "rs = (take k ?t, '';'', line) # rs'"
        "ref_split a b (drop (k + 1) ?t @ stream) (line + newlines (take k ?t)) = Some rs'"
        using rest split Stmt_end by auto
      have out': "out = Ret True \<lparr>r_offset = bos, r_length = k, r_line_num = line\<rparr> (Some '';'')
        (sp\<lparr>m_context := [], m_ptr := bos + (k + 1), m_current_line := line + newlines (take k ?t)\<rparr>) (results, False)"
        using out(2) Stmt_end by (simp add: newlines_in_def)
      show ?thesis
        using found [OF out' refl _ _ _ rs] k by simp
    next
      case (Line_comment k m)
      then have "bos < length buf" and m: "0 < m" "k \<le> m" "m \<le> length ?t"
        using v_end v ref_lex_bounds [of a b f "[]" ?t 0 0 k m] ref_lex_comment_bound [of a b f "[]" ?t 0 k m] by auto
      then obtain rs' where rs: "rs = (take k ?t, [], line) # rs'"
        "ref_split a b (drop m ?t @ stream) (line + newlines (take m ?t)) = Some rs'"
        using rest split Line_comment by auto
      from out(2) obtain line' where out': "out = Ret True \<lparr>r_offset = bos, r_length = k, r_line_num = line\<rparr> (Some [])
        (sp\<lparr>m_context := [], m_ptr := bos + m, m_current_line := line'\<rparr>) (results, False)"
        and line': "line' = line + newlines (take m ?t) \<or> f \<and> bos + m = length buf"
        by (auto simp: Line_comment newlines_in_def)
      have "ref_split a b (drop m ?t @ stream) line' = Some rs'"
        using line' rs(2) f by auto
      then show ?thesis
        using found [OF out' refl m(1,2) _ rs(1)] m(3) \<open>bos < length buf\<close> by simp
    next
      case Runs_out
      show ?thesis
      proof (cases f)
        case True
        have idle': "idle a b True buf stream sp"
          and out': "range_sim Runs_out out True buf bos (sp\<lparr>m_current_line := line\<rparr>) (results, False)"
          using idle out(2) True unfolding Runs_out by simp_all
        have "rs = (if bos < length buf then [(?t, [], line)] else [])"
          using rest split Runs_out True f bos(2) by (cases "bos < length buf") simp_all
        then show ?thesis
          using loop_last [OF idle' \<open>\<not> eof sp\<close> out(1) out' bos(2) old] by simp
      next
        case False
        then have idle': "idle a b False buf stream sp"
          and out': "range_sim Runs_out out False buf bos (sp\<lparr>m_current_line := line\<rparr>) (results, False)"
          using idle out(2) unfolding Runs_out by simp_all
        obtain offset' sp' where loop: "stream_loop n collect_statement err sp stream old offset (results, False) =
          stream_loop n collect_statement err sp' (drop n stream) (length (?t @ take n stream)) offset' (results, False)"
          and sp': "idle a b (length stream < n) (?t @ take n stream) (drop n stream) sp'" "m_ptr sp' = 0" "m_current_line sp' = line"
          using loop_more [OF idle' \<open>\<not> eof sp\<close> out(1) out' bos(2) old n] by blast
        then show ?thesis
          unfolding loop using rest n bos(1) False by (intro less.hyps [OF _ sp'(1)]) auto
      qed
    qed (insert v, simp)
  qed
qed

lemma idle_start:
  "sp = (Sql_splitter_new [''source''])\<lparr>m_ansi_quotes := a, m_no_backslash_escapes := b, m_dollar_quoted_strings := d\<rparr> \<Longrightarrow>
   idle a b False buf stream (feed_chunk buf sp) \<and> m_ptr (feed_chunk buf sp) = 0 \<and> m_current_line (feed_chunk buf sp) = 1"
  by (simp add: idle_def ready_def feed_chunk_def Sql_splitter_new_def reset_def source_table_def Let_def)

lemma split_sql_stream_ref:
  assumes "ref_split ansi nobs script 1 = Some rs" and "0 < n"
  shows "split_sql_stream script n err ansi nobs dollar None = Some (Inr rs)"
proof -
  define sp where "sp = (Sql_splitter_new [''source''])\<lparr>m_ansi_quotes := ansi, m_no_backslash_escapes := nobs,
    m_dollar_quoted_strings := dollar\<rparr>"
  let ?sp = "feed_chunk (take n script) sp"
  have start: "idle ansi nobs False (take n script) (drop n script) ?sp" "m_ptr ?sp = 0" "m_current_line ?sp = 1"
    using idle_start [OF sp_def, of "take n script" "drop n script"] by simp_all
  have "chunk_size ?sp = length (take n script)"
    by (simp add: chunk_size_def feed_chunk_def Let_def)
  then obtain sp' where "stream_loop n collect_statement err ?sp (drop n script) (chunk_size ?sp) 0 ([], False) =
      Some (Inr (sp', [] @ rs, False))"
    using stream_loop_sim [OF start(1) assms(2), of _ rs err 0 "[]"] start(2,3) assms(1) by auto
  then show ?thesis
    unfolding split_sql_stream_def iterate_sql_stream_def sp_def [symmetric] by simp
qed

section \<open>Properties\<close>

text \<open>
  C3. For every script in which the reference lexer meets no backslash command, dollar sign, \<open>DELIMITER\<close> or
  \<open>source\<close> command, and for every chunk size, \<open>split_sql_stream\<close> returns, with the statements, delimiters and
  line numbers of the reference: what it returns does not depend on where the chunks are cut.
\<close>

theorem split_sql_stream_correct:
  assumes "ref_split ansi_quotes no_backslash_escapes script 1 = Some statements" and "0 < csize"
  shows "split_sql_stream script csize err ansi_quotes no_backslash_escapes dollar_quoted_strings None =
    Some (Inr statements)"
  by (rule split_sql_stream_ref [OF assms])

definition sample_script :: string where
  "sample_script = ''SELECT '' @ [squote] @ '';'' @ [squote] @ '';'' @ [newline] @ ''# c'' @ [newline] @ ''SELECT /*;*/ 2''"

lemma sample_script_ref:
  "ref_split False False sample_script 1 =
     Some [(''SELECT '' @ [squote] @ '';'' @ [squote], '';'', 1), (''# c'', [], 2), (''SELECT /*;*/ 2'', [], 3)]"
  by code_simp

theorem split_sql_stream_correct_witness:
  "split_sql_stream sample_script 3 split_error False False True None =
     Some (Inr [(''SELECT '' @ [squote] @ '';'' @ [squote], '';'', 1), (''# c'', [], 2), (''SELECT /*;*/ 2'', [], 3)])"
  by (rule split_sql_stream_correct [OF sample_script_ref]) simp

text \<open>
  Where the reference leaves the result open: a \<open>source\<close> command is run in full when its line is in the buffer, but on the part before the
  cut when a chunk ends inside of the line; and after a backslash command in the middle of a line, as many characters of the next line as
  the command has are not looked at, so the semicolon at its start is no delimiter and two statements come out as one.
\<close>

lemma source_whole:
  "split_sql_stream (''source abcdefgh'' @ [newline]) 16 split_error False False True None =
     Some (Inr [(''source abcdefgh'' @ [newline], [], 1)])"
  by code_simp

lemma source_cut:
  "split_sql_stream (''source abcdefgh'' @ [newline]) 10 split_error False False True None =
     Some (Inr [(''source abc'', [], 1), (''defgh'' @ [newline], [], 1)])"
  by code_simp

lemma backslash_command_line:
  "split_sql_stream (''SELECT '' @ [backslash] @ ''w1'' @ [newline] @ '';SELECT 2;'') 100 split_error False False True None =
     Some (Inr [([backslash] @ ''w'', [], 1), (''SELECT 1'' @ [newline] @ '';SELECT 2'', '';'', 1)])"
  by code_simp

end
