(* ===== verification/Sql_Script_Values.thy ===== *)
theory Sql_Script_Values
  imports Sql_Script_Facts Sql_String_Facts
begin

text \<open>
  Scripts of statements that are built from texts, strings quoted by \<open>quote_sql_string\<close> and identifiers quoted by
  \<open>quote_identifier\<close>: the splitter gives these statements back, whatever the quoted values contain.
\<close>

section \<open>Definitions\<close>

definition script_char :: "char \<Rightarrow> bool" where
  "script_char c \<longleftrightarrow> plain_char c \<and> c \<noteq> CHR '';'' \<and> c \<noteq> backslash"

text \<open>The parts behind the start of a statement: no quoted value follows another directly.\<close>

fun script_parts :: "sql_part list \<Rightarrow> bool" where
  "script_parts [] = True"
| "script_parts (Plain p # ps) = (list_all script_char p \<and> script_parts ps)"
| "script_parts (Str v # ps) = ((case ps of [] \<Rightarrow> True | Plain (c # p) # _ \<Rightarrow> True | _ \<Rightarrow> False) \<and> script_parts ps)"
| "script_parts (Ident v # ps) = ((case ps of [] \<Rightarrow> True | Plain (c # p) # _ \<Rightarrow> True | _ \<Rightarrow> False) \<and> script_parts ps)"

definition stmt_text :: "sql_part list \<Rightarrow> string" where
  "stmt_text ps = concat (map part_text ps)"

fun statement_ok :: "sql_part list \<Rightarrow> bool" where
  "statement_ok (Plain (c # p) # ps) =
     (script_parts (Plain (c # p) # ps) \<and> \<not> is_any_blank c \<and>
      \<not> special False [] (stmt_text (Plain (c # p) # ps) @ '';''))"
| "statement_ok _ = False"

definition script_of :: "sql_part list list \<Rightarrow> string" where
  "script_of stmts = concat (map (\<lambda>ps. stmt_text ps @ '';'' @ [newline]) stmts)"

section \<open>The lexer on the parts\<close>

lemma lex_plain_char:
  assumes "script_char c" and "ctx = [kStatement]"
  shows "ref_lex a False f ctx (c # s) n = ref_lex a False f ctx s (n + 1)"
proof -
  have "ref_step a False f ctx (c # s) = Adv 0 ctx"
    using assms by (simp add: ref_step_def ref_text_def top_def special_def line_comment_def ref_plain_def script_char_def
        plain_char_def Let_def)
  then show ?thesis
    by (simp add: ref_lex_Adv)
qed

lemma lex_plain:
  "list_all script_char p \<Longrightarrow>
   ref_lex a False f [kStatement] (p @ s) n = ref_lex a False f [kStatement] s (n + length p)"
  by (induction p arbitrary: n) (simp_all add: lex_plain_char)

lemma lex_string_body:
  "ref_lex a False f (kSQuoteString # ctx) (escape_sql_string v False @ s) n =
   ref_lex a False f (kSQuoteString # ctx) s (n + length (escape_sql_string v False))"
proof (induction v arbitrary: n)
  case Nil
  then show ?case
    by (simp add: escape_sql_string_def)
next
  case (Cons c v)
  have esc: "escape_sql_string (c # v) False =
      (case sql_escape_char False c of Some e \<Rightarrow> [backslash, e] | None \<Rightarrow> [c]) @ escape_sql_string v False"
    by (simp add: escape_sql_string_def)
  show ?case
  proof (cases "sql_escape_char False c")
    case None
    then have "c \<noteq> squote" "c \<noteq> backslash"
      by (auto simp: sql_escape_char_def split: if_splits)
    then have "ref_step a False f (kSQuoteString # ctx) (c # w) = Adv 0 (kSQuoteString # ctx)" for w
      by (simp add: ref_step_def ref_quoted_def top_def)
    then show ?thesis
      using Cons None by (simp add: esc ref_lex_Adv)
  next
    case (Some e)
    have "ref_step a False f (kSQuoteString # ctx) (backslash # e # w) = Adv 1 (kSQuoteString # ctx)" for w
      by (simp add: ref_step_def ref_quoted_def top_def)
    then show ?thesis
      using Cons Some by (simp add: esc ref_lex_Adv)
  qed
qed

lemma lex_quote_end:
  assumes "top ctx = kSQuoteString \<and> q = squote \<or> top ctx = kBQuoteIdentifier \<and> q = backtick" and "at s 0 \<noteq> q"
  shows "ref_lex a b f ctx (q # s) n = ref_lex a b f (tl ctx) s (n + 1)"
proof -
  have "ref_step a b f ctx (q # s) = Adv 0 (tl ctx)"
    using assms by (auto simp: ref_step_def ref_quoted_def)
  then show ?thesis
    by (simp add: ref_lex_Adv)
qed

lemma lex_identifier_body:
  "ref_lex a b f (kBQuoteIdentifier # ctx) (doubled backtick v @ s) n =
   ref_lex a b f (kBQuoteIdentifier # ctx) s (n + length (doubled backtick v))"
proof (induction v arbitrary: n)
  case Nil
  then show ?case
    by (simp add: doubled_def)
next
  case (Cons c v)
  have step: "ref_step a b f (kBQuoteIdentifier # ctx) (backtick # backtick # w) = Adv 1 (kBQuoteIdentifier # ctx)"
    "c \<noteq> backtick \<Longrightarrow> ref_step a b f (kBQuoteIdentifier # ctx) (c # w) = Adv 0 (kBQuoteIdentifier # ctx)" for w
    by (simp_all add: ref_step_def ref_quoted_def top_def)
  have "doubled backtick (c # v) = (if c = backtick then [backtick, backtick] else [c]) @ doubled backtick v"
    by (simp add: doubled_def)
  then show ?case
    using Cons step by (simp add: ref_lex_Adv)
qed

lemma lex_quoted:
  assumes "at s 0 \<noteq> squote"
  shows "ref_lex a False f [kStatement] (quote_sql_string v @ s) n = ref_lex a False f [kStatement] s (n + length (quote_sql_string v))"
proof -
  have "ref_step a False f [kStatement] (squote # w) = Adv 0 [kSQuoteString, kStatement]" for w
    by (simp add: ref_step_def ref_text_def top_def special_def Let_def)
  then show ?thesis
    using lex_string_body [of a f "[kStatement]" v "squote # s"] lex_quote_end [OF _ assms, of "[kSQuoteString, kStatement]"]
    by (simp add: quote_sql_string_def ref_lex_Adv top_def)
qed

lemma lex_identifier:
  assumes "at s 0 \<noteq> backtick"
  shows "ref_lex a False f [kStatement] (quote_identifier v backtick @ s) n =
    ref_lex a False f [kStatement] s (n + length (quote_identifier v backtick))"
proof -
  have "ref_step a False f [kStatement] (backtick # w) = Adv 0 [kBQuoteIdentifier, kStatement]" for w
    by (simp add: ref_step_def ref_text_def top_def special_def Let_def)
  then show ?thesis
    using lex_identifier_body [of a False f "[kStatement]" v "backtick # s"]
      lex_quote_end [OF _ assms, of "[kBQuoteIdentifier, kStatement]"]
    by (simp add: quote_identifier_doubled ref_lex_Adv top_def)
qed

lemma lex_parts:
  "script_parts ps \<Longrightarrow> ref_lex a False f [kStatement] (stmt_text ps @ CHR '';'' # r) n = Stmt_end (n + length (stmt_text ps))"
proof (induction ps arbitrary: n rule: script_parts.induct)
  case 1
  have "ref_step a False f [kStatement] (CHR '';'' # r) = Stmt"
    by (simp add: ref_step_def ref_text_def top_def Let_def)
  then show ?case
    by (simp add: stmt_text_def ref_lex.simps)
next
  case (2 p ps)
  then show ?case
    by (simp add: stmt_text_def lex_plain)
next
  case (3 v ps)
  then have "at (stmt_text ps @ CHR '';'' # r) 0 \<noteq> squote"
    by (auto simp: stmt_text_def script_char_def plain_char_def split: list.splits sql_part.splits)
  then show ?case
    using 3 by (simp add: stmt_text_def lex_quoted)
next
  case (4 v ps)
  then have "at (stmt_text ps @ CHR '';'' # r) 0 \<noteq> backtick"
    by (auto simp: stmt_text_def script_char_def plain_char_def split: list.splits sql_part.splits)
  then show ?case
    using 4 by (simp add: stmt_text_def lex_identifier)
qed

lemma lex_statement:
  assumes "statement_ok ps"
  shows "ref_lex a False f [] (stmt_text ps @ CHR '';'' # r) 0 = Stmt_end (length (stmt_text ps))"
proof -
  from assms obtain c p qs where ps: "ps = Plain (c # p) # qs"
    by (cases ps rule: statement_ok.cases) auto
  have c: "script_char c" "\<not> is_any_blank c" "script_parts (Plain p # qs)" "\<not> special False [] (stmt_text ps @ '';'')"
    using assms by (simp_all add: ps)
  have "\<not> special False [] (stmt_text ps @ CHR '';'' # r)"
    using special_prefix [of "stmt_text ps @ '';''" False "[]" r] c(4) by (auto simp: isalpha_def)
  then have "ref_step a False f [] (c # stmt_text (Plain p # qs) @ CHR '';'' # r) = Adv 0 [kStatement]"
    using c by (simp add: ps stmt_text_def ref_step_def ref_text_def top_def line_comment_def ref_plain_def script_char_def
        plain_char_def Let_def)
  moreover have "stmt_text ps = c # stmt_text (Plain p # qs)"
    by (simp add: ps stmt_text_def)
  ultimately show ?thesis
    using lex_parts [OF c(3), of a f r 1] by (simp add: ref_lex_Adv)
qed

text \<open>The statements with the numbers of their first lines.\<close>

fun numbered :: "nat \<Rightarrow> sql_part list list \<Rightarrow> (string \<times> string \<times> nat) list" where
  "numbered line [] = []"
| "numbered line (ps # stmts) = (stmt_text ps, '';'', line) # numbered (line + newlines (stmt_text ps) + 1) stmts"

lemma ref_split_script:
  "list_all statement_ok stmts \<Longrightarrow> ref_split a False (script_of stmts) line = Some (numbered line stmts)"
proof (induction stmts arbitrary: line)
  case Nil
  then show ?case
    by (simp add: script_of_def)
next
  case (Cons ps stmts)
  let ?s = "stmt_text ps" and ?r = "newline # script_of stmts"
  have script: "script_of (ps # stmts) = ?s @ CHR '';'' # ?r"
    by (simp add: script_of_def)
  have ok: "statement_ok ps"
    using Cons.prems by simp
  then have start: "?s @ CHR '';'' # ?r \<noteq> []" "\<not> is_any_blank (hd (?s @ CHR '';'' # ?r))"
    by (cases ps rule: statement_ok.cases; simp add: stmt_text_def)+
  have "ref_split a False ?r l = ref_split a False (script_of stmts) (l + 1)" for l
    using ref_split_blanks [of "[newline]" a False "script_of stmts" l] by (simp add: is_any_blank_def newlines_def)
  then show ?case
    using ref_split_start [OF start, of a False line] lex_statement [OF ok, of a True ?r] Cons by (simp add: script)
qed

section \<open>Properties\<close>

text \<open>
  C4. A script of statements that are built from plain texts, values quoted by \<open>quote_sql_string\<close> and names
  quoted by \<open>quote_identifier\<close> is split into exactly these statements, for every chunk size: no value or name, whatever
  delimiters, quotes, comment signs, backslashes or newlines it contains, ends its statement or joins it with the next.
\<close>

theorem split_formatted_statements:
  assumes "list_all statement_ok stmts" and "0 < csize"
  shows "split_sql_stream (script_of stmts) csize err ansi_quotes False dollar_quoted_strings None =
    Some (Inr (numbered 1 stmts))"
  using assms by (intro split_sql_stream_ref ref_split_script)

definition sample_statements :: "sql_part list list" where
  "sample_statements =
     [[Plain ''SELECT '', Str ([squote, backslash] @ ''; DROP TABLE t; -- ''), Plain '' FROM '', Ident (''a;'' @ [backtick])],
      [Plain ''SELECT 2'']]"

lemma sample_statements_ok: "list_all statement_ok sample_statements"
  by code_simp

theorem split_formatted_statements_witness:
  "split_sql_stream (script_of sample_statements) 7 split_error False False True None = Some (Inr (numbered 1 sample_statements))"
  by (rule split_formatted_statements [OF sample_statements_ok]) simp

end
