(* ===== verification/Import_Dialect.thy ===== *)
theory Import_Dialect
  imports Sql_String_Facts
begin

text \<open>
  \<open>Dialect\<close> of \<^verbatim>\<open>modules/util/import_table/dialect.{h,cc}\<close>: the field and line options of \<^verbatim>\<open>LOAD DATA\<close>.
\<close>

section \<open>Definitions\<close>

record Dialect =
  lines_terminated_by :: string
  fields_escaped_by :: string
  fields_terminated_by :: string
  fields_enclosed_by :: string
  fields_optionally_enclosed :: bool
  lines_starting_by :: string

definition dialect_default :: Dialect where
  "dialect_default =
     \<lparr>lines_terminated_by = [newline], fields_escaped_by = [backslash], fields_terminated_by = [CHR 0x09],
      fields_enclosed_by = [], fields_optionally_enclosed = False, lines_starting_by = []\<rparr>"

definition dialect_json :: Dialect where
  "dialect_json =
     \<lparr>lines_terminated_by = [newline], fields_escaped_by = [], fields_terminated_by = [newline],
      fields_enclosed_by = [], fields_optionally_enclosed = False, lines_starting_by = []\<rparr>"

definition dialect_csv :: Dialect where
  "dialect_csv =
     \<lparr>lines_terminated_by = [CHR 0x0D, newline], fields_escaped_by = [backslash], fields_terminated_by = '','',
      fields_enclosed_by = [dquote], fields_optionally_enclosed = True, lines_starting_by = []\<rparr>"

definition dialect_tsv :: Dialect where
  "dialect_tsv = dialect_csv\<lparr>fields_terminated_by := [CHR 0x09]\<rparr>"

definition dialect_csv_unix :: Dialect where
  "dialect_csv_unix =
     \<lparr>lines_terminated_by = [newline], fields_escaped_by = [backslash], fields_terminated_by = '','',
      fields_enclosed_by = [dquote], fields_optionally_enclosed = False, lines_starting_by = []\<rparr>"

definition set_dialect :: "string \<Rightarrow> Dialect \<Rightarrow> Dialect res" where
  "set_dialect name d =
     (if name = [] then Inr d
      else if str_caseeq name ''default'' then Inr d
      else if str_caseeq name ''csv'' then Inr dialect_csv
      else if str_caseeq name ''tsv'' then Inr dialect_tsv
      else if str_caseeq name ''json'' then Inr dialect_json
      else if str_caseeq name ''csv-unix'' then Inr dialect_csv_unix
      else Inl (Argument_error ''dialect value must be default, csv, tsv, json or csv-unix.''))"

definition dialect_eq :: "Dialect \<Rightarrow> Dialect \<Rightarrow> bool" where
  "dialect_eq a b \<longleftrightarrow>
     lines_terminated_by a = lines_terminated_by b \<and> fields_escaped_by a = fields_escaped_by b \<and>
     fields_terminated_by a = fields_terminated_by b \<and> fields_enclosed_by a = fields_enclosed_by b \<and>
     fields_optionally_enclosed a = fields_optionally_enclosed b \<and> lines_starting_by a = lines_starting_by b"

definition BUFFER_SIZE :: nat where
  "BUFFER_SIZE = 65536"

definition dialect_validate :: "Dialect \<Rightarrow> unit res" where
  "dialect_validate d =
     (if \<not> length (lines_terminated_by d) div 2 < BUFFER_SIZE
      then Inl (Invalid_argument ''Line terminator string is too long.'')
      else if 1 < length (fields_escaped_by d)
      then Inl (Invalid_argument ''fieldsEscapedBy must be empty or a char.'')
      else if lines_terminated_by d \<noteq> [] \<and> fields_escaped_by d \<noteq> [] \<and>
              find_sub (lines_terminated_by d) (fields_escaped_by d) 0 = Some 0
      then Inl (Invalid_argument ''Separators cannot be the same or be a prefix of another.'')
      else if 1 < length (fields_enclosed_by d)
      then Inl (Invalid_argument ''fieldsEnclosedBy must be empty or a char.'')
      else if fields_optionally_enclosed d \<and> fields_enclosed_by d = []
      then Inl (Invalid_argument ''fieldsEnclosedBy must be set if fieldsOptionallyEnclosed is true.'')
      else if fields_terminated_by d = [] \<and> fields_enclosed_by d = []
      then Inl (Invalid_argument (''The fieldsTerminatedBy and fieldsEnclosedBy are both empty, resulting '' @
             ''in a fixed-row format. This is currently not supported.''))
      else Inr ())"

definition on_unpacked_options :: "Dialect \<Rightarrow> Dialect res" where
  "on_unpacked_options d =
     bind_res (dialect_validate d) (\<lambda>_.
       Inr (if lines_terminated_by d = [] \<and> fields_terminated_by d \<noteq> []
            then d\<lparr>lines_terminated_by := fields_terminated_by d\<rparr> else d))"

text \<open>\<^verbatim>\<open>(sqlstring(format, 0) << v1 << v2 ...).str()\<close>\<close>

definition sql_text :: "string \<Rightarrow> string list \<Rightarrow> string res" where
  "sql_text format vs =
     bind_res (sqlstring_new format False) (\<lambda>q. bind_res (put_args (map String_arg vs) q) sqlstring_str)"

definition build_sql :: "Dialect \<Rightarrow> string res" where
  "build_sql d =
     bind_res (sql_text ''FIELDS TERMINATED BY ?'' [fields_terminated_by d]) (\<lambda>terminated.
     bind_res (if fields_enclosed_by d \<noteq> []
               then bind_res (sql_text '' ENCLOSED BY ?'' [fields_enclosed_by d]) (\<lambda>enclosed.
                      Inr ((if fields_optionally_enclosed d then '' OPTIONALLY'' else []) @ enclosed))
               else Inr []) (\<lambda>enclosed.
     bind_res (sql_text '' ESCAPED BY ? LINES STARTING BY ? TERMINATED BY ?''
                 [fields_escaped_by d, lines_starting_by d, lines_terminated_by d]) (\<lambda>rest.
       Inr (terminated @ enclosed @ rest))))"

section \<open>Facts\<close>

lemma sql_text_parts:
  assumes "list_all format_ok ps" and "concat (map part_format ps) = format" and "concat (map part_args ps) = map String_arg vs"
  shows "sql_text format vs = Inr (concat (map part_text ps))"
proof -
  have "sqlformat format (map String_arg vs) = Inr (concat (map part_text ps))"
    using sqlformat_parts [OF assms(1)] assms(2,3) by simp
  then show ?thesis
    unfolding sqlformat_def sql_text_def
    by (auto simp: bind_res_def sqlstring_done_def sqlstring_str_def split: sum.splits if_splits)
qed

lemma build_sql_text:
  "build_sql d =
     Inr (''FIELDS TERMINATED BY '' @ quote_sql_string (fields_terminated_by d) @
          (if fields_enclosed_by d = [] then []
           else (if fields_optionally_enclosed d then '' OPTIONALLY'' else []) @ '' ENCLOSED BY '' @
                quote_sql_string (fields_enclosed_by d)) @
          '' ESCAPED BY '' @ quote_sql_string (fields_escaped_by d) @
          '' LINES STARTING BY '' @ quote_sql_string (lines_starting_by d) @
          '' TERMINATED BY '' @ quote_sql_string (lines_terminated_by d))"
proof -
  have "sql_text ''FIELDS TERMINATED BY ?'' [v] = Inr (''FIELDS TERMINATED BY '' @ quote_sql_string v)" for v
    by (subst sql_text_parts [of "[Plain ''FIELDS TERMINATED BY '', Str v]"]) (simp_all add: format_char_def plain_char_def)
  moreover have "sql_text '' ENCLOSED BY ?'' [v] = Inr ('' ENCLOSED BY '' @ quote_sql_string v)" for v
    by (subst sql_text_parts [of "[Plain '' ENCLOSED BY '', Str v]"]) (simp_all add: format_char_def plain_char_def)
  moreover have "sql_text '' ESCAPED BY ? LINES STARTING BY ? TERMINATED BY ?'' [u, v, w] =
      Inr ('' ESCAPED BY '' @ quote_sql_string u @ '' LINES STARTING BY '' @ quote_sql_string v @
        '' TERMINATED BY '' @ quote_sql_string w)" for u v w
    by (subst sql_text_parts [of "[Plain '' ESCAPED BY '', Str u, Plain '' LINES STARTING BY '', Str v, Plain '' TERMINATED BY '', Str w]"])
      (simp_all add: format_char_def plain_char_def)
  ultimately show ?thesis
    by (simp add: build_sql_def)
qed

end
