(* ===== verification/Import_Scanner.thy ===== *)
theory Import_Scanner
  imports Import_Dialect
begin

text \<open>
  \<open>Scanner\<close> of \<^verbatim>\<open>modules/util/import_table/scanner.cc\<close>, which finds the starts of rows in a file that is read block by
  block. Sequences that are cut by the end of a block are kept on a stack of characters to be read again.

  An \<^verbatim>\<open>int\<close> that holds a character or one of the two markers is a \<open>chr_int\<close>. The stack has its top at the head, and
  \<open>m_stack_overflow\<close> tells whether the assertion of \<open>unget\<close> has failed. The data of a block is the part that has not been
  read, so \<^verbatim>\<open>m_length\<close> is its length. \<^verbatim>\<open>m_end_of_block\<close> and \<^verbatim>\<open>m_found_enclosed_char\<close>, which the constructor leaves
  uninitialised, are written before they are read; they start with fixed values.
\<close>

section \<open>Definitions\<close>

datatype chr_int = Ch char | k_not_used | k_end_of_block

text \<open>The conversion of an \<^verbatim>\<open>int\<close> to \<^verbatim>\<open>char\<close>: the low byte.\<close>

fun to_char :: "chr_int \<Rightarrow> char" where
  "to_char (Ch c) = c"
| "to_char k_not_used = CHR 0xFF"
| "to_char k_end_of_block = nul"

definition first_char :: "string \<Rightarrow> chr_int" where
  "first_char s = (if 0 < length s then Ch (hd s) else k_not_used)"

definition chr_used :: "chr_int \<Rightarrow> bool" where
  "chr_used c \<longleftrightarrow> k_not_used \<noteq> c"

text \<open>A \<^verbatim>\<open>Sequence\<close> is its text; its first character is \<open>k_not_used\<close> when it is empty.\<close>

type_synonym Sequence = string

definition seq_used :: "Sequence \<Rightarrow> bool" where
  "seq_used s \<longleftrightarrow> chr_used (first_char s)"

datatype Row_status = BEGIN | PREFIX | BEGIN_OF_FIELD | FIELD

datatype Field_status = CONTINUED | END_OF_FIELD | END_OF_LINE

record scanner =
  m_skip_rows :: nat
  m_fields_terminated_by :: Sequence
  m_lines_starting_by :: Sequence
  m_lines_terminated_by :: Sequence
  m_enclosed_char :: chr_int
  m_escaped_char :: chr_int
  m_stack :: string
  m_stack_size :: nat
  m_stack_overflow :: bool
  m_data :: string
  m_end_of_block :: bool
  m_status :: Row_status
  m_found_enclosed_char :: chr_int

definition Scanner_new :: "Dialect \<Rightarrow> nat \<Rightarrow> scanner res" where
  "Scanner_new dialect skip_rows =
     (if lines_terminated_by dialect = [] \<or> lines_terminated_by dialect = fields_terminated_by dialect
      then Inl (Invalid_argument (''Scanner: unsupported LINES TERMINATED BY: '' @ [squote] @ lines_terminated_by dialect @ [squote]))
      else
        (let f = fields_terminated_by dialect; s = lines_starting_by dialect; l = lines_terminated_by dialect in
         Inr \<lparr>m_skip_rows = skip_rows, m_fields_terminated_by = f, m_lines_starting_by = s, m_lines_terminated_by = l,
           m_enclosed_char = first_char (fields_enclosed_by dialect), m_escaped_char = first_char (fields_escaped_by dialect),
           m_stack = [],
           m_stack_size = max (length f + 1) (max (length s) (length l + 1)),
           m_stack_overflow = False, m_data = [], m_end_of_block = False, m_status = BEGIN,
           m_found_enclosed_char = k_not_used\<rparr>))"

subsection \<open>Characters\<close>

definition get :: "scanner \<Rightarrow> chr_int \<times> scanner" where
  "get sc =
     (case m_stack sc of
        c # st \<Rightarrow> (Ch c, sc\<lparr>m_stack := st\<rparr>)
      | [] \<Rightarrow>
          (case m_data sc of
             c # d \<Rightarrow> (Ch c, sc\<lparr>m_data := d\<rparr>)
           | [] \<Rightarrow> (k_end_of_block, sc\<lparr>m_end_of_block := True\<rparr>)))"

definition unget :: "char \<Rightarrow> scanner \<Rightarrow> scanner" where
  "unget c sc =
     sc\<lparr>m_stack := c # m_stack sc,
        m_stack_overflow := m_stack_overflow sc \<or> \<not> length (m_stack sc) < m_stack_size sc\<rparr>"

text \<open>\<open>contains\<close>: the loop gives the index at which it stopped, and the last character it read.\<close>

function contains_loop :: "string \<Rightarrow> nat \<Rightarrow> chr_int \<Rightarrow> scanner \<Rightarrow> nat \<times> chr_int \<times> scanner" where
  "contains_loop s i chr sc =
     (if i < length s
      then (case get sc of
              (chr', sc') \<Rightarrow> if chr' \<noteq> Ch (s ! i) then (i, chr', sc') else contains_loop s (i + 1) chr' sc')
      else (i, chr, sc))"
  by pat_completeness auto
termination
  by (relation "measure (\<lambda>(s, i, _). length s - i)") auto

declare contains_loop.simps [simp del]

definition contains_seq :: "Sequence \<Rightarrow> scanner \<Rightarrow> bool \<times> scanner" where
  "contains_seq s sc =
     (case contains_loop s 1 (Ch nul) sc of
        (i, chr, sc') \<Rightarrow>
          if length s = i then (True, sc')
          else
            (let sc'' = (if \<not> m_end_of_block sc' then unget (to_char chr) sc' else sc')
             in (False, fold unget (rev (take (i - 1) (tl s))) sc'')))"

subsection \<open>Rows\<close>

text \<open>
  The loops run while there is data in the block. A round of a loop goes on or returns; a loop that would not end has
  no result.
\<close>

datatype 'a round = Again scanner | Stop 'a scanner

definition skip_row_round :: "scanner \<Rightarrow> bool round" where
  "skip_row_round sc =
     (case get sc of
        (chr, sc1) \<Rightarrow>
          if chr = m_escaped_char sc
          then (case get sc1 of
                  (_, sc2) \<Rightarrow> Again (if m_end_of_block sc2 then unget (to_char (m_escaped_char sc)) sc2 else sc2))
          else (case (if chr = first_char (m_lines_terminated_by sc) then contains_seq (m_lines_terminated_by sc) sc1
                      else (False, sc1)) of
                  (found, sc2) \<Rightarrow>
                    if found then Stop True sc2
                    else Again (if m_end_of_block sc2 then unget (to_char chr) sc2 else sc2)))"

partial_function (option) skip_row :: "scanner \<Rightarrow> (bool \<times> scanner) option" where
  "skip_row sc =
     (if m_data sc \<noteq> []
      then (case skip_row_round sc of Again sc' \<Rightarrow> skip_row sc' | Stop r sc' \<Rightarrow> Some (r, sc'))
      else Some (False, sc))"

declare skip_row.simps [code]

definition line_start_round :: "scanner \<Rightarrow> bool round" where
  "line_start_round sc =
     (case get sc of
        (chr, sc1) \<Rightarrow>
          (case (if chr = first_char (m_lines_starting_by sc) then contains_seq (m_lines_starting_by sc) sc1
                 else (False, sc1)) of
             (found, sc2) \<Rightarrow>
               if found then Stop True sc2
               else Again (if m_end_of_block sc2 then unget (to_char chr) sc2 else sc2)))"

partial_function (option) line_start_loop :: "scanner \<Rightarrow> (bool \<times> scanner) option" where
  "line_start_loop sc =
     (if m_data sc \<noteq> []
      then (case line_start_round sc of Again sc' \<Rightarrow> line_start_loop sc' | Stop r sc' \<Rightarrow> Some (r, sc'))
      else Some (False, sc))"

declare line_start_loop.simps [code]

definition skip_line_start :: "scanner \<Rightarrow> (bool \<times> scanner) option" where
  "skip_line_start sc = (if \<not> seq_used (m_lines_starting_by sc) then Some (True, sc) else line_start_loop sc)"

subsection \<open>Fields\<close>

text \<open>
  The end of a field or line at a character: \<open>status\<close> when the sequence follows, the characters \<open>back\<close> are put back when
  the block ends before it is complete, and otherwise \<open>go_on\<close>.
\<close>

definition try_end ::
  "chr_int \<Rightarrow> Sequence \<Rightarrow> Field_status \<Rightarrow> chr_int list \<Rightarrow> (scanner \<Rightarrow> Field_status round) \<Rightarrow> scanner \<Rightarrow> Field_status round"
where
  "try_end chr s status back go_on sc =
     (if chr = first_char s
      then (case contains_seq s sc of
              (found, sc') \<Rightarrow>
                if found then Stop status sc'
                else if m_end_of_block sc' then Stop CONTINUED (fold unget (map to_char back) sc')
                else go_on sc')
      else go_on sc)"

definition field_enclosed :: "scanner \<Rightarrow> Field_status round" where
  "field_enclosed sc =
     (let enc = m_found_enclosed_char sc in
      case get sc of
        (chr, sc1) \<Rightarrow>
          if m_end_of_block sc1 then Stop CONTINUED (unget (to_char enc) sc1)
          else if chr = enc then Again sc1
          else try_end chr (m_lines_terminated_by sc) END_OF_LINE [chr, enc]
                 (try_end chr (m_fields_terminated_by sc) END_OF_FIELD [chr, enc]
                    (\<lambda>sc2. Again (unget (to_char chr) sc2))) sc1)"

definition field_rest :: "chr_int \<Rightarrow> scanner \<Rightarrow> Field_status round" where
  "field_rest chr sc =
     (if chr = m_found_enclosed_char sc then field_enclosed sc
      else if \<not> chr_used (m_found_enclosed_char sc)
      then try_end chr (m_fields_terminated_by sc) END_OF_FIELD [chr] Again sc
      else Again sc)"

definition field_char :: "chr_int \<Rightarrow> scanner \<Rightarrow> Field_status round" where
  "field_char chr sc =
     (if \<not> chr_used (m_found_enclosed_char sc)
      then try_end chr (m_lines_terminated_by sc) END_OF_LINE [chr] (field_rest chr) sc
      else field_rest chr sc)"

definition field_round :: "scanner \<Rightarrow> Field_status round" where
  "field_round sc =
     (let esc = m_escaped_char sc in
      case get sc of
        (chr, sc1) \<Rightarrow>
          if chr = esc
          then (case get sc1 of
                  (chr', sc2) \<Rightarrow>
                    if m_end_of_block sc2 then Stop CONTINUED (unget (to_char esc) sc2)
                    else if esc \<noteq> m_enclosed_char sc \<or> chr' = esc then Again sc2
                    else field_char esc (unget (to_char chr') sc2))
          else field_char chr sc1)"

partial_function (option) scan_field :: "scanner \<Rightarrow> (Field_status \<times> scanner) option" where
  "scan_field sc =
     (if m_data sc \<noteq> []
      then (case field_round sc of Again sc' \<Rightarrow> scan_field sc' | Stop r sc' \<Rightarrow> Some (r, sc'))
      else Some (CONTINUED, sc))"

declare scan_field.simps [code]

subsection \<open>Blocks\<close>

text \<open>The loop over the rows to skip: whether all of them have been skipped.\<close>

partial_function (option) skip_rows_loop :: "scanner \<Rightarrow> (bool \<times> scanner) option" where
  "skip_rows_loop sc =
     (if m_skip_rows sc > 0
      then (case skip_row sc of
              None \<Rightarrow> None
            | Some (found, sc') \<Rightarrow>
                if found then skip_rows_loop (sc'\<lparr>m_skip_rows := m_skip_rows sc' - 1\<rparr>) else Some (False, sc'))
      else Some (True, sc))"

declare skip_rows_loop.simps [code]

definition begin_of_field :: "scanner \<Rightarrow> scanner" where
  "begin_of_field sc =
     (case get sc of
        (chr, sc1) \<Rightarrow>
          (if chr = m_enclosed_char sc then sc1\<lparr>m_found_enclosed_char := chr\<rparr>
           else unget (to_char chr) (sc1\<lparr>m_found_enclosed_char := k_not_used\<rparr>))\<lparr>m_status := FIELD\<rparr>)"

partial_function (option) rows_loop :: "nat \<Rightarrow> int \<Rightarrow> scanner \<Rightarrow> (int \<times> scanner) option" where
  "rows_loop len first_row sc =
     (if m_data sc \<noteq> []
      then (case m_status sc of
              BEGIN \<Rightarrow>
                rows_loop len (if first_row = - 1 then int (len - length (m_data sc)) else first_row) (sc\<lparr>m_status := PREFIX\<rparr>)
            | PREFIX \<Rightarrow>
                (case skip_line_start sc of
                   None \<Rightarrow> None
                 | Some (found, sc') \<Rightarrow>
                     if \<not> found then Some (first_row, sc') else rows_loop len first_row (sc'\<lparr>m_status := BEGIN_OF_FIELD\<rparr>))
            | BEGIN_OF_FIELD \<Rightarrow> rows_loop len first_row (begin_of_field sc)
            | FIELD \<Rightarrow>
                (case scan_field sc of
                   None \<Rightarrow> None
                 | Some (CONTINUED, sc') \<Rightarrow> rows_loop len first_row sc'
                 | Some (END_OF_FIELD, sc') \<Rightarrow> rows_loop len first_row (sc'\<lparr>m_status := BEGIN_OF_FIELD\<rparr>)
                 | Some (END_OF_LINE, sc') \<Rightarrow> rows_loop len first_row (sc'\<lparr>m_status := BEGIN\<rparr>)))
      else Some (first_row, sc))"

declare rows_loop.simps [code]

definition scan_block :: "string \<Rightarrow> scanner \<Rightarrow> (int \<times> scanner) option" where
  "scan_block data sc =
     (case skip_rows_loop (sc\<lparr>m_data := data, m_end_of_block := False\<rparr>) of
        None \<Rightarrow> None
      | Some (skipped, sc') \<Rightarrow> if \<not> skipped then Some (- 1, sc') else rows_loop (length data) (- 1) sc')"

end
