(* ===== verification/Import_Rows.thy ===== *)
theory Import_Rows
  imports Import_Scanner "HOL-Library.Sublist"
begin

text \<open>
  The rows of a whole file, without blocks and without a stack: a round of a field consumes a number of characters and
  goes on, ends the field or ends the row.
\<close>

section \<open>Definitions\<close>

datatype field_end = Go_on | Field_ends | Row_ends

text \<open>The sequence follows; an empty sequence is not used.\<close>

definition follows :: "string \<Rightarrow> string \<Rightarrow> bool" where
  "follows s r \<longleftrightarrow> s \<noteq> [] \<and> prefix s r"

text \<open>A field in which \<open>enc\<close> is the enclosing character, if there is one; the rest starts with the character \<open>c\<close>.\<close>

definition ref_char :: "Dialect \<Rightarrow> char option \<Rightarrow> char \<Rightarrow> string \<Rightarrow> field_end \<times> nat" where
  "ref_char d enc c r =
     (case enc of
        None \<Rightarrow>
          if follows (lines_terminated_by d) (c # r) then (Row_ends, length (lines_terminated_by d))
          else if follows (fields_terminated_by d) (c # r) then (Field_ends, length (fields_terminated_by d))
          else (Go_on, 1)
      | Some e \<Rightarrow>
          if c \<noteq> e then (Go_on, 1)
          else if r \<noteq> [] \<and> hd r = e then (Go_on, 2)
          else if follows (lines_terminated_by d) r then (Row_ends, 1 + length (lines_terminated_by d))
          else if follows (fields_terminated_by d) r then (Field_ends, 1 + length (fields_terminated_by d))
          else (Go_on, 1))"

definition ref_round :: "Dialect \<Rightarrow> char option \<Rightarrow> string \<Rightarrow> field_end \<times> nat" where
  "ref_round d enc r =
     (if first_char (fields_escaped_by d) = Ch (hd r) \<and>
         (first_char (fields_escaped_by d) \<noteq> first_char (fields_enclosed_by d) \<or> (tl r \<noteq> [] \<and> hd (tl r) = hd r))
      then (Go_on, 2)
      else ref_char d enc (hd r) (tl r))"

lemma ref_round_pos: "(x, n) = ref_round d enc r \<Longrightarrow> 0 < n"
  by (auto simp: ref_round_def ref_char_def follows_def split: option.splits if_splits)

fun status_rank :: "Row_status \<Rightarrow> nat" where
  "status_rank BEGIN = 3"
| "status_rank PREFIX = 2"
| "status_rank BEGIN_OF_FIELD = 1"
| "status_rank FIELD = 0"

text \<open>The starts of rows, each as the number of characters from there to the end of the file.\<close>

function rows :: "Dialect \<Rightarrow> Row_status \<Rightarrow> char option \<Rightarrow> string \<Rightarrow> nat list" where
  "rows d status enc r =
     (case status of
        BEGIN \<Rightarrow> if r = [] then [] else length r # rows d PREFIX enc r
      | PREFIX \<Rightarrow>
          if lines_starting_by d = [] then rows d BEGIN_OF_FIELD enc r
          else if r = [] then []
          else if prefix (lines_starting_by d) r then rows d BEGIN_OF_FIELD enc (drop (length (lines_starting_by d)) r)
          else rows d PREFIX enc (tl r)
      | BEGIN_OF_FIELD \<Rightarrow>
          if r = [] then []
          else if first_char (fields_enclosed_by d) = Ch (hd r) then rows d FIELD (Some (hd r)) (tl r)
          else rows d FIELD None r
      | FIELD \<Rightarrow>
          if r = [] then []
          else (case ref_round d enc r of
                  (Go_on, n) \<Rightarrow> rows d FIELD enc (drop n r)
                | (Field_ends, n) \<Rightarrow> rows d BEGIN_OF_FIELD enc (drop n r)
                | (Row_ends, n) \<Rightarrow> rows d BEGIN enc (drop n r)))"
  by pat_completeness auto
termination
proof (relation "measures [\<lambda>(d, st, enc, r). length r, \<lambda>(d, st, enc, r). status_rank st]", goal_cases)
  case (8 d st enc r x n)
  then show ?case
    using ref_round_pos [of x n d enc r] by (cases r) auto
next
  case (9 d st enc r x n)
  then show ?case
    using ref_round_pos [of x n d enc r] by (cases r) auto
next
  case (10 d st enc r x n)
  then show ?case
    using ref_round_pos [of x n d enc r] by (cases r) auto
qed auto

declare rows.simps [simp del]

text \<open>The rest of the file after the rows to skip, which have no fields.\<close>

function skip_ref :: "Dialect \<Rightarrow> string \<Rightarrow> string" where
  "skip_ref d r =
     (if r = [] then []
      else if first_char (fields_escaped_by d) = Ch (hd r) then skip_ref d (drop 2 r)
      else if prefix (lines_terminated_by d) r then drop (length (lines_terminated_by d)) r
      else skip_ref d (tl r))"
  by pat_completeness auto
termination
  by (relation "measure (\<lambda>(d, r). length r)") auto

declare skip_ref.simps [simp del]

definition row_starts :: "Dialect \<Rightarrow> nat \<Rightarrow> string \<Rightarrow> nat list" where
  "row_starts d k r = rows d BEGIN None ((skip_ref d ^^ k) r)"

text \<open>The index of the first row in each of the blocks, from the starts of rows in the file.\<close>

fun first_rows :: "nat list \<Rightarrow> string list \<Rightarrow> int list" where
  "first_rows starts [] = []"
| "first_rows starts (b # bs) =
     (let rest = length (concat bs); here = takeWhile (\<lambda>x. rest < x) starts in
      (case here of [] \<Rightarrow> - 1 | x # _ \<Rightarrow> int (rest + length b - x)) # first_rows (dropWhile (\<lambda>x. rest < x) starts) bs)"

text \<open>The blocks of the file one after the other: the results of \<open>scan\<close> and the last state of the scanner.\<close>

fun scan_blocks :: "scanner \<Rightarrow> string list \<Rightarrow> (int list \<times> scanner) option" where
  "scan_blocks sc [] = Some ([], sc)"
| "scan_blocks sc (b # bs) =
     (case scan_block b sc of
        None \<Rightarrow> None
      | Some (r, sc') \<Rightarrow> map_option (\<lambda>(rs, sc''). (r # rs, sc'')) (scan_blocks sc' bs))"

end
