(* ===== verification/Import_Scanner_Facts.thy ===== *)
theory Import_Scanner_Facts
  imports Import_Rows
begin

text \<open>
  The scanner finds the rows of the file, however the file is cut into blocks: each loop consumes what the reference
  consumes, and at the end of a block the stack holds what the next block has to continue with.
\<close>

section \<open>Reading and putting back\<close>

definition unread :: "scanner \<Rightarrow> string" where
  "unread sc = m_stack sc @ m_data sc"

text \<open>Only the position of the scanner differs.\<close>

definition moved :: "scanner \<Rightarrow> scanner \<Rightarrow> bool" where
  "moved sc sc' \<longleftrightarrow> m_skip_rows sc' = m_skip_rows sc \<and> m_fields_terminated_by sc' = m_fields_terminated_by sc \<and>
     m_lines_starting_by sc' = m_lines_starting_by sc \<and> m_lines_terminated_by sc' = m_lines_terminated_by sc \<and>
     m_enclosed_char sc' = m_enclosed_char sc \<and> m_escaped_char sc' = m_escaped_char sc \<and>
     m_stack_size sc' = m_stack_size sc \<and> m_status sc' = m_status sc \<and> m_found_enclosed_char sc' = m_found_enclosed_char sc"

lemma moved_refl [simp]: "moved sc sc"
  by (simp add: moved_def)

lemma moved_trans: "moved a b \<Longrightarrow> moved b c \<Longrightarrow> moved a c"
  by (simp add: moved_def)

text \<open>\<open>n\<close> characters have been read, with \<open>k\<close> left on the stack.\<close>

definition adv :: "nat \<Rightarrow> scanner \<Rightarrow> scanner \<Rightarrow> bool" where
  "adv n sc sc' \<longleftrightarrow> moved sc sc' \<and> n \<le> length (unread sc) \<and> unread sc' = drop n (unread sc) \<and>
     m_end_of_block sc' = m_end_of_block sc \<and> m_stack_overflow sc' = m_stack_overflow sc"

lemma adv_trans:
  assumes "adv m a b" and "adv n b c"
  shows "adv (m + n) a c"
  using assms by (auto simp: adv_def add.commute intro: moved_trans)

lemma get_Cons:
  assumes "unread sc = c # r"
  obtains sc' where "get sc = (Ch c, sc')" "adv 1 sc sc'" "length (m_stack sc') = length (m_stack sc) - 1"
proof -
  have "get sc = (Ch c, snd (get sc))" "adv 1 sc (snd (get sc))"
      "length (m_stack (snd (get sc))) = length (m_stack sc) - 1"
    using assms by (auto simp: get_def adv_def moved_def unread_def split: list.splits)
  then show thesis
    by (rule that)
qed

lemma get_Nil:
  "unread sc = [] \<Longrightarrow> get sc = (k_end_of_block, sc\<lparr>m_end_of_block := True\<rparr>)"
  by (simp add: get_def unread_def)

lemma unget_simps [simp]:
  "unread (unget c sc) = c # unread sc" "m_data (unget c sc) = m_data sc" "m_end_of_block (unget c sc) = m_end_of_block sc"
  "m_stack (unget c sc) = c # m_stack sc" "moved sc' (unget c sc) \<longleftrightarrow> moved sc' sc" "m_stack_size (unget c sc) = m_stack_size sc"
  by (simp_all add: unget_def unread_def moved_def)

lemma fold_unget_simps [simp]:
  "unread (fold unget cs sc) = rev cs @ unread sc" "m_data (fold unget cs sc) = m_data sc"
  "m_end_of_block (fold unget cs sc) = m_end_of_block sc" "m_stack (fold unget cs sc) = rev cs @ m_stack sc"
  "moved sc' (fold unget cs sc) \<longleftrightarrow> moved sc' sc" "m_stack_size (fold unget cs sc) = m_stack_size sc"
  by (induction cs arbitrary: sc) simp_all

lemma unget_overflow [simp]:
  "length (m_stack sc) < m_stack_size sc \<Longrightarrow> m_stack_overflow (unget c sc) = m_stack_overflow sc"
  by (simp add: unget_def)

lemma fold_unget_overflow [simp]:
  "length cs + length (m_stack sc) \<le> m_stack_size sc \<Longrightarrow> m_stack_overflow (fold unget cs sc) = m_stack_overflow sc"
  by (induction cs arbitrary: sc) simp_all

lemma end_of_data: "unread sc = [] \<Longrightarrow> m_data sc = [] \<and> m_stack sc = []"
  by (simp add: unread_def)

section \<open>Sequences\<close>

lemma contains_loop_match:
  "i \<le> length s \<Longrightarrow> prefix (drop i s) (unread sc) \<Longrightarrow>
   \<exists>chr' sc'. contains_loop s i chr sc = (length s, chr', sc') \<and> adv (length s - i) sc sc' \<and>
     length (m_stack sc') = length (m_stack sc) - (length s - i)"
proof (induction "length s - i" arbitrary: i chr sc)
  case 0
  then show ?case
    by (simp add: contains_loop.simps adv_def)
next
  case (Suc n)
  then have i: "i < length s"
    by simp
  then have "drop i s = s ! i # drop (i + 1) s"
    by (simp add: Cons_nth_drop_Suc)
  then obtain r where r: "unread sc = s ! i # r" "prefix (drop (i + 1) s) r"
    using Suc.prems(2) by (cases "unread sc") auto
  obtain sc1 where get: "get sc = (Ch (s ! i), sc1)" "adv 1 sc sc1" "length (m_stack sc1) = length (m_stack sc) - 1"
    using get_Cons [OF r(1)] .
  have n: "n = length s - (i + 1)" "i + 1 \<le> length s" "prefix (drop (i + 1) s) (unread sc1)"
    using get(2) r Suc.hyps(2) i by (simp_all add: adv_def)
  then obtain chr' sc' where rec: "contains_loop s (i + 1) (Ch (s ! i)) sc1 = (length s, chr', sc')"
    "adv (length s - (i + 1)) sc1 sc'" "length (m_stack sc') = length (m_stack sc1) - (length s - (i + 1))"
    using Suc.hyps(1) [of "i + 1"] n i r(2) by blast
  then show ?case
    using adv_trans [OF get(2) rec(2)] i get by (simp add: contains_loop.simps [of s i] Suc_diff_Suc)
qed

lemma contains_loop_differ:
  "i + m < length s \<Longrightarrow> m < length (unread sc) \<Longrightarrow> take m (unread sc) = take m (drop i s) \<Longrightarrow> unread sc ! m \<noteq> s ! (i + m) \<Longrightarrow>
   \<exists>sc'. contains_loop s i chr sc = (i + m, Ch (unread sc ! m), sc') \<and> adv (m + 1) sc sc' \<and>
     length (m_stack sc') = length (m_stack sc) - (m + 1)"
proof (induction m arbitrary: i chr sc)
  case 0
  then obtain r where r: "unread sc = unread sc ! 0 # r"
    by (cases "unread sc") auto
  obtain sc1 where "get sc = (Ch (unread sc ! 0), sc1)" "adv 1 sc sc1" "length (m_stack sc1) = length (m_stack sc) - 1"
    using get_Cons [OF r] .
  then show ?case
    using 0 by (simp add: contains_loop.simps [of s i])
next
  case (Suc m)
  have "drop i s = s ! i # drop (i + 1) s"
    using Suc.prems(1) by (simp add: Cons_nth_drop_Suc)
  then obtain r where r: "unread sc = s ! i # r" "take m r = take m (drop (i + 1) s)"
    using Suc.prems(2,3) by (cases "unread sc") auto
  obtain sc1 where get: "get sc = (Ch (s ! i), sc1)" "adv 1 sc sc1" "length (m_stack sc1) = length (m_stack sc) - 1"
    using get_Cons [OF r(1)] .
  have unread1: "unread sc1 = r"
    using get(2) r by (simp add: adv_def)
  then obtain sc' where rec: "contains_loop s (i + 1) (Ch (s ! i)) sc1 = (i + 1 + m, Ch (r ! m), sc')"
    "adv (m + 1) sc1 sc'" "length (m_stack sc') = length (m_stack sc1) - (m + 1)"
    using Suc.IH [of "i + 1" sc1 "Ch (s ! i)"] Suc.prems r by auto
  then show ?case
    using adv_trans [OF get(2) rec(2)] Suc.prems(1) get r by (simp add: contains_loop.simps [of s i])
qed

lemma contains_loop_cut:
  "i + length (unread sc) < length s \<Longrightarrow> prefix (unread sc) (drop i s) \<Longrightarrow>
   \<exists>sc'. contains_loop s i chr sc = (i + length (unread sc), k_end_of_block, sc') \<and> moved sc sc' \<and> unread sc' = [] \<and>
     m_end_of_block sc' \<and> m_stack_overflow sc' = m_stack_overflow sc"
proof (induction "length (unread sc)" arbitrary: i chr sc)
  case 0
  then show ?case
    by (simp add: contains_loop.simps [of s i] get_Nil moved_def) (simp add: unread_def)
next
  case (Suc n)
  have "drop i s = s ! i # drop (i + 1) s"
    using Suc.prems(1) by (simp add: Cons_nth_drop_Suc)
  then obtain r where r: "unread sc = s ! i # r" "prefix r (drop (i + 1) s)"
    using Suc.prems(2) Suc.hyps(2) by (cases "unread sc") auto
  obtain sc1 where get: "get sc = (Ch (s ! i), sc1)" "adv 1 sc sc1" "length (m_stack sc1) = length (m_stack sc) - 1"
    using get_Cons [OF r(1)] .
  have unread1: "unread sc1 = r" "moved sc sc1" "m_stack_overflow sc1 = m_stack_overflow sc"
    using get(2) r by (simp_all add: adv_def)
  then obtain sc' where rec: "contains_loop s (i + 1) (Ch (s ! i)) sc1 = (i + 1 + length r, k_end_of_block, sc')"
    "moved sc1 sc'" "unread sc' = []" "m_end_of_block sc'" "m_stack_overflow sc' = m_stack_overflow sc1"
    using Suc.hyps(1) [of sc1 "i + 1" "Ch (s ! i)"] Suc.hyps(2) Suc.prems r by auto
  then show ?case
    using moved_trans [OF unread1(2) rec(2)] unread1 Suc.prems(1) get r by (simp add: contains_loop.simps [of s i])
qed

lemma contains_match:
  assumes "s \<noteq> []" and "prefix (tl s) (unread sc)"
  shows "\<exists>sc'. contains_seq s sc = (True, sc') \<and> adv (length s - 1) sc sc' \<and>
    length (m_stack sc') = length (m_stack sc) - (length s - 1)"
proof -
  have "1 \<le> length s" "prefix (drop 1 s) (unread sc)"
    using assms by (cases s; simp)+
  from contains_loop_match [OF this, of "Ch nul"] show ?thesis
    by (auto simp: contains_seq_def)
qed

lemma contains_differ:
  assumes "s \<noteq> []" and "\<not> m_end_of_block sc" and "\<not> prefix (tl s) (unread sc)" and "\<not> prefix (unread sc) (tl s)"
    and "length s \<le> m_stack_size sc + 1" and "length (m_stack sc) \<le> m_stack_size sc"
  shows "\<exists>sc'. contains_seq s sc = (False, sc') \<and> adv 0 sc sc' \<and>
    length (m_stack sc') \<le> max (length (m_stack sc)) (length s - 1)"
proof -
  obtain w b bs c cs where differ: "b \<noteq> c" "tl s = w @ b # bs" "unread sc = w @ c # cs"
    using parallel_decomp [of "tl s" "unread sc"] assms(3,4) by (auto simp: parallel_def)
  let ?m = "length w"
  obtain h where s: "s = h # w @ b # bs"
    using assms(1) differ(2) by (cases s) auto
  have "1 + ?m < length s" "?m < length (unread sc)" "take ?m (unread sc) = take ?m (drop 1 s)" "unread sc ! ?m \<noteq> s ! (1 + ?m)"
    using differ(1,3) by (simp_all add: s)
  from contains_loop_differ [OF this, of "Ch nul"] obtain sc1 where loop: "contains_loop s 1 (Ch nul) sc = (1 + ?m, Ch c, sc1)"
    and sc1: "adv (?m + 1) sc sc1" "length (m_stack sc1) = length (m_stack sc) - (?m + 1)"
    using differ(3) by auto
  let ?sc = "fold unget (rev w) (unget c sc1)"
  have "take ?m (tl s) = w"
    by (simp add: differ(2))
  then have "contains_seq s sc = (False, ?sc)"
    unfolding contains_seq_def loop prod.case using sc1 assms(2) \<open>1 + ?m < length s\<close> by (simp add: adv_def)
  moreover have size: "?m + 1 \<le> length s - 1" "m_stack_size sc1 = m_stack_size sc"
    using \<open>1 + ?m < length s\<close> sc1 by (auto simp: adv_def moved_def)
  moreover have "adv 0 sc ?sc"
    using sc1 size assms(5,6) differ(3) by (auto simp: adv_def)
  moreover have "length (m_stack ?sc) \<le> max (length (m_stack sc)) (length s - 1)"
    using sc1 size by auto
  ultimately show ?thesis
    by blast
qed

lemma contains_cut:
  assumes "s \<noteq> []" and "\<not> prefix (tl s) (unread sc)" and "prefix (unread sc) (tl s)" and "length s \<le> m_stack_size sc + 1"
  shows "\<exists>sc'. contains_seq s sc = (False, sc') \<and> moved sc sc' \<and> unread sc' = unread sc \<and> m_end_of_block sc' \<and>
    m_data sc' = [] \<and> m_stack_overflow sc' = m_stack_overflow sc \<and> length (unread sc) + 1 < length s"
proof -
  obtain w where w: "tl s = unread sc @ w"
    using assms(3) by (auto simp: prefix_def)
  then have "w \<noteq> []"
    using assms(2) by auto
  obtain h where s: "s = h # unread sc @ w"
    using assms(1) w by (cases s) auto
  have len: "1 + length (unread sc) < length s"
    using \<open>w \<noteq> []\<close> by (cases w) (simp_all add: s)
  have "prefix (unread sc) (drop 1 s)"
    by (simp add: s)
  from contains_loop_cut [OF len this, of "Ch nul"] obtain sc1 where
    loop: "contains_loop s 1 (Ch nul) sc = (1 + length (unread sc), k_end_of_block, sc1)"
    and sc1: "moved sc sc1" "unread sc1 = []" "m_end_of_block sc1" "m_stack_overflow sc1 = m_stack_overflow sc"
    by blast
  let ?sc = "fold unget (rev (unread sc)) sc1"
  have "contains_seq s sc = (False, ?sc)"
    unfolding contains_seq_def loop prod.case using sc1 len w by simp
  moreover have "length (rev (unread sc)) + length (m_stack sc1) \<le> m_stack_size sc1"
    using sc1 len assms(4) by (auto simp: moved_def unread_def)
  ultimately show ?thesis
    using sc1 len end_of_data [OF sc1(2)] by (intro exI [of _ ?sc]) simp
qed

text \<open>The three ways in which a test for a sequence ends, for every text \<open>u\<close> behind the block.\<close>

lemma seq_cases:
  assumes "\<not> m_end_of_block sc" and "length s \<le> m_stack_size sc + 1" and "length (m_stack sc) \<le> m_stack_size sc"
  obtains (found) sc' where "\<And>u. follows s (c # unread sc @ u)"
      "(if Ch c = first_char s then contains_seq s sc else (False, sc)) = (True, sc')"
      "adv (length s - 1) sc sc'" "length (m_stack sc') = length (m_stack sc) - (length s - 1)"
    | (cut) sc' where "(if Ch c = first_char s then contains_seq s sc else (False, sc)) = (False, sc')" "m_end_of_block sc'"
      "moved sc sc'" "unread sc' = unread sc" "m_data sc' = []" "m_stack_overflow sc' = m_stack_overflow sc"
      "length (unread sc) + 1 < length s"
    | (other) sc' where "\<And>u. \<not> follows s (c # unread sc @ u)"
      "(if Ch c = first_char s then contains_seq s sc else (False, sc)) = (False, sc')" "adv 0 sc sc'"
      "length (m_stack sc') \<le> max (length (m_stack sc)) (length s - 1)"
proof (cases "s \<noteq> [] \<and> hd s = c")
  case False
  then have "follows s (c # r) \<longleftrightarrow> False" for r
    by (cases s) (auto simp: follows_def)
  moreover have "first_char s \<noteq> Ch c"
    using False by (auto simp: first_char_def)
  ultimately show ?thesis
    using other [of sc] by (auto simp: adv_def)
next
  case True
  have first: "Ch c = first_char s"
    using True by (simp add: first_char_def)
  have follows: "follows s (c # r) \<longleftrightarrow> prefix (tl s) r" for r
    using True by (cases s) (auto simp: follows_def)
  consider "prefix (tl s) (unread sc)" | "\<not> prefix (tl s) (unread sc)" "prefix (unread sc) (tl s)"
    | "\<not> prefix (tl s) (unread sc)" "\<not> prefix (unread sc) (tl s)"
    by blast
  then show ?thesis
  proof cases
    case 1
    then show ?thesis
      using contains_match [OF conjunct1 [OF True] 1] first follows found by auto
  next
    case 2
    then show ?thesis
      using contains_cut [OF conjunct1 [OF True] 2 assms(2)] first cut by auto
  next
    case 3
    then have "\<not> prefix (tl s) (unread sc @ u)" for u
      using prefix_same_cases [of "tl s" "unread sc @ u" "unread sc"] by auto
    then show ?thesis
      using contains_differ [OF conjunct1 [OF True] assms(1) 3 assms(2,3)] first follows other by auto
  qed
qed

section \<open>Rounds of a field\<close>

lemma try_end_seq:
  "\<not> m_end_of_block sc \<Longrightarrow>
   try_end chr s status cs k sc =
     (case if chr = first_char s then contains_seq s sc else (False, sc) of
        (found, sc') \<Rightarrow>
          if found then Stop status sc'
          else if m_end_of_block sc' then Stop CONTINUED (fold unget (map to_char cs) sc') else k sc')"
  by (simp add: try_end_def)

lemma try_end_cases:
  assumes "\<not> m_end_of_block sc" and "length s \<le> m_stack_size sc + 1" and "length (m_stack sc) \<le> m_stack_size sc"
  obtains sc' where "\<And>u. follows s (c # unread sc @ u)" "try_end (Ch c) s status cs k sc = Stop status sc'"
      "adv (length s - 1) sc sc'" "length (m_stack sc') = length (m_stack sc) - (length s - 1)"
    | sc' where "try_end (Ch c) s status cs k sc = Stop CONTINUED (fold unget (map to_char cs) sc')" "moved sc sc'"
      "unread sc' = unread sc" "m_data sc' = []" "m_stack_overflow sc' = m_stack_overflow sc" "length (unread sc) + 1 < length s"
    | sc' where "\<And>u. \<not> follows s (c # unread sc @ u)" "try_end (Ch c) s status cs k sc = k sc'" "adv 0 sc sc'"
      "length (m_stack sc') \<le> max (length (m_stack sc)) (length s - 1)"
proof (cases rule: seq_cases [OF assms, where c = c, case_names found cut other])
  case (found sc')
  then have "try_end (Ch c) s status cs k sc = Stop status sc'"
    by (simp only: try_end_seq [OF assms(1)] prod.case if_True)
  with found show ?thesis
    using that(1) by blast
next
  case (cut sc')
  then have "try_end (Ch c) s status cs k sc = Stop CONTINUED (fold unget (map to_char cs) sc')"
    by (simp only: try_end_seq [OF assms(1)] prod.case if_True if_False)
  with cut show ?thesis
    using that(2) by blast
next
  case (other sc')
  then have "try_end (Ch c) s status cs k sc = k sc'"
    using assms(1) by (simp only: try_end_seq [OF assms(1)] prod.case if_False adv_def)
  with other show ?thesis
    using that(3) by blast
qed

definition conf :: "Dialect \<Rightarrow> scanner \<Rightarrow> bool" where
  "conf d sc \<longleftrightarrow> m_fields_terminated_by sc = fields_terminated_by d \<and> m_lines_starting_by sc = lines_starting_by d \<and>
     m_lines_terminated_by sc = lines_terminated_by d \<and> m_enclosed_char sc = first_char (fields_enclosed_by d) \<and>
     m_escaped_char sc = first_char (fields_escaped_by d) \<and>
     m_stack_size sc = max (length (fields_terminated_by d) + 1)
       (max (length (lines_starting_by d)) (length (lines_terminated_by d) + 1))"

lemma conf_moved: "conf d sc \<Longrightarrow> moved sc sc' \<Longrightarrow> conf d sc'"
  by (simp add: conf_def moved_def)

definition scannable :: "Dialect \<Rightarrow> bool" where
  "scannable d \<longleftrightarrow> lines_terminated_by d \<noteq> [] \<and> length (fields_terminated_by d) \<le> length (lines_terminated_by d) \<and>
     first_char (fields_escaped_by d) \<noteq> first_char (lines_terminated_by d)"

definition calm :: "scanner \<Rightarrow> bool" where
  "calm sc \<longleftrightarrow> \<not> m_end_of_block sc \<and> \<not> m_stack_overflow sc"

fun enc_int :: "char option \<Rightarrow> chr_int" where
  "enc_int None = k_not_used"
| "enc_int (Some c) = Ch c"

text \<open>
  The round of a field on the text \<open>r\<close> does what the reference does: with at most \<open>b\<close> characters on the stack when
  the field goes on, and at most \<open>l\<close> when it ends.
\<close>

fun round_sim :: "scanner \<Rightarrow> string \<Rightarrow> nat \<Rightarrow> nat \<Rightarrow> field_end \<times> nat \<Rightarrow> Field_status round \<Rightarrow> bool" where
  "round_sim sc r b l (k, n) (Again sc') \<longleftrightarrow> k = Go_on \<and> n \<le> length r \<and> unread sc' = drop n r \<and> moved sc sc' \<and> calm sc' \<and>
     length (m_stack sc') \<le> b"
| "round_sim sc r b l (k, n) (Stop END_OF_FIELD sc') \<longleftrightarrow> k = Field_ends \<and> n \<le> length r \<and> unread sc' = drop n r \<and>
     moved sc sc' \<and> calm sc' \<and> length (m_stack sc') \<le> l"
| "round_sim sc r b l (k, n) (Stop END_OF_LINE sc') \<longleftrightarrow> k = Row_ends \<and> n \<le> length r \<and> unread sc' = drop n r \<and>
     moved sc sc' \<and> calm sc' \<and> m_stack sc' = []"
| "round_sim sc r b l (k, n) (Stop CONTINUED sc') \<longleftrightarrow> unread sc' = r \<and> m_data sc' = [] \<and> moved sc sc' \<and>
     \<not> m_stack_overflow sc' \<and> length (m_stack sc') \<le> b"

lemma round_sim_moved: "moved sc0 sc \<Longrightarrow> round_sim sc r b l x y \<Longrightarrow> round_sim sc0 r b l x y"
  by (cases "(sc, r, b, l, x, y)" rule: round_sim.cases) (auto intro: moved_trans)

lemma cut_sim:
  assumes "moved sc0 sc" and "moved sc sc'" and "m_data sc' = []" and "\<not> m_stack_overflow sc'"
    and "length (unread sc') + length cs \<le> b" and "b \<le> m_stack_size sc'" and "r = rev cs @ unread sc'"
  shows "round_sim sc0 r b l x (Stop CONTINUED (fold unget cs sc'))"
  using assms by (cases x) (auto simp: unread_def intro: moved_trans)

lemma field_enclosed_sim:
  assumes d: "scannable d" "conf d sc" "calm sc" and e: "m_found_enclosed_char sc = Ch e"
    and size: "length (m_stack sc) \<le> length (lines_terminated_by d)"
  shows "round_sim sc (e # unread sc) (length (lines_terminated_by d) + 1) (length (lines_terminated_by d))
    (ref_char d (Some e) e (unread sc @ u)) (field_enclosed sc)"
proof (cases "unread sc")
  case Nil
  then show ?thesis
    using d(2,3) end_of_data [OF Nil] by (simp add: field_enclosed_def get_Nil e moved_def calm_def unread_def conf_def unget_def ref_char_def)
next
  case (Cons c r)
  obtain sc1 where get: "get sc = (Ch c, sc1)" "adv 1 sc sc1" "length (m_stack sc1) = length (m_stack sc) - 1"
    using get_Cons [OF Cons] .
  have sc1: "unread sc1 = r" "moved sc sc1" "calm sc1"
    using get(2) Cons d(3) by (simp_all add: adv_def calm_def)
  let ?l = "length (lines_terminated_by d)" and ?f = "length (fields_terminated_by d)"
  have l: "0 < ?l" "?f \<le> ?l" "m_stack_size sc1 \<ge> ?l + 1" "m_stack_size sc = m_stack_size sc1"
    using d sc1(2) by (auto simp: scannable_def conf_def moved_def)
  have seqs: "m_lines_terminated_by sc = lines_terminated_by d" "m_fields_terminated_by sc = fields_terminated_by d"
    using d(2) by (simp_all add: conf_def)
  define k where "k = try_end (Ch c) (fields_terminated_by d) END_OF_FIELD [Ch c, Ch e] (\<lambda>sc2. Again (unget c sc2))"
  show ?thesis
  proof (cases "c = e")
    case True
    then show ?thesis
      using get sc1 size d(3) by (simp add: field_enclosed_def e calm_def Cons ref_char_def)
  next
    case False
    then have round: "field_enclosed sc = try_end (Ch c) (lines_terminated_by d) END_OF_LINE [Ch c, Ch e] k sc1"
      using get sc1(3) by (simp add: field_enclosed_def e calm_def k_def seqs Let_def)
    have bounds: "\<not> m_end_of_block sc1" "?l \<le> m_stack_size sc1 + 1" "length (m_stack sc1) \<le> m_stack_size sc1"
      using sc1(3) l get(3) size by (auto simp: calm_def)
    show ?thesis
    proof (cases rule: try_end_cases [OF bounds, where c = c and status = END_OF_LINE and cs = "[Ch c, Ch e]" and k = k,
            case_names found cut other])
      case (found sc')
      then show ?thesis
        using False sc1 get(3) size l round Cons by (auto simp: ref_char_def adv_def calm_def drop_Cons' intro: moved_trans)
    next
      case (cut sc')
      then show ?thesis
        using sc1 l round Cons by (auto simp: calm_def moved_def intro!: cut_sim [of sc sc1 sc' "[c, e]", simplified])
    next
      case (other sc')
      then have sc': "moved sc sc'" "calm sc'" "unread sc' = r" "length (m_stack sc') \<le> ?l" "m_stack_size sc1 = m_stack_size sc'"
        using sc1 get(3) size by (auto simp: adv_def calm_def moved_def)
      have bounds': "\<not> m_end_of_block sc'" "?f \<le> m_stack_size sc' + 1" "length (m_stack sc') \<le> m_stack_size sc'"
        using sc' l by (auto simp: calm_def)
      show ?thesis
      proof (cases rule: try_end_cases [OF bounds', where c = c and status = END_OF_FIELD and cs = "[Ch c, Ch e]"
              and k = "\<lambda>sc2. Again (unget c sc2)", case_names found cut none])
        case (found sc2)
        then show ?thesis
          using False sc' sc1 l round Cons other by (auto simp: k_def ref_char_def adv_def calm_def drop_Cons' follows_def intro: moved_trans)
      next
        case (cut sc2)
        then show ?thesis
          using sc' l round Cons other by (auto simp: k_def calm_def moved_def intro!: cut_sim [of sc sc' sc2 "[c, e]", simplified])
      next
        case (none sc2)
        then have "m_stack_size sc2 = m_stack_size sc'"
          by (simp add: adv_def moved_def)
        then show ?thesis
          using none False sc' sc1 l round Cons other by (auto simp: k_def ref_char_def adv_def calm_def intro: moved_trans)
      qed
    qed
  qed
qed

lemma field_rest_sim:
  assumes d: "scannable d" "conf d sc" "calm sc" and none: "m_found_enclosed_char sc = k_not_used"
    and size: "length (m_stack sc) \<le> length (lines_terminated_by d)"
    and no_line: "\<not> follows (lines_terminated_by d) (c # unread sc @ u)"
  shows "round_sim sc (c # unread sc) (length (lines_terminated_by d)) (length (lines_terminated_by d))
    (ref_char d None c (unread sc @ u)) (field_rest (Ch c) sc)"
proof -
  let ?l = "length (lines_terminated_by d)" and ?f = "length (fields_terminated_by d)"
  have l: "0 < ?l" "?f \<le> ?l" "m_stack_size sc \<ge> ?l + 1" "m_fields_terminated_by sc = fields_terminated_by d"
    using d by (auto simp: scannable_def conf_def)
  have round: "field_rest (Ch c) sc = try_end (Ch c) (fields_terminated_by d) END_OF_FIELD [Ch c] Again sc"
    by (simp add: field_rest_def none chr_used_def l)
  have bounds: "\<not> m_end_of_block sc" "?f \<le> m_stack_size sc + 1" "length (m_stack sc) \<le> m_stack_size sc"
    using d l size by (auto simp: calm_def)
  show ?thesis
  proof (cases rule: try_end_cases [OF bounds, where c = c and status = END_OF_FIELD and cs = "[Ch c]" and k = Again,
          case_names found cut none])
    case (found sc')
    then show ?thesis
      using no_line d l size round by (auto simp: ref_char_def adv_def calm_def drop_Cons' follows_def)
  next
    case (cut sc')
    then show ?thesis
      using d l round by (auto simp: calm_def moved_def intro!: cut_sim [of sc sc sc' "[c]", simplified])
  next
    case (none sc')
    then show ?thesis
      using no_line d l size round by (auto simp: ref_char_def adv_def calm_def)
  qed
qed

lemma field_char_sim_None:
  assumes d: "scannable d" "conf d sc" "calm sc" and none: "m_found_enclosed_char sc = k_not_used"
    and size: "length (m_stack sc) \<le> length (lines_terminated_by d)"
      "first_char (lines_terminated_by d) = Ch c \<Longrightarrow> length (m_stack sc) < length (lines_terminated_by d)"
  shows "round_sim sc (c # unread sc) (length (lines_terminated_by d)) (length (lines_terminated_by d))
    (ref_char d None c (unread sc @ u)) (field_char (Ch c) sc)"
proof -
  let ?l = "length (lines_terminated_by d)"
  have l: "0 < ?l" "m_stack_size sc \<ge> ?l + 1" "m_lines_terminated_by sc = lines_terminated_by d"
    using d by (auto simp: scannable_def conf_def)
  have round: "field_char (Ch c) sc = try_end (Ch c) (lines_terminated_by d) END_OF_LINE [Ch c] (field_rest (Ch c)) sc"
    by (simp add: field_char_def none chr_used_def l)
  have bounds: "\<not> m_end_of_block sc" "?l \<le> m_stack_size sc + 1" "length (m_stack sc) \<le> m_stack_size sc"
    using d l size by (auto simp: calm_def)
  show ?thesis
  proof (cases rule: try_end_cases [OF bounds, where c = c and status = END_OF_LINE and cs = "[Ch c]" and k = "field_rest (Ch c)",
          case_names found cut other])
    case (found sc')
    have "first_char (lines_terminated_by d) = Ch c"
      using found(1) [of "[]"] by (cases "lines_terminated_by d") (auto simp: follows_def first_char_def)
    then show ?thesis
      using found d l size(2) round by (auto simp: ref_char_def adv_def calm_def drop_Cons')
  next
    case (cut sc')
    then show ?thesis
      using d l round by (auto simp: calm_def moved_def intro!: cut_sim [of sc sc sc' "[c]", simplified])
  next
    case (other sc')
    then have sc': "moved sc sc'" "calm sc'" "unread sc' = unread sc" "length (m_stack sc') \<le> ?l"
      "m_found_enclosed_char sc' = k_not_used" "\<not> follows (lines_terminated_by d) (c # unread sc' @ u)"
      using d size none by (auto simp: adv_def calm_def moved_def)
    show ?thesis
      using field_rest_sim [OF d(1) conf_moved [OF d(2) sc'(1)] sc'(2,5,4,6)] other sc' round round_sim_moved by simp
  qed
qed

lemma field_char_sim:
  assumes d: "scannable d" "conf d sc" "calm sc" and enc: "m_found_enclosed_char sc = enc_int enc"
    and size: "length (m_stack sc) \<le> length (lines_terminated_by d)"
      "first_char (lines_terminated_by d) = Ch c \<Longrightarrow> enc = None \<Longrightarrow> length (m_stack sc) < length (lines_terminated_by d)"
    and b: "b = length (lines_terminated_by d) + (if enc = None then 0 else 1)"
  shows "round_sim sc (c # unread sc) b (length (lines_terminated_by d)) (ref_char d enc c (unread sc @ u)) (field_char (Ch c) sc)"
proof (cases enc)
  case None
  then show ?thesis
    using field_char_sim_None [OF d, of c u] enc size b by simp
next
  case (Some e)
  then have e: "m_found_enclosed_char sc = Ch e" "b = length (lines_terminated_by d) + 1"
    using enc b by simp_all
  show ?thesis
  proof (cases "c = e")
    case True
    then show ?thesis
      using field_enclosed_sim [OF d e(1) size(1), of u] Some e by (simp add: field_char_def field_rest_def chr_used_def)
  next
    case False
    then show ?thesis
      using Some e d size(1) by (simp add: field_char_def field_rest_def chr_used_def ref_char_def)
  qed
qed

text \<open>What the stack may hold when a field is scanned.\<close>

definition field_stack :: "Dialect \<Rightarrow> char option \<Rightarrow> nat" where
  "field_stack d enc = length (lines_terminated_by d) + (if enc = None then 0 else 1)"

lemma field_round_sim:
  assumes d: "scannable d" "conf d sc" "calm sc" and enc: "m_found_enclosed_char sc = enc_int enc"
    and size: "length (m_stack sc) \<le> field_stack d enc" and r: "unread sc \<noteq> []"
  shows "round_sim sc (unread sc) (field_stack d enc) (length (lines_terminated_by d)) (ref_round d enc (unread sc @ u))
    (field_round sc)"
proof -
  let ?l = "length (lines_terminated_by d)" and ?esc = "first_char (fields_escaped_by d)"
  have l: "0 < ?l" "m_stack_size sc \<ge> ?l + 1" "m_escaped_char sc = ?esc" "?esc \<noteq> first_char (lines_terminated_by d)"
    "m_enclosed_char sc = first_char (fields_enclosed_by d)"
    using d by (auto simp: scannable_def conf_def)
  obtain c r' where Cons: "unread sc = c # r'"
    using r by (cases "unread sc") auto
  obtain sc1 where get: "get sc = (Ch c, sc1)" "adv 1 sc sc1" "length (m_stack sc1) = length (m_stack sc) - 1"
    using get_Cons [OF Cons] .
  have sc1: "unread sc1 = r'" "moved sc sc1" "calm sc1" "m_found_enclosed_char sc1 = enc_int enc" "m_stack_size sc1 = m_stack_size sc"
    "length (m_stack sc1) \<le> ?l" "enc = None \<Longrightarrow> length (m_stack sc1) < ?l"
    using get(2,3) Cons d(3) enc size l(1) by (auto simp: adv_def calm_def moved_def field_stack_def simp del: length_greater_0_conv split: if_splits)
  note field = round_sim_moved [OF _ field_char_sim [OF d(1) conf_moved [OF d(2)], where b = "field_stack d enc"]]
  show ?thesis
  proof (cases "?esc = Ch c")
    case False
    then have "field_round sc = field_char (Ch c) sc1" "ref_round d enc (unread sc @ u) = ref_char d enc c (unread sc1 @ u)"
      using get(1) l(3) Cons sc1(1) by (auto simp: field_round_def ref_round_def)
    then show ?thesis
      using field [OF sc1(2,2,3,4,6,7)] Cons sc1(1) by (simp add: field_stack_def)
  next
    case esc: True
    show ?thesis
    proof (cases r')
      case Nil
      then have "get sc1 = (k_end_of_block, sc1\<lparr>m_end_of_block := True\<rparr>)" "m_data sc1 = []" "m_stack sc1 = []"
        using get_Nil [of sc1] end_of_data [of sc1] sc1(1) by simp_all
      then show ?thesis
        using get(1) esc l Cons Nil sc1
        by (cases "ref_round d enc (unread sc @ u)")
          (simp add: field_round_def Let_def calm_def unget_def unread_def moved_def field_stack_def Suc_le_eq)
    next
      case r': (Cons c' r'')
      obtain sc2 where get2: "get sc1 = (Ch c', sc2)" "adv 1 sc1 sc2" "length (m_stack sc2) = length (m_stack sc1) - 1"
        using get_Cons sc1(1) r' by metis
      have sc2: "unread sc2 = r''" "moved sc sc2" "calm sc2" "m_found_enclosed_char sc2 = enc_int enc"
        "m_stack_size sc2 = m_stack_size sc" "length (m_stack sc2) < ?l"
        using get2(2,3) r' sc1 l(1) by (auto simp: adv_def calm_def moved_def simp del: length_greater_0_conv)
      show ?thesis
      proof (cases "?esc \<noteq> first_char (fields_enclosed_by d) \<or> c' = c")
        case True
        then have "field_round sc = Again sc2" "ref_round d enc (unread sc @ u) = (Go_on, 2)"
          using get(1) get2(1) l esc Cons r' sc2(3) by (auto simp: field_round_def ref_round_def calm_def)
        then show ?thesis
          using sc2 Cons r' by (simp add: field_stack_def)
      next
        case False
        let ?sc = "unget c' sc2"
        have again: "calm ?sc" "m_found_enclosed_char ?sc = enc_int enc" "length (m_stack ?sc) \<le> ?l" "moved sc ?sc"
          "unread ?sc = r'" "first_char (lines_terminated_by d) \<noteq> Ch c"
          using sc2 l esc r' by (auto simp: calm_def) (simp add: unget_def)
        have "first_char (fields_enclosed_by d) = Ch c" "c' \<noteq> c"
          using False esc by simp_all
        then have "field_round sc = field_char (Ch c) ?sc" "ref_round d enc (unread sc @ u) = ref_char d enc c (unread ?sc @ u)"
          using get(1) get2(1) l(3,5) esc Cons r' sc2(1,3) by (simp_all add: field_round_def ref_round_def calm_def Let_def)
        then show ?thesis
          using field [OF again(4,4,1,2,3), of c u] Cons again(5,6) by (simp add: field_stack_def)
      qed
    qed
  qed
qed

end
