(* ===== verification/Import_Scanner_Correct.thy ===== *)
theory Import_Scanner_Correct
  imports Import_Scanner_Facts
begin

text \<open>
  The loops of the scanner against the rows of the whole file, and the main theorem on blocks: the index that \<open>scan\<close>
  gives for a block is that of the first row that starts in it.
\<close>

section \<open>Where rows can start\<close>

lemma ref_char_row:
  assumes "ref_char d enc c r = (Row_ends, n)"
  shows "n = field_stack d enc" and "n \<le> Suc (length r)"
  using assms by (auto simp: ref_char_def field_stack_def follows_def dest: prefix_length_le split: option.splits if_splits)

lemma ref_round_row:
  assumes "ref_round d enc r = (Row_ends, n)" and "r \<noteq> []"
  shows "n = field_stack d enc" and "n \<le> length r"
  using assms ref_char_row [of d enc "hd r" "tl r" n] by (auto simp: ref_round_def split: if_splits)

lemma ref_round_field:
  assumes "ref_round d enc r = (Field_ends, n)" and "r \<noteq> []"
  shows "0 < n" and "enc \<noteq> None \<Longrightarrow> 1 < n" and "n \<le> length r"
  using assms
  by (cases r; auto simp: ref_round_def ref_char_def follows_def dest: prefix_length_le split: option.splits if_splits)+

text \<open>The least distance from the text to the first row after it.\<close>

fun row_distance :: "Dialect \<Rightarrow> Row_status \<Rightarrow> char option \<Rightarrow> nat" where
  "row_distance d BEGIN enc = 0"
| "row_distance d PREFIX enc = length (lines_starting_by d)"
| "row_distance d BEGIN_OF_FIELD enc = length (lines_terminated_by d)"
| "row_distance d FIELD enc = field_stack d enc"

lemmas rows_BEGIN = rows.simps [of _ BEGIN, simplified]
lemmas rows_PREFIX = rows.simps [of _ PREFIX, simplified]
lemmas rows_BEGIN_OF_FIELD = rows.simps [of _ BEGIN_OF_FIELD, simplified]
lemmas rows_FIELD = rows.simps [of _ FIELD, simplified]

lemma rows_bound:
  "e \<in> set (rows d st enc s) \<Longrightarrow> 0 < e \<and> e + row_distance d st enc \<le> length s"
proof (induction d st enc s arbitrary: e rule: rows.induct)
  case (1 d st enc s)
  show ?case
  proof (cases st)
    case BEGIN
    then have "e = length s \<and> s \<noteq> [] \<or> s \<noteq> [] \<and> e \<in> set (rows d PREFIX enc s)"
      using 1(10) by (subst (asm) BEGIN, subst (asm) rows_BEGIN) (auto split: if_splits)
    then show ?thesis
      using 1(1) [OF BEGIN, of e] BEGIN by auto
  next
    case PREFIX
    note e = 1(10) [unfolded PREFIX, unfolded rows_PREFIX [of d enc s]]
    show ?thesis
    proof (cases "lines_starting_by d = []")
      case True
      then show ?thesis
        using 1(2) [OF PREFIX True, of e] e PREFIX by auto
    next
      case False
      then have s: "s \<noteq> []"
        using e by (auto split: if_splits)
      show ?thesis
      proof (cases "prefix (lines_starting_by d) s")
        case True
        then show ?thesis
          using 1(3) [OF PREFIX False s True, of e] e PREFIX False s prefix_length_le [OF True] by auto
      next
        case no: False
        then show ?thesis
          using 1(4) [OF PREFIX False s no, of e] e PREFIX False s by (cases s) auto
      qed
    qed
  next
    case BEGIN_OF_FIELD
    note e = 1(10) [unfolded BEGIN_OF_FIELD, unfolded rows_BEGIN_OF_FIELD [of d enc s]]
    have s: "s \<noteq> []"
      using e by (auto split: if_splits)
    show ?thesis
    proof (cases "first_char (fields_enclosed_by d) = Ch (hd s)")
      case True
      then show ?thesis
        using 1(5) [OF BEGIN_OF_FIELD s True, of e] e BEGIN_OF_FIELD s by (cases s) (auto simp: field_stack_def)
    next
      case False
      then show ?thesis
        using 1(6) [OF BEGIN_OF_FIELD s False, of e] e BEGIN_OF_FIELD s by (auto simp: field_stack_def)
    qed
  next
    case FIELD
    note e = 1(10) [unfolded FIELD, unfolded rows_FIELD [of d enc s]]
    obtain k n where r: "s \<noteq> []" "ref_round d enc s = (k, n)"
      using e by (cases "ref_round d enc s") (auto split: if_splits)
    show ?thesis
    proof (cases k)
      case Go_on
      then show ?thesis
        using 1(7) [OF FIELD r(1) r(2) [symmetric] Go_on, of e] e r FIELD by auto
    next
      case Field_ends
      then show ?thesis
        using 1(8) [OF FIELD r(1) r(2) [symmetric] Field_ends, of e] e r FIELD ref_round_field [of d enc s n]
        by (auto simp: field_stack_def)
    next
      case Row_ends
      then show ?thesis
        using 1(9) [OF FIELD r(1) r(2) [symmetric] Row_ends, of e] e r FIELD ref_round_row [of d enc s n] by auto
    qed
  qed
qed

section \<open>Loops\<close>

subsection \<open>Fields\<close>

text \<open>What the loop over a field leaves, when the field has the enclosing character \<open>enc\<close>.\<close>

fun field_sim :: "Dialect \<Rightarrow> char option \<Rightarrow> scanner \<Rightarrow> Field_status \<times> scanner \<Rightarrow> bool" where
  "field_sim d enc sc (CONTINUED, sc') \<longleftrightarrow> moved sc sc' \<and> m_data sc' = [] \<and> \<not> m_stack_overflow sc' \<and>
     length (m_stack sc') \<le> field_stack d enc \<and> (\<forall>u. rows d FIELD enc (unread sc @ u) = rows d FIELD enc (unread sc' @ u))"
| "field_sim d enc sc (END_OF_FIELD, sc') \<longleftrightarrow> moved sc sc' \<and> calm sc' \<and> length (unread sc') < length (unread sc) \<and>
     length (m_stack sc') \<le> length (lines_terminated_by d) \<and>
     (\<forall>u. rows d FIELD enc (unread sc @ u) = rows d BEGIN_OF_FIELD enc (unread sc' @ u))"
| "field_sim d enc sc (END_OF_LINE, sc') \<longleftrightarrow> moved sc sc' \<and> calm sc' \<and> length (unread sc') < length (unread sc) \<and>
     m_stack sc' = [] \<and> (\<forall>u. rows d FIELD enc (unread sc @ u) = rows d BEGIN enc (unread sc' @ u))"

lemma field_sim_trans:
  assumes "moved sc sc1" and "length (unread sc1) \<le> length (unread sc)"
    and "\<And>u. rows d FIELD enc (unread sc @ u) = rows d FIELD enc (unread sc1 @ u)" and "field_sim d enc sc1 x"
  shows "field_sim d enc sc x"
  using assms by (cases "(d, enc, sc1, x)" rule: field_sim.cases) (auto intro: moved_trans)

lemma rows_field_step:
  assumes "r \<noteq> []" and "ref_round d enc (r @ u) = (k, n)" and "n \<le> length r"
  shows "rows d FIELD enc (r @ u) =
    rows d (case k of Go_on \<Rightarrow> FIELD | Field_ends \<Rightarrow> BEGIN_OF_FIELD | Row_ends \<Rightarrow> BEGIN) enc (drop n r @ u)"
  using assms by (subst rows_FIELD) (simp split: field_end.split)

lemma field_round_rows:
  assumes "scannable d" "conf d sc" "calm sc" "m_found_enclosed_char sc = enc_int enc"
    and "length (m_stack sc) \<le> field_stack d enc" and r: "unread sc \<noteq> []"
  shows "case field_round sc of
      Again sc' \<Rightarrow> moved sc sc' \<and> calm sc' \<and> length (unread sc') < length (unread sc) \<and>
        length (m_stack sc') \<le> field_stack d enc \<and> (\<forall>u. rows d FIELD enc (unread sc @ u) = rows d FIELD enc (unread sc' @ u))
    | Stop st sc' \<Rightarrow> field_sim d enc sc (st, sc')"
proof -
  obtain k n where kn: "\<And>u. ref_round d enc (unread sc @ u) = (k u, n u)"
    by (rule that [of "\<lambda>u. fst (ref_round d enc (unread sc @ u))" "\<lambda>u. snd (ref_round d enc (unread sc @ u))"]) simp
  have sim: "round_sim sc (unread sc) (field_stack d enc) (length (lines_terminated_by d)) (k u, n u) (field_round sc)" for u
    using field_round_sim [OF assms, of u] by (simp add: kn)
  have step: "rows d FIELD enc (unread sc @ u) =
      rows d (case k u of Go_on \<Rightarrow> FIELD | Field_ends \<Rightarrow> BEGIN_OF_FIELD | Row_ends \<Rightarrow> BEGIN) enc (drop (n u) (unread sc) @ u)"
      "length (drop (n u) (unread sc)) < length (unread sc)"
    if "n u \<le> length (unread sc)" for u
    using rows_field_step [OF r kn that] ref_round_pos [OF kn [symmetric], of u] r by simp_all
  show ?thesis
  proof (cases "field_round sc")
    case (Again sc')
    then show ?thesis
      using sim step by simp
  next
    case (Stop st sc')
    then show ?thesis
      using sim step by (cases st) simp_all
  qed
qed

lemma scan_field_sim:
  assumes "scannable d" "conf d sc" "m_data sc \<noteq> [] \<Longrightarrow> calm sc" "\<not> m_stack_overflow sc" "m_found_enclosed_char sc = enc_int enc"
    and "length (m_stack sc) \<le> field_stack d enc"
  shows "\<exists>x. scan_field sc = Some x \<and> field_sim d enc sc x"
  using assms
proof (induction "length (unread sc)" arbitrary: sc rule: less_induct)
  case less
  show ?case
  proof (cases "m_data sc = []")
    case True
    then show ?thesis
      using less.prems by (simp add: scan_field.simps [of sc])
  next
    case False
    then have r: "unread sc \<noteq> []" "calm sc"
      using less.prems by (simp_all add: unread_def)
    note round = field_round_rows [OF less.prems(1,2) r(2) less.prems(5,6) r(1)]
    show ?thesis
    proof (cases "field_round sc")
      case (Again sc1)
      then have sc1: "moved sc sc1" "calm sc1" "length (unread sc1) < length (unread sc)" "length (m_stack sc1) \<le> field_stack d enc"
        "\<And>u. rows d FIELD enc (unread sc @ u) = rows d FIELD enc (unread sc1 @ u)"
        using round by simp_all
      then obtain x where "scan_field sc1 = Some x" "field_sim d enc sc1 x"
        using less.hyps [OF sc1(3)] less.prems conf_moved [of d sc sc1] by (auto simp: calm_def moved_def)
      then show ?thesis
        using field_sim_trans [OF sc1(1) _ sc1(5)] sc1(3) False Again by (simp add: scan_field.simps [of sc])
    next
      case (Stop st sc1)
      then show ?thesis
        using round False by (simp add: scan_field.simps [of sc])
    qed
  qed
qed

subsection \<open>Skipped rows and starts of lines\<close>

text \<open>
  The two loops that look for a sequence. Of the file with the unread text \<open>r\<close> they compute \<open>F r\<close>: it becomes \<open>G\<close> of what is
  left once the sequence is found. At most \<open>b\<close> characters are on the stack.
\<close>

definition find_sim :: "nat \<Rightarrow> (string \<Rightarrow> 'x) \<Rightarrow> (string \<Rightarrow> 'x) \<Rightarrow> scanner \<Rightarrow> bool \<Rightarrow> scanner \<Rightarrow> bool" where
  "find_sim b F G sc found sc' \<longleftrightarrow> moved sc sc' \<and>
     (if found then calm sc' \<and> m_stack sc' = [] \<and> length (unread sc') < length (unread sc) \<and> (\<forall>u. F (unread sc @ u) = G (unread sc' @ u))
      else m_data sc' = [] \<and> \<not> m_stack_overflow sc' \<and> length (m_stack sc') \<le> b \<and> (\<forall>u. F (unread sc @ u) = F (unread sc' @ u)))"

fun find_round :: "nat \<Rightarrow> (string \<Rightarrow> 'x) \<Rightarrow> (string \<Rightarrow> 'x) \<Rightarrow> scanner \<Rightarrow> bool round \<Rightarrow> bool" where
  "find_round b F G sc (Stop found sc') \<longleftrightarrow> found \<and> find_sim b F G sc True sc'"
| "find_round b F G sc (Again sc') \<longleftrightarrow> find_sim b F G sc False sc' \<or>
     moved sc sc' \<and> calm sc' \<and> length (m_stack sc') \<le> b \<and> length (unread sc') < length (unread sc) \<and>
     (\<forall>u. F (unread sc @ u) = F (unread sc' @ u))"

lemma find_sim_trans:
  assumes "moved sc sc1" and "length (unread sc1) < length (unread sc)" and "\<And>u. F (unread sc @ u) = F (unread sc1 @ u)"
    and "find_sim b F G sc1 found sc2"
  shows "find_sim b F G sc found sc2"
  using assms by (auto simp: find_sim_def intro: moved_trans)

locale find_loop =
  fixes loop :: "scanner \<Rightarrow> (bool \<times> scanner) option" and round :: "scanner \<Rightarrow> bool round"
  assumes loop_eq: "loop sc =
    (if m_data sc \<noteq> [] then (case round sc of Again sc' \<Rightarrow> loop sc' | Stop r sc' \<Rightarrow> Some (r, sc')) else Some (False, sc))"
begin

lemma loop_done: "m_data sc = [] \<Longrightarrow> loop sc = Some (False, sc)"
  by (simp add: loop_eq [of sc])

lemma loop_sim:
  assumes "\<And>sc. conf d sc \<Longrightarrow> calm sc \<Longrightarrow> length (m_stack sc) \<le> b \<Longrightarrow> unread sc \<noteq> [] \<Longrightarrow> find_round b F G sc (round sc)"
    and "conf d sc" and "calm sc" and "length (m_stack sc) \<le> b"
  shows "\<exists>found sc'. loop sc = Some (found, sc') \<and> find_sim b F G sc found sc'"
  using assms(2-)
proof (induction "length (unread sc)" arbitrary: sc rule: less_induct)
  case less
  show ?case
  proof (cases "m_data sc = []")
    case True
    then show ?thesis
      using less.prems by (auto simp: loop_done find_sim_def calm_def)
  next
    case False
    then have step: "find_round b F G sc (round sc)"
      using assms(1) [OF less.prems] by (simp add: unread_def)
    show ?thesis
    proof (cases "round sc")
      case (Again sc1)
      then consider "find_sim b F G sc False sc1" | "moved sc sc1" "calm sc1" "length (m_stack sc1) \<le> b"
          "length (unread sc1) < length (unread sc)" "\<And>u. F (unread sc @ u) = F (unread sc1 @ u)"
        using step by auto
      then show ?thesis
      proof cases
        case 1
        then show ?thesis
          using Again False by (auto simp: loop_eq [of sc] loop_done find_sim_def)
      next
        case 2
        then obtain found sc' where "loop sc1 = Some (found, sc')" "find_sim b F G sc1 found sc'"
          using less.hyps [OF 2(4) conf_moved [OF less.prems(1) 2(1)] 2(2,3)] by blast
        then show ?thesis
          using find_sim_trans [OF 2(1,4,5)] Again False by (simp add: loop_eq [of sc])
      qed
    next
      case (Stop found sc1)
      then show ?thesis
        using step False by (auto simp: loop_eq [of sc])
    qed
  qed
qed

end

interpretation skip: find_loop skip_row skip_row_round
  by unfold_locales (rule skip_row.simps)

interpretation line: find_loop line_start_loop line_start_round
  by unfold_locales (rule line_start_loop.simps)

text \<open>The test for the sequence \<open>s\<close> at a character \<open>c\<close> that has been read.\<close>

lemma seq_round:
  assumes sc: "calm sc" "length (m_stack sc) \<le> length s" "length s \<le> m_stack_size sc" and s: "s \<noteq> []"
    and get: "unread sc = c # r" "get sc = (Ch c, sc1)"
    and yes: "\<And>u. follows s (c # r @ u) \<Longrightarrow> F (c # r @ u) = G (drop (length s) (c # r @ u))"
    and no: "\<And>u. \<not> follows s (c # r @ u) \<Longrightarrow> F (c # r @ u) = F (r @ u)"
  shows "find_round (length s) F G sc
    (case if Ch c = first_char s then contains_seq s sc1 else (False, sc1) of
       (found, sc2) \<Rightarrow>
         if found then Stop True sc2 else Again (if m_end_of_block sc2 then unget c sc2 else sc2))"
proof -
  have sc1: "adv 1 sc sc1" "length (m_stack sc1) = length (m_stack sc) - 1"
    using get_Cons [OF get(1)] get(2) by auto
  then have bounds: "\<not> m_end_of_block sc1" "length s \<le> m_stack_size sc1 + 1" "length (m_stack sc1) \<le> m_stack_size sc1"
    using sc by (auto simp: adv_def calm_def moved_def)
  have r: "unread sc1 = r" "moved sc sc1" "calm sc1" "m_stack_size sc1 = m_stack_size sc"
    using sc1 get(1) sc(1) by (simp_all add: adv_def calm_def moved_def)
  show ?thesis
  proof (cases rule: seq_cases [OF bounds, where c = c, case_names found cut other])
    case (found sc')
    have "F (unread sc @ u) = G (unread sc' @ u)" for u
      using yes [of u] found(1,3) r(1) get(1) s by (cases s) (simp_all add: adv_def)
    then have "find_sim (length s) F G sc True sc'"
      using found(3,4) r get(1) sc sc1(2) by (auto simp: find_sim_def adv_def calm_def intro: moved_trans)
    then show ?thesis
      by (simp only: found prod.case if_True find_round.simps)
  next
    case (cut sc')
    have "length r + 1 < length s"
      using cut(7) r(1) by simp
    moreover have "moved sc sc'" "m_stack sc' = r" "m_stack_size sc' = m_stack_size sc" "\<not> m_stack_overflow sc'"
      using cut r by (auto simp: calm_def moved_def unread_def)
    ultimately have "find_sim (length s) F G sc False (unget c sc')"
      using cut(4,5) r(1) get(1) sc(3) by (auto simp: find_sim_def)
    then show ?thesis
      by (simp only: cut(1,2) prod.case if_True if_False find_round.simps simp_thms)
  next
    case (other sc')
    then have "moved sc sc'" "calm sc'" "length (m_stack sc') \<le> length s" "unread sc' = r" "\<not> m_end_of_block sc'"
      using r sc(2) sc1(2) by (auto simp: adv_def calm_def intro: moved_trans)
    then show ?thesis
      using no other(1) r(1) get(1) by (simp only: other(2) prod.case if_False find_round.simps) simp
  qed
qed

lemma line_start_round_sim:
  assumes "conf d sc" "calm sc" "length (m_stack sc) \<le> length (lines_starting_by d)" "unread sc \<noteq> []" "lines_starting_by d \<noteq> []"
  shows "find_round (length (lines_starting_by d)) (rows d PREFIX enc) (rows d BEGIN_OF_FIELD enc) sc (line_start_round sc)"
proof -
  obtain c r where Cons: "unread sc = c # r"
    using assms(4) by (cases "unread sc") auto
  obtain sc1 where get: "get sc = (Ch c, sc1)"
    using get_Cons [OF Cons] .
  have S: "m_lines_starting_by sc = lines_starting_by d" "length (lines_starting_by d) \<le> m_stack_size sc"
    using assms(1) by (simp_all add: conf_def)
  show ?thesis
    unfolding line_start_round_def get prod.case S(1) to_char.simps
  proof (rule seq_round [OF assms(2,3) S(2) assms(5) Cons get])
    fix u
    show "rows d PREFIX enc (c # r @ u) = rows d BEGIN_OF_FIELD enc (drop (length (lines_starting_by d)) (c # r @ u))"
      if "follows (lines_starting_by d) (c # r @ u)"
      using that by (subst rows_PREFIX) (simp add: follows_def)
    show "rows d PREFIX enc (c # r @ u) = rows d PREFIX enc (r @ u)" if "\<not> follows (lines_starting_by d) (c # r @ u)"
      using that assms(5) by (subst rows_PREFIX) (simp add: follows_def)
  qed
qed

lemma skip_row_round_sim:
  assumes "scannable d" "conf d sc" "calm sc" "length (m_stack sc) \<le> length (lines_terminated_by d)" "unread sc \<noteq> []"
  shows "find_round (length (lines_terminated_by d)) (skip_ref d) (\<lambda>r. r) sc (skip_row_round sc)"
proof -
  obtain c r where Cons: "unread sc = c # r"
    using assms(5) by (cases "unread sc") auto
  obtain sc1 where get: "get sc = (Ch c, sc1)" "adv 1 sc sc1" "length (m_stack sc1) = length (m_stack sc) - 1"
    using get_Cons [OF Cons] .
  have l: "m_lines_terminated_by sc = lines_terminated_by d" "length (lines_terminated_by d) \<le> m_stack_size sc"
    "lines_terminated_by d \<noteq> []" "m_escaped_char sc = first_char (fields_escaped_by d)" "0 < m_stack_size sc"
    using assms(1,2) by (simp_all add: conf_def scannable_def)
  have sc1: "unread sc1 = r" "moved sc sc1" "calm sc1" "m_stack_size sc1 = m_stack_size sc"
    using get(2) Cons assms(3) by (simp_all add: adv_def calm_def moved_def)
  show ?thesis
  proof (cases "Ch c = first_char (fields_escaped_by d)")
    case False
    then have "skip_row_round sc =
        (case if Ch c = first_char (lines_terminated_by d) then contains_seq (lines_terminated_by d) sc1 else (False, sc1) of
           (found, sc2) \<Rightarrow> if found then Stop True sc2 else Again (if m_end_of_block sc2 then unget c sc2 else sc2))"
      unfolding skip_row_round_def get(1) prod.case l(1,4) to_char.simps by simp
    moreover have "find_round (length (lines_terminated_by d)) (skip_ref d) (\<lambda>r. r) sc \<dots>"
      using False l(3) by (intro seq_round [OF assms(3,4) l(2,3) Cons get(1)]; subst skip_ref.simps) (auto simp: follows_def)
    ultimately show ?thesis
      by (simp only:)
  next
    case esc: True
    show ?thesis
    proof (cases r)
      case Nil
      then have empty: "get sc1 = (k_end_of_block, sc1\<lparr>m_end_of_block := True\<rparr>)" "m_data sc1 = []" "m_stack sc1 = []"
        using get_Nil [of sc1] end_of_data [of sc1] sc1(1) by simp_all
      have "skip_row_round sc = Again (unget c (sc1\<lparr>m_end_of_block := True\<rparr>))"
        using esc [symmetric] get(1) l(4) empty(1) by (simp add: skip_row_round_def)
      moreover have "find_sim (length (lines_terminated_by d)) (skip_ref d) (\<lambda>r. r) sc False (unget c (sc1\<lparr>m_end_of_block := True\<rparr>))"
        using sc1 empty Cons Nil l(3,5) by (auto simp: find_sim_def calm_def unread_def unget_def moved_def Suc_le_eq)
      ultimately show ?thesis
        by simp
    next
      case r: (Cons c' r')
      then obtain sc2 where get2: "get sc1 = (Ch c', sc2)" "adv 1 sc1 sc2" "length (m_stack sc2) = length (m_stack sc1) - 1"
        using get_Cons [of sc1] sc1(1) by metis
      have "skip_row_round sc = Again sc2"
        using esc [symmetric] get(1) l(4) get2(1,2) sc1(3) by (simp add: skip_row_round_def adv_def calm_def)
      moreover have "skip_ref d (c # c' # w) = skip_ref d w" for w
        by (subst skip_ref.simps) (simp add: esc)
      ultimately show ?thesis
        using get2(2,3) get(3) assms(4) sc1 Cons r by (auto simp: adv_def calm_def intro: moved_trans)
    qed
  qed
qed

subsection \<open>Rows\<close>

text \<open>The state between two rounds: the stack holds less than what separates the scanner from the next row.\<close>

definition scan_inv :: "Dialect \<Rightarrow> char option \<Rightarrow> scanner \<Rightarrow> bool" where
  "scan_inv d enc sc \<longleftrightarrow> conf d sc \<and> \<not> m_stack_overflow sc \<and> length (m_stack sc) \<le> row_distance d (m_status sc) enc \<and>
     (m_status sc = FIELD \<longrightarrow> m_found_enclosed_char sc = enc_int enc)"

text \<open>The rows \<open>E\<close>, as distances from the end of the block, start in the part that has been read since.\<close>

definition found_rows :: "Dialect \<Rightarrow> char option \<Rightarrow> scanner \<Rightarrow> nat list \<Rightarrow> char option \<Rightarrow> scanner \<Rightarrow> bool" where
  "found_rows d enc sc E enc' sc' \<longleftrightarrow> scan_inv d enc' sc' \<and> m_data sc' = [] \<and> m_skip_rows sc' = m_skip_rows sc \<and>
     (\<forall>u. rows d (m_status sc) enc (unread sc @ u) = map (\<lambda>x. x + length u) E @ rows d (m_status sc') enc' (unread sc' @ u))"

definition rows_step :: "Dialect \<Rightarrow> char option \<Rightarrow> scanner \<Rightarrow> char option \<Rightarrow> scanner \<Rightarrow> bool" where
  "rows_step d enc sc enc' sc' \<longleftrightarrow> scan_inv d enc' sc' \<and> calm sc' \<and> m_skip_rows sc' = m_skip_rows sc \<and>
     4 * length (unread sc') + status_rank (m_status sc') < 4 * length (unread sc) + status_rank (m_status sc) \<and>
     (\<forall>u. rows d (m_status sc) enc (unread sc @ u) = rows d (m_status sc') enc' (unread sc' @ u))"

lemma found_rows_step: "rows_step d enc sc enc1 sc1 \<Longrightarrow> found_rows d enc1 sc1 E enc' sc' \<Longrightarrow> found_rows d enc sc E enc' sc'"
  by (simp add: rows_step_def found_rows_def)

lemma status_simps [simp]:
  "unread (sc\<lparr>m_status := st\<rparr>) = unread sc" "calm (sc\<lparr>m_status := st\<rparr>) = calm sc" "conf d (sc\<lparr>m_status := st\<rparr>) = conf d sc"
  "unread (sc\<lparr>m_found_enclosed_char := e\<rparr>) = unread sc" "calm (sc\<lparr>m_found_enclosed_char := e\<rparr>) = calm sc"
  "conf d (sc\<lparr>m_found_enclosed_char := e\<rparr>) = conf d sc"
  by (simp_all add: unread_def calm_def conf_def)

lemma unget_fields [simp]:
  "conf d (unget c sc) = conf d sc" "m_skip_rows (unget c sc) = m_skip_rows sc" "m_found_enclosed_char (unget c sc) = m_found_enclosed_char sc"
  by (simp_all add: unget_def conf_def)

lemma prefix_step:
  assumes sc: "scan_inv d enc sc" "calm sc" "m_data sc \<noteq> []" and st: "m_status sc = PREFIX"
  obtains (stop) sc' where "rows_loop len fr sc = Some (fr, sc')" "found_rows d enc sc [] enc sc'"
    | (step) sc1 where "rows_loop len fr sc = rows_loop len fr sc1" "rows_step d enc sc enc sc1"
proof (cases "lines_starting_by d = []")
  case True
  then have "skip_line_start sc = Some (True, sc)" "\<And>r. rows d PREFIX enc r = rows d BEGIN_OF_FIELD enc r"
    using sc(1) by (simp_all add: scan_inv_def conf_def skip_line_start_def seq_used_def chr_used_def first_char_def rows_PREFIX)
  then show ?thesis
    using step [of "sc\<lparr>m_status := BEGIN_OF_FIELD\<rparr>"] sc st True
    by (simp add: rows_loop.simps [of len fr sc] rows_step_def scan_inv_def)
next
  case False
  have inv: "conf d sc" "length (m_stack sc) \<le> length (lines_starting_by d)"
    using sc(1) st by (simp_all add: scan_inv_def)
  obtain found sc' where loop: "line_start_loop sc = Some (found, sc')"
      and sim: "find_sim (length (lines_starting_by d)) (rows d PREFIX enc) (rows d BEGIN_OF_FIELD enc) sc found sc'"
    using line.loop_sim [OF line_start_round_sim inv(1) sc(2) inv(2)] False by blast
  have start: "skip_line_start sc = Some (found, sc')"
    using inv(1) False loop by (simp add: skip_line_start_def seq_used_def chr_used_def first_char_def conf_def)
  show ?thesis
  proof (cases found)
    case True
    then show ?thesis
      using step [of "sc'\<lparr>m_status := BEGIN_OF_FIELD\<rparr>"] sc st sim start inv conf_moved
      by (auto simp: rows_loop.simps [of len fr sc] rows_step_def scan_inv_def find_sim_def calm_def moved_def)
  next
    case no: False
    then show ?thesis
      using stop [of sc'] sc st sim start inv conf_moved
      by (auto simp: rows_loop.simps [of len fr sc] found_rows_def scan_inv_def find_sim_def moved_def)
  qed
qed

lemma begin_of_field_step:
  assumes d: "scannable d" and sc: "scan_inv d enc sc" "calm sc" "m_data sc \<noteq> []" and st: "m_status sc = BEGIN_OF_FIELD"
  obtains enc1 sc1 where "rows_loop len fr sc = rows_loop len fr sc1" "rows_step d enc sc enc1 sc1"
proof -
  obtain c r where Cons: "unread sc = c # r"
    using sc(3) by (cases "unread sc") (auto simp: unread_def)
  obtain sc1 where get: "get sc = (Ch c, sc1)" "adv 1 sc sc1" "length (m_stack sc1) = length (m_stack sc) - 1"
    using get_Cons [OF Cons] .
  have l: "0 < length (lines_terminated_by d)" "length (lines_terminated_by d) < m_stack_size sc"
    "m_enclosed_char sc = first_char (fields_enclosed_by d)" "conf d sc1"
    using d sc get(2) by (auto simp: scannable_def scan_inv_def conf_def adv_def moved_def)
  show thesis
  proof (cases "first_char (fields_enclosed_by d) = Ch c")
    case True
    let ?sc = "sc1\<lparr>m_found_enclosed_char := Ch c, m_status := FIELD\<rparr>"
    have "begin_of_field sc = ?sc" "rows d BEGIN_OF_FIELD enc (c # w) = rows d FIELD (Some c) w" for w
      using get(1) l(3) True by (simp_all add: begin_of_field_def rows_BEGIN_OF_FIELD)
    moreover have "unread ?sc = r" "calm ?sc" "conf d ?sc" "m_skip_rows ?sc = m_skip_rows sc"
      using get(2) l(4) sc(2) Cons by (simp_all add: adv_def moved_def calm_def)
    ultimately have "rows_step d enc sc (Some c) (begin_of_field sc)"
      using Cons get(3) sc(1) st by (auto simp: rows_step_def scan_inv_def field_stack_def calm_def)
    then show thesis
      using that sc st by (simp add: rows_loop.simps [of len fr sc])
  next
    case False
    let ?sc = "(unget c (sc1\<lparr>m_found_enclosed_char := k_not_used\<rparr>))\<lparr>m_status := FIELD\<rparr>"
    have "begin_of_field sc = ?sc" "rows d BEGIN_OF_FIELD enc (c # w) = rows d FIELD None (c # w)" for w
      using get(1) l(3) False by (simp_all add: begin_of_field_def rows_BEGIN_OF_FIELD)
    moreover have "unread ?sc = c # r" "calm ?sc" "conf d ?sc" "m_skip_rows ?sc = m_skip_rows sc" "m_found_enclosed_char ?sc = k_not_used"
      using get(2,3) l(1,2,4) sc(1,2) Cons st
      by (auto simp: adv_def moved_def calm_def scan_inv_def)
    moreover have "length (m_stack ?sc) \<le> length (lines_terminated_by d)"
      using get(3) l(1) sc(1) st by (cases "lines_terminated_by d") (auto simp: scan_inv_def)
    ultimately have "rows_step d enc sc None (begin_of_field sc)"
      using Cons st by (simp add: rows_step_def scan_inv_def field_stack_def calm_def)
    then show thesis
      using that sc st by (simp add: rows_loop.simps [of len fr sc])
  qed
qed

lemma field_step:
  assumes d: "scannable d" and sc: "scan_inv d enc sc" "calm sc" "m_data sc \<noteq> []" and st: "m_status sc = FIELD"
  obtains (stop) sc' where "rows_loop len fr sc = Some (fr, sc')" "found_rows d enc sc [] enc sc'"
    | (step) sc1 where "rows_loop len fr sc = rows_loop len fr sc1" "rows_step d enc sc enc sc1"
proof -
  obtain x sc' where field: "scan_field sc = Some (x, sc')" "field_sim d enc sc (x, sc')"
    using scan_field_sim [of d sc enc] d sc st by (auto simp: scan_inv_def calm_def)
  have conf: "conf d sc"
    using sc(1) by (simp add: scan_inv_def)
  show thesis
  proof (cases x)
    case CONTINUED
    then show thesis
      using stop [of sc'] field sc st conf_moved [OF conf]
      by (auto simp: rows_loop.simps [of len fr sc] rows_loop.simps [of len fr sc'] found_rows_def scan_inv_def moved_def)
  next
    case END_OF_FIELD
    then show thesis
      using step [of "sc'\<lparr>m_status := BEGIN_OF_FIELD\<rparr>"] field sc st conf_moved [OF conf]
      by (auto simp: rows_loop.simps [of len fr sc] rows_step_def scan_inv_def calm_def moved_def)
  next
    case END_OF_LINE
    then show thesis
      using step [of "sc'\<lparr>m_status := BEGIN\<rparr>"] field sc st conf_moved [OF conf]
      by (auto simp: rows_loop.simps [of len fr sc] rows_step_def scan_inv_def calm_def moved_def)
  qed
qed

text \<open>The index of the first of the rows \<open>E\<close> in a block of length \<open>len\<close>, unless it is known.\<close>

definition row_index :: "nat \<Rightarrow> int \<Rightarrow> nat list \<Rightarrow> int" where
  "row_index len fr E = (if fr = - 1 then (case E of [] \<Rightarrow> - 1 | x # _ \<Rightarrow> int (len - x)) else fr)"

lemma rows_loop_sim:
  assumes "scannable d" and "scan_inv d enc sc" and "m_data sc \<noteq> [] \<Longrightarrow> calm sc"
  shows "\<exists>E enc' sc'. rows_loop len fr sc = Some (row_index len fr E, sc') \<and> found_rows d enc sc E enc' sc'"
  using assms(2-)
proof (induction "4 * length (unread sc) + status_rank (m_status sc)" arbitrary: sc enc fr rule: less_induct)
  case less
  have rec: ?case if "rows_loop len fr sc = rows_loop len fr sc1" "rows_step d enc sc enc1 sc1" for sc1 enc1
  proof -
    have "\<exists>E enc' sc'. rows_loop len fr sc1 = Some (row_index len fr E, sc') \<and> found_rows d enc1 sc1 E enc' sc'"
      using less.hyps [of sc1 enc1 fr] that(2) by (simp add: rows_step_def)
    then show ?thesis
      using that(1) found_rows_step [OF that(2)] by metis
  qed
  have stop: ?case if "rows_loop len fr sc = Some (fr, sc')" "found_rows d enc sc [] enc sc'" for sc'
    using that by (intro exI [of _ "[]"] exI [of _ enc] exI [of _ sc']) (simp add: row_index_def)
  show ?case
  proof (cases "m_data sc = []")
    case True
    then show ?thesis
      using stop [of sc] less.prems by (simp add: rows_loop.simps [of len fr sc] found_rows_def)
  next
    case False
    note sc = less.prems(1) less.prems(2) [OF False] False
    show ?thesis
    proof (cases "m_status sc")
      case BEGIN
      let ?sc = "sc\<lparr>m_status := PREFIX\<rparr>" and ?fr = "if fr = - 1 then int (len - length (m_data sc)) else fr"
      have loop: "rows_loop len fr sc = rows_loop len ?fr ?sc"
        using BEGIN False by (subst rows_loop.simps) simp
      have empty: "m_stack sc = []"
        using sc(1) BEGIN by (simp add: scan_inv_def)
      then obtain E enc' sc' where rec: "rows_loop len ?fr ?sc = Some (row_index len ?fr E, sc')" "found_rows d enc ?sc E enc' sc'"
        using less.hyps [of ?sc enc ?fr] sc BEGIN by (auto simp: scan_inv_def)
      have "found_rows d enc sc (length (m_data sc) # E) enc' sc'"
        using rec(2) BEGIN False empty by (simp add: found_rows_def rows_BEGIN unread_def)
      moreover have "row_index len ?fr E = row_index len fr (length (m_data sc) # E)"
        by (simp add: row_index_def)
      ultimately show ?thesis
        using loop rec(1) by metis
    next
      case PREFIX
      then show ?thesis
        using prefix_step [OF sc PREFIX, of len fr] rec stop by metis
    next
      case BEGIN_OF_FIELD
      then show ?thesis
        using begin_of_field_step [OF assms(1) sc BEGIN_OF_FIELD, of len fr] rec by metis
    next
      case FIELD
      then show ?thesis
        using field_step [OF assms(1) sc FIELD, of len fr] rec stop by metis
    qed
  qed
qed

subsection \<open>Blocks\<close>

lemma skip_ref_length: "skip_ref d r = [] \<or> length (skip_ref d r) + length (lines_terminated_by d) \<le> length r"
proof (induction d r rule: skip_ref.induct)
  case (1 d r)
  then show ?case
    by (subst skip_ref.simps, subst (2) skip_ref.simps) (auto dest: prefix_length_le)
qed

lemma skip_refs_length: "length ((skip_ref d ^^ k) r) \<le> length r"
proof (induction k)
  case (Suc k)
  then show ?case
    using skip_ref_length [of d "(skip_ref d ^^ k) r"] by auto
qed simp

text \<open>The state between two blocks, and the rows of the rest of the file.\<close>

definition block_inv :: "Dialect \<Rightarrow> char option \<Rightarrow> scanner \<Rightarrow> bool" where
  "block_inv d enc sc \<longleftrightarrow>
     (if m_skip_rows sc = 0 then scan_inv d enc sc
      else conf d sc \<and> \<not> m_stack_overflow sc \<and> m_status sc = BEGIN \<and> length (m_stack sc) \<le> length (lines_terminated_by d))"

definition rows_left :: "Dialect \<Rightarrow> char option \<Rightarrow> scanner \<Rightarrow> string \<Rightarrow> nat list" where
  "rows_left d enc sc r = rows d (m_status sc) enc ((skip_ref d ^^ m_skip_rows sc) r)"

lemma rows_left_bound:
  assumes "block_inv d enc sc" and "e \<in> set (rows_left d enc sc (m_stack sc @ u))"
  shows "0 < e \<and> e \<le> length u"
proof (cases "m_skip_rows sc")
  case 0
  then show ?thesis
    using assms rows_bound [of e d "m_status sc" enc "m_stack sc @ u"] by (auto simp: block_inv_def scan_inv_def rows_left_def)
next
  case (Suc k)
  have "0 < e" "e \<le> length ((skip_ref d ^^ k) (skip_ref d (m_stack sc @ u)))" "length (m_stack sc) \<le> length (lines_terminated_by d)"
    using assms Suc rows_bound [of e d BEGIN enc] by (auto simp: block_inv_def rows_left_def funpow_Suc_right simp del: funpow.simps)
  then show ?thesis
    using skip_refs_length [of k d "skip_ref d (m_stack sc @ u)"] skip_ref_length [of d "m_stack sc @ u"] by auto
qed

lemma skip_rows_loop_sim:
  assumes "scannable d" "conf d sc" "calm sc" "length (m_stack sc) \<le> length (lines_terminated_by d)"
    and "m_skip_rows sc = 0 \<Longrightarrow> m_stack sc = []"
  shows "\<exists>skipped sc'. skip_rows_loop sc = Some (skipped, sc') \<and> conf d sc' \<and> m_status sc' = m_status sc \<and>
    (\<forall>u. (skip_ref d ^^ m_skip_rows sc) (unread sc @ u) = (skip_ref d ^^ m_skip_rows sc') (unread sc' @ u)) \<and>
    (if skipped then calm sc' \<and> m_skip_rows sc' = 0 \<and> m_stack sc' = []
     else m_data sc' = [] \<and> \<not> m_stack_overflow sc' \<and> 0 < m_skip_rows sc' \<and> length (m_stack sc') \<le> length (lines_terminated_by d))"
  using assms(2-)
proof (induction "m_skip_rows sc" arbitrary: sc)
  case 0
  then show ?case
    by (auto simp: skip_rows_loop.simps [of sc])
next
  case (Suc k)
  obtain found sc1 where loop: "skip_row sc = Some (found, sc1)"
      and sim: "find_sim (length (lines_terminated_by d)) (skip_ref d) (\<lambda>r. r) sc found sc1"
    using skip.loop_sim [OF skip_row_round_sim [OF assms(1)] Suc.prems(1-3)] by blast
  have sc1: "moved sc sc1" "conf d sc1" "m_skip_rows sc1 = Suc k" "m_status sc1 = m_status sc"
    using sim conf_moved [OF Suc.prems(1)] Suc.hyps(2) by (auto simp: find_sim_def moved_def)
  show ?case
  proof (cases found)
    case True
    let ?sc = "sc1\<lparr>m_skip_rows := k\<rparr>"
    have sc: "conf d ?sc" "calm ?sc" "m_stack ?sc = []" "unread ?sc = unread sc1"
      using sc1(2) sim True by (auto simp: find_sim_def conf_def calm_def unread_def)
    then obtain skipped sc' where "skip_rows_loop ?sc = Some (skipped, sc')" "conf d sc'" "m_status sc' = m_status sc"
      "\<And>u. (skip_ref d ^^ k) (unread sc1 @ u) = (skip_ref d ^^ m_skip_rows sc') (unread sc' @ u)"
      "if skipped then calm sc' \<and> m_skip_rows sc' = 0 \<and> m_stack sc' = []
       else m_data sc' = [] \<and> \<not> m_stack_overflow sc' \<and> 0 < m_skip_rows sc' \<and> length (m_stack sc') \<le> length (lines_terminated_by d)"
      using Suc.hyps(1) [of ?sc] sc1 by auto
    moreover have "skip_ref d (unread sc @ u) = unread sc1 @ u" for u
      using sim True by (simp add: find_sim_def)
    ultimately show ?thesis
      using loop True sc1(3) Suc.hyps(2) [symmetric]
      by (simp add: skip_rows_loop.simps [of sc] funpow_Suc_right del: funpow.simps)
  next
    case False
    then show ?thesis
      using sim loop sc1 Suc.hyps(2) [symmetric]
      by (auto simp: skip_rows_loop.simps [of sc] find_sim_def funpow_Suc_right simp del: funpow.simps)
  qed
qed

lemma scan_block_sim:
  assumes d: "scannable d" and inv: "block_inv d enc sc"
  shows "\<exists>E enc' sc'. scan_block b sc = Some (row_index (length b) (- 1) E, sc') \<and> block_inv d enc' sc' \<and>
    (\<forall>u. rows_left d enc sc (m_stack sc @ b @ u) = map (\<lambda>x. x + length u) E @ rows_left d enc' sc' (m_stack sc' @ u))"
proof -
  let ?sc = "sc\<lparr>m_data := b, m_end_of_block := False\<rparr>"
  have start: "calm ?sc" "conf d ?sc" "unread ?sc = m_stack sc @ b"
    using inv by (auto simp: block_inv_def scan_inv_def conf_def calm_def unread_def split: if_splits)
  have rows: "\<exists>E enc' sc2. rows_loop (length b) (- 1) sc1 = Some (row_index (length b) (- 1) E, sc2) \<and> block_inv d enc' sc2 \<and>
      (\<forall>u. rows d (m_status sc1) enc (unread sc1 @ u) = map (\<lambda>x. x + length u) E @ rows_left d enc' sc2 (m_stack sc2 @ u))"
    if "scan_inv d enc sc1" "calm sc1" "m_skip_rows sc1 = 0" for sc1
    using rows_loop_sim [OF d that(1), of "length b" "- 1"] that
    by (fastforce simp: found_rows_def block_inv_def rows_left_def unread_def)
  show ?thesis
  proof (cases "m_skip_rows sc = 0")
    case True
    then have "scan_inv d enc ?sc" "scan_block b sc = rows_loop (length b) (- 1) ?sc"
      using inv by (simp_all add: block_inv_def scan_inv_def conf_def scan_block_def skip_rows_loop.simps [of ?sc])
    then show ?thesis
      using rows [of ?sc] start True by (simp add: rows_left_def)
  next
    case False
    have "m_status sc = BEGIN" "length (m_stack ?sc) \<le> length (lines_terminated_by d)"
      using False inv by (simp_all add: block_inv_def)
    then obtain skipped sc1 where loop: "skip_rows_loop ?sc = Some (skipped, sc1)" "conf d sc1" "m_status sc1 = BEGIN"
      and refs: "\<And>u. (skip_ref d ^^ m_skip_rows sc) (m_stack sc @ b @ u) = (skip_ref d ^^ m_skip_rows sc1) (unread sc1 @ u)"
      and ends: "if skipped then calm sc1 \<and> m_skip_rows sc1 = 0 \<and> m_stack sc1 = []
        else m_data sc1 = [] \<and> \<not> m_stack_overflow sc1 \<and> 0 < m_skip_rows sc1 \<and> length (m_stack sc1) \<le> length (lines_terminated_by d)"
      using skip_rows_loop_sim [OF d start(2,1)] False start(3) by auto
    show ?thesis
    proof (cases skipped)
      case True
      then show ?thesis
        using rows [of sc1] loop refs ends \<open>m_status sc = BEGIN\<close> by (simp add: scan_block_def scan_inv_def rows_left_def calm_def)
    next
      case no: False
      then have "scan_block b sc = Some (row_index (length b) (- 1) [], sc1)" "block_inv d enc sc1"
        using loop ends by (simp_all add: scan_block_def row_index_def block_inv_def)
      moreover have "rows_left d enc sc (m_stack sc @ b @ u) = map (\<lambda>x. x + length u) [] @ rows_left d enc sc1 (m_stack sc1 @ u)" for u
        using refs [of u] loop(3) ends no \<open>m_status sc = BEGIN\<close> by (simp add: rows_left_def unread_def)
      ultimately show ?thesis
        by blast
    qed
  qed
qed

lemma first_rows_append:
  assumes "\<And>x. x \<in> set E \<Longrightarrow> 0 < x" and "\<And>x. x \<in> set T \<Longrightarrow> x \<le> length (concat bs)"
  shows "first_rows (map (\<lambda>x. x + length (concat bs)) E @ T) (b # bs) = row_index (length b) (- 1) E # first_rows T bs"
proof -
  let ?E = "map (\<lambda>x. x + length (concat bs)) E"
  have E: "length (concat bs) < x" if "x \<in> set ?E" for x
    using that assms(1) by auto
  have T: "takeWhile (\<lambda>x. length (concat bs) < x) T = []" "dropWhile (\<lambda>x. length (concat bs) < x) T = T"
    using assms(2) by (cases T; force)+
  have "takeWhile (\<lambda>x. length (concat bs) < x) (?E @ T) = ?E" "dropWhile (\<lambda>x. length (concat bs) < x) (?E @ T) = T"
    using takeWhile_append2 [of ?E "\<lambda>x. length (concat bs) < x" T] dropWhile_append2 [of ?E "\<lambda>x. length (concat bs) < x" T] E T
    by simp_all
  then show ?thesis
    by (simp add: Let_def row_index_def split: list.split)
qed

lemma scan_blocks_sim:
  assumes "scannable d" and "block_inv d enc sc"
  shows "\<exists>sc'. scan_blocks sc bs = Some (first_rows (rows_left d enc sc (m_stack sc @ concat bs)) bs, sc') \<and> \<not> m_stack_overflow sc'"
  using assms(2)
proof (induction bs arbitrary: enc sc)
  case Nil
  then show ?case
    by (auto simp: block_inv_def scan_inv_def split: if_splits)
next
  case (Cons b bs)
  obtain E enc' sc1 where block: "scan_block b sc = Some (row_index (length b) (- 1) E, sc1)" "block_inv d enc' sc1"
    and left: "\<And>u. rows_left d enc sc (m_stack sc @ b @ u) = map (\<lambda>x. x + length u) E @ rows_left d enc' sc1 (m_stack sc1 @ u)"
    using scan_block_sim [OF assms(1) Cons.prems] by blast
  have "0 < x" if "x \<in> set E" for x
    using that left [of "[]"] rows_left_bound [OF Cons.prems, of x b] by simp
  moreover have "x \<le> length (concat bs)" if "x \<in> set (rows_left d enc' sc1 (m_stack sc1 @ concat bs))" for x
    using rows_left_bound [OF block(2) that] by simp
  ultimately have "first_rows (rows_left d enc sc (m_stack sc @ concat (b # bs))) (b # bs) =
      row_index (length b) (- 1) E # first_rows (rows_left d enc' sc1 (m_stack sc1 @ concat bs)) bs"
    using first_rows_append [of E "rows_left d enc' sc1 (m_stack sc1 @ concat bs)" bs b] left [of "concat bs"]
    by (simp del: first_rows.simps)
  then show ?case
    using Cons.IH [OF block(2)] block(1) by auto
qed

lemma scan_blocks_new:
  assumes "scannable d" and "Scanner_new d k = Inr sc"
  shows "\<exists>sc'. scan_blocks sc blocks = Some (first_rows (row_starts d k (concat blocks)) blocks, sc') \<and> \<not> m_stack_overflow sc'"
proof -
  have "block_inv d None sc" "rows_left d None sc (m_stack sc @ r) = row_starts d k r" for r
    using assms(2) by (auto simp: Scanner_new_def block_inv_def scan_inv_def conf_def rows_left_def row_starts_def Let_def split: if_splits)
  then show ?thesis
    using scan_blocks_sim [OF assms(1), of None sc blocks] by simp
qed

section \<open>Properties\<close>

lemma find_sub_hd: "s \<noteq> [] \<Longrightarrow> find_sub s [hd s] 0 = Some 0"
  by (cases s) (auto simp: find_sub_def)

lemma validated_scannable:
  assumes "dialect_validate d = Inr ()" and "length (fields_terminated_by d) \<le> length (lines_terminated_by d)"
    and "Scanner_new d k = Inr sc"
  shows "scannable d"
proof -
  have L: "lines_terminated_by d \<noteq> []"
    using assms(3) by (auto simp: Scanner_new_def split: if_splits)
  have "fields_escaped_by d \<noteq> [hd (lines_terminated_by d)]" "length (fields_escaped_by d) \<le> 1"
    using assms(1) L find_sub_hd [OF L] by (auto simp: dialect_validate_def split: if_splits)
  then have "first_char (fields_escaped_by d) \<noteq> first_char (lines_terminated_by d)"
    using L by (cases "fields_escaped_by d") (auto simp: first_char_def)
  then show ?thesis
    using L assms(2) by (simp add: scannable_def)
qed

text \<open>
  C5. The scanner finds the rows of a file however the file is cut into blocks: for a validated dialect in which the
  terminator of fields is not longer than that of lines, scanning the blocks one after the other gives for each
  block the index of the first row that starts in it, or -1, where the rows are those of the whole file after the
  skipped ones; and the stack of characters never overflows.
\<close>

theorem scan_finds_rows:
  assumes "dialect_validate d = Inr ()" and "length (fields_terminated_by d) \<le> length (lines_terminated_by d)"
    and "Scanner_new d k = Inr sc"
  shows "\<exists>sc'. scan_blocks sc blocks = Some (first_rows (row_starts d k (concat blocks)) blocks, sc') \<and> \<not> m_stack_overflow sc'"
  by (rule scan_blocks_new [OF validated_scannable [OF assms] assms(3)])

definition csv_blocks :: "string list" where
  "csv_blocks =
     [''h'' @ [newline], ''1,'' @ [dquote] @ ''a'', [newline] @ ''b'' @ [dquote], [newline, CHR ''2'']]"

theorem scan_finds_rows_witness:
  "\<exists>sc sc'. Scanner_new dialect_csv_unix 1 = Inr sc \<and> scan_blocks sc csv_blocks = Some ([- 1, 0, - 1, 1], sc') \<and>
     \<not> m_stack_overflow sc'"
proof -
  obtain sc where sc: "Scanner_new dialect_csv_unix 1 = Inr sc"
    by (simp add: Scanner_new_def dialect_csv_unix_def)
  have "dialect_validate dialect_csv_unix = Inr ()"
    "length (fields_terminated_by dialect_csv_unix) \<le> length (lines_terminated_by dialect_csv_unix)"
    "first_rows (row_starts dialect_csv_unix 1 (concat csv_blocks)) csv_blocks = [- 1, 0, - 1, 1]"
    by (simp add: dialect_validate_def dialect_csv_unix_def BUFFER_SIZE_def find_sub_def, code_simp, code_simp)
  then show ?thesis
    using scan_finds_rows [OF _ _ sc, of csv_blocks] sc by auto
qed

text \<open>
  With a terminator of fields that is longer than that of lines, a row can start in characters that have been put back:
  here the second row starts in the second block, which is said to have none.
\<close>

definition long_fields :: Dialect where
  "long_fields = dialect_csv_unix\<lparr>fields_terminated_by := ''a'' @ [newline] @ ''b''\<rparr>"

lemma scan_misses_row:
  "dialect_validate long_fields = Inr ()"
  "map_option (\<lambda>(starts, _). starts) (case Scanner_new long_fields 0 of Inr sc \<Rightarrow> scan_blocks sc [''a'' @ [newline], ''a''] | Inl _ \<Rightarrow> None) =
     Some [0, - 1]"
  "first_rows (row_starts long_fields 0 (''a'' @ [newline] @ ''a'')) [''a'' @ [newline], ''a''] = [0, 0]"
  by (simp add: dialect_validate_def long_fields_def dialect_csv_unix_def BUFFER_SIZE_def find_sub_def, code_simp, code_simp)

end
