(* ===== verification/Import_Lines.thy ===== *)
theory Import_Lines
  imports Import_Scanner_Correct
begin

text \<open>
  The rows of files without enclosed fields, escapes and prefixes of lines are their lines, for one-character line
  terminators: the reference that the scanner is shown to follow says there what it is meant to say.
\<close>

section \<open>Definitions\<close>

definition after_line :: "char \<Rightarrow> string \<Rightarrow> string" where
  "after_line c r = tl (dropWhile (\<lambda>x. x \<noteq> c) r)"

definition plain_lines :: "char \<Rightarrow> Dialect \<Rightarrow> bool" where
  "plain_lines c d \<longleftrightarrow> lines_terminated_by d = [c] \<and> c \<notin> set (fields_terminated_by d) \<and> fields_escaped_by d = [] \<and>
     fields_enclosed_by d = [] \<and> lines_starting_by d = []"

section \<open>Facts\<close>

lemma after_line_length [simp]: "r \<noteq> [] \<Longrightarrow> length (after_line c r) < length r"
  using length_dropWhile_le [of "\<lambda>x. x \<noteq> c" r] by (cases r) (auto simp: after_line_def le_imp_less_Suc)

text \<open>The starts of lines, each as the number of characters from there to the end of the file.\<close>

function line_starts :: "char \<Rightarrow> string \<Rightarrow> nat list" where
  "line_starts c r = (if r = [] then [] else length r # line_starts c (after_line c r))"
  by pat_completeness auto
termination
  by (relation "measure (\<lambda>(c, r). length r)") auto

declare line_starts.simps [simp del]

lemma after_line_drop: "c \<notin> set f \<Longrightarrow> prefix f r \<Longrightarrow> after_line c (drop (length f) r) = after_line c r"
proof -
  have "c \<notin> set f \<Longrightarrow> dropWhile (\<lambda>x. x \<noteq> c) (f @ w) = dropWhile (\<lambda>x. x \<noteq> c) w" for w
    by (induction f) auto
  then show "c \<notin> set f \<Longrightarrow> prefix f r \<Longrightarrow> after_line c (drop (length f) r) = after_line c r"
    by (auto simp: prefix_def after_line_def)
qed

lemma rows_plain_field:
  assumes "plain_lines c d" and "st = FIELD \<or> st = BEGIN_OF_FIELD"
  shows "rows d st None r = rows d BEGIN None (after_line c r)"
  using assms(2)
proof (induction "length r" arbitrary: r st rule: less_induct)
  case less
  have field: "rows d FIELD None r = rows d BEGIN None (after_line c r)"
  proof (cases r)
    case Nil
    then show ?thesis
      by (simp add: rows_FIELD rows_BEGIN after_line_def)
  next
    case (Cons x xs)
    have d: "lines_terminated_by d = [c]" "c \<notin> set (fields_terminated_by d)" "fields_escaped_by d = []"
      using assms(1) by (simp_all add: plain_lines_def)
    have round: "ref_round d None r = ref_char d None x xs"
      using d(3) Cons by (simp add: ref_round_def first_char_def)
    note step = rows_field_step [where r = r and d = d and enc = None and u = "[]", simplified]
    consider "x = c" | "x \<noteq> c" "follows (fields_terminated_by d) r" | "x \<noteq> c" "\<not> follows (fields_terminated_by d) r"
      by blast
    then show ?thesis
    proof cases
      case 1
      then show ?thesis
        using step [of Row_ends 1] round d(1) Cons by (simp add: ref_char_def follows_def after_line_def)
    next
      case 2
      let ?r = "drop (length (fields_terminated_by d)) r"
      have "rows d FIELD None r = rows d BEGIN_OF_FIELD None ?r"
        using step [of Field_ends "length (fields_terminated_by d)"] 2 round d(1) Cons prefix_length_le [of "fields_terminated_by d" r]
        by (simp add: ref_char_def follows_def)
      also have "\<dots> = rows d BEGIN None (after_line c ?r)"
        using less.hyps [of ?r BEGIN_OF_FIELD] 2(2) Cons by (simp add: follows_def)
      also have "after_line c ?r = after_line c r"
        using after_line_drop [OF d(2)] 2(2) by (simp add: follows_def)
      finally show ?thesis .
    next
      case 3
      then show ?thesis
        using step [of Go_on 1] less.hyps [of xs FIELD] round d(1) Cons by (simp add: ref_char_def follows_def after_line_def)
    qed
  qed
  moreover have "rows d BEGIN_OF_FIELD None r = rows d FIELD None r"
    using assms(1) by (simp add: rows_BEGIN_OF_FIELD [of d None r] rows_FIELD [of d None "[]"] plain_lines_def first_char_def)
  ultimately show ?case
    using less.prems by auto
qed

lemma rows_plain: "plain_lines c d \<Longrightarrow> rows d BEGIN None r = line_starts c r"
proof (induction "length r" arbitrary: r rule: less_induct)
  case less
  have "rows d PREFIX None r = rows d BEGIN None (after_line c r)"
    using less.prems rows_plain_field [OF less.prems, of BEGIN_OF_FIELD r] by (simp add: rows_PREFIX [of d None r] plain_lines_def)
  then show ?case
    using less.hyps [of "after_line c r"] less.prems
    by (cases "r = []") (simp_all add: rows_BEGIN [of d None r] rows_BEGIN [of d None "[]"] line_starts.simps [of c r] line_starts.simps [of c "[]"])
qed

lemma skip_ref_plain: "plain_lines c d \<Longrightarrow> skip_ref d r = after_line c r"
proof (induction r)
  case Nil
  then show ?case
    by (simp add: skip_ref.simps after_line_def)
next
  case (Cons x xs)
  then show ?case
    by (simp add: skip_ref.simps [of d "x # xs"] plain_lines_def first_char_def after_line_def)
qed

lemma skip_refs_plain: "plain_lines c d \<Longrightarrow> (skip_ref d ^^ k) r = (after_line c ^^ k) r"
  by (induction k) (simp_all add: skip_ref_plain)

section \<open>Properties\<close>

text \<open>
  C28. Without enclosed fields, escapes and prefixes of lines, and with terminators of lines and of fields of one character each that
  are different, the scanner gives for each block the index of the first line that starts in it, after the
  first \<open>k\<close> lines.
\<close>

theorem scan_finds_lines:
  assumes "plain_lines c d" and "length (fields_terminated_by d) = 1"
  shows "\<exists>sc sc'. Scanner_new d k = Inr sc \<and>
    scan_blocks sc blocks = Some (first_rows (line_starts c ((after_line c ^^ k) (concat blocks))) blocks, sc')"
proof -
  obtain sc where sc: "Scanner_new d k = Inr sc"
  proof -
    have "[c] \<noteq> fields_terminated_by d"
      using assms(1) list.set_intros(1) [of c "[]"] unfolding plain_lines_def by metis
    then show thesis
      using that assms(1) by (simp add: Scanner_new_def plain_lines_def Let_def)
  qed
  have "scannable d"
    using assms by (auto simp: scannable_def plain_lines_def first_char_def)
  moreover have "row_starts d k r = line_starts c ((after_line c ^^ k) r)" for r
    using rows_plain [OF assms(1)] skip_refs_plain [OF assms(1)] by (simp add: row_starts_def)
  ultimately show ?thesis
    using scan_blocks_new [of d k sc blocks] sc by auto
qed

definition plain_tsv :: Dialect where
  "plain_tsv = dialect_tsv\<lparr>lines_terminated_by := [newline], fields_escaped_by := [], fields_enclosed_by := []\<rparr>"

theorem scan_finds_lines_witness:
  "\<exists>sc sc'. Scanner_new plain_tsv 1 = Inr sc \<and>
    scan_blocks sc [''h'' @ [newline, newline], ''ab'', [newline] @ ''c''] = Some ([2, 0, 1], sc')"
proof -
  have "plain_lines newline plain_tsv" "length (fields_terminated_by plain_tsv) = 1"
    "first_rows (line_starts newline ((after_line newline ^^ 1) (concat [''h'' @ [newline, newline], ''ab'', [newline] @ ''c''])))
       [''h'' @ [newline, newline], ''ab'', [newline] @ ''c''] = [2, 0, 1]"
    by code_simp+
  then show ?thesis
    using scan_finds_lines [of newline plain_tsv 1 "[''h'' @ [newline, newline], ''ab'', [newline] @ ''c'']"] by metis
qed

end
