(* ===== verification/Import_Transactions.thy ===== *)
theory Import_Transactions
  imports Import_Dialect
begin

text \<open>
  \<open>Transaction_buffer\<close> of \<^verbatim>\<open>modules/util/import_table/load_data.{h,cc}\<close>, which cuts the data of a file into transactions at the
  ends of rows, and \<open>local_infile_read\<close>, through which the client library fetches the data.

  The file is an \<^verbatim>\<open>IFile\<close>: its operations are an argument. A read gives bytes, a negative number or an exception. What
  is printed for oversized rows and the rate limit have no influence on the data and are left out, as is the count of
  bytes of compressed files. \<^const>\<open>None\<close> is a call through an unset pointer to a member, a failed assertion or a loop that
  does not end. The client library is an argument, too.
\<close>

section \<open>Definitions\<close>

datatype io = Bytes string | Failed | Raised exn

text \<open>\<open>io_pending\<close> is \<^verbatim>\<open>pending_write_size()\<close> of the file, or what is thrown when the file is of another class.\<close>

record 'f file_ops =
  io_is_open :: "'f \<Rightarrow> bool"
  io_open :: "'f \<Rightarrow> exn option \<times> 'f"
  io_seek :: "int \<Rightarrow> 'f \<Rightarrow> exn option \<times> 'f"
  io_read :: "nat \<Rightarrow> 'f \<Rightarrow> io \<times> 'f"
  io_pending :: "'f \<Rightarrow> nat res"

datatype boundary_impl = Impl_default | Impl_no_escape | Impl_escape

datatype trx_call = Started | Finished nat

record trx_options =
  o_max_trx_size :: nat
  o_skip_bytes :: nat
  o_transaction_started :: bool
  o_transaction_finished :: bool
  o_fast_sub_chunking :: bool

record 'f trx =
  t_dialect :: Dialect
  t_file :: 'f
  t_options :: trx_options
  t_impl :: "boundary_impl option"
  t_size :: nat
  t_end :: nat
  t_partial :: bool
  t_eof :: bool
  t_data :: string
  t_oversized :: nat
  t_calls :: "trx_call list"

abbreviation t_max :: "'f trx \<Rightarrow> nat" where
  "t_max t \<equiv> o_max_trx_size (t_options t)"

definition choose_impl :: "Dialect \<Rightarrow> boundary_impl option" where
  "choose_impl d =
     (if lines_terminated_by d = [] \<or> fields_terminated_by d = lines_terminated_by d then None
      else if dialect_eq d dialect_default then Some Impl_default
      else if fields_escaped_by d = [] then Some Impl_no_escape
      else Some Impl_escape)"

text \<open>The conversion of \<^verbatim>\<open>uint64_t\<close> to \<^verbatim>\<open>off64_t\<close>.\<close>

definition to_off64 :: "nat \<Rightarrow> int" where
  "to_off64 n = (let m = int n mod 2 ^ 64 in if m < 2 ^ 63 then m else m - 2 ^ 64)"

text \<open>The loop that reads the beginning of a file that cannot seek.\<close>

partial_function (option) skip_read :: "'f file_ops \<Rightarrow> nat \<Rightarrow> 'f \<Rightarrow> (exn option \<times> nat \<times> 'f) option" where
  "skip_read ops skip f =
     (if skip > 0
      then (case io_read ops (min skip 1024) f of
              (Raised e, f') \<Rightarrow> Some (Some e, skip, f')
            | (Failed, f') \<Rightarrow> Some (None, skip, f')
            | (Bytes s, f') \<Rightarrow> if s = [] then Some (None, skip, f') else skip_read ops (skip - length s) f')
      else Some (None, skip, f))"

declare skip_read.simps [code]

definition skip_start :: "'f file_ops \<Rightarrow> nat \<Rightarrow> 'f \<Rightarrow> (exn option \<times> nat \<times> 'f) option" where
  "skip_start ops skip f =
     (if skip > 0
      then (case io_seek ops (to_off64 skip) f of
              (None, f') \<Rightarrow> Some (None, 0, f')
            | (Some (Logic_error e), f') \<Rightarrow> skip_read ops skip f'
            | (Some (Invalid_argument e), f') \<Rightarrow> skip_read ops skip f'
            | (Some (Out_of_range e), f') \<Rightarrow> skip_read ops skip f'
            | (Some e, f') \<Rightarrow> Some (Some e, skip, f'))
      else Some (None, skip, f))"

definition Transaction_buffer_new :: "'f file_ops \<Rightarrow> Dialect \<Rightarrow> 'f \<Rightarrow> nat \<Rightarrow> nat \<Rightarrow> 'f trx res option" where
  "Transaction_buffer_new ops d f max_transaction_size skip_bytes =
     (case if io_is_open ops f then (None, f) else io_open ops f of
        (Some e, f') \<Rightarrow> Some (Inl e)
      | (None, f') \<Rightarrow>
          (case skip_start ops skip_bytes f' of
             None \<Rightarrow> None
           | Some (Some e, _) \<Rightarrow> Some (Inl e)
           | Some (None, skip, f'') \<Rightarrow>
               Some (Inr \<lparr>t_dialect = d, t_file = f'',
                 t_options = \<lparr>o_max_trx_size = (if choose_impl d = None then 0 else max_transaction_size), o_skip_bytes = skip,
                   o_transaction_started = False, o_transaction_finished = False, o_fast_sub_chunking = False\<rparr>,
                 t_impl = choose_impl d, t_size = 0, t_end = 0, t_partial = False, t_eof = False, t_data = [],
                 t_oversized = 0, t_calls = []\<rparr>)))"

text \<open>The constructor with options replaces what the other one has set.\<close>

definition Transaction_buffer_options :: "'f file_ops \<Rightarrow> Dialect \<Rightarrow> 'f \<Rightarrow> trx_options \<Rightarrow> 'f trx res option" where
  "Transaction_buffer_options ops d f options =
     map_option (\<lambda>r. bind_res r (\<lambda>t. Inr (t\<lparr>t_options := options\<rparr>)))
       (Transaction_buffer_new ops d f (o_max_trx_size options) (o_skip_bytes options))"

definition before_query :: "'f trx \<Rightarrow> 'f trx" where
  "before_query t =
     (if t_max t \<noteq> 0 \<and> o_transaction_started (t_options t) then t\<lparr>t_calls := t_calls t @ [Started]\<rparr> else t)"

definition flush_done :: "'f trx \<Rightarrow> bool \<times> 'f trx" where
  "flush_done t =
     (let t1 = (if t_max t \<noteq> 0 \<and> o_transaction_finished (t_options t)
                then t\<lparr>t_calls := t_calls t @ [Finished (t_size t)]\<rparr> else t)
      in (0 < t_max t \<and> (\<not> t_eof t \<or> t_data t \<noteq> []),
          t1\<lparr>t_size := 0, t_end := 0, t_partial := False, t_oversized := 0\<rparr>))"

definition flush_pending :: "'f trx \<Rightarrow> bool" where
  "flush_pending t \<longleftrightarrow> 0 < t_max t \<and> 0 < t_end t \<and> t_end t \<le> t_size t"

definition trx_bytes_left :: "'f trx \<Rightarrow> int" where
  "trx_bytes_left t = int (t_max t) - int (t_size t)"

definition set_trx_end_offset :: "nat \<Rightarrow> 'f trx \<Rightarrow> 'f trx" where
  "set_trx_end_offset e t = t\<lparr>t_end := t_size t + e\<rparr>"

text \<open>When the end is before what has been sent, the difference in \<open>consume\<close> wraps around and is larger than every length.\<close>

definition consume :: "nat \<Rightarrow> 'f trx \<Rightarrow> string \<times> 'f trx" where
  "consume len t =
     (let len = (if 0 < t_end t \<and> t_size t \<le> t_end t \<and> len > t_end t - t_size t then t_end t - t_size t else len)
      in if 0 < len
         then (let out = take len (t_data t); n = length out
               in (out, t\<lparr>t_data := drop len (t_data t), t_size := t_size t + n,
                          t_oversized := (if n > t_max t then t_oversized t + 1 else t_oversized t)\<rparr>))
         else ([], t))"

subsection \<open>Ends of rows\<close>

text \<open>\<^verbatim>\<open>std::string::rfind(n, pos)\<close>\<close>

definition rfind_sub :: "string \<Rightarrow> string \<Rightarrow> nat \<Rightarrow> nat option" where
  "rfind_sub s n pos =
     (if length n \<le> length s
      then List.find (\<lambda>i. take (length n) (drop i s) = n) (rev [0..<Suc (min pos (length s - length n))])
      else None)"

definition first_default :: "Dialect \<Rightarrow> string \<Rightarrow> nat" where
  "first_default d s = (case find_char s (hd (lines_terminated_by d)) 0 of None \<Rightarrow> 0 | Some p \<Rightarrow> p + 1)"

text \<open>The offset from which the last end of a row is searched.\<close>

definition last_start :: "nat \<Rightarrow> string \<Rightarrow> nat" where
  "last_start limit s = (if limit < length s then (if limit = 0 then 2 ^ 64 - 1 else limit - 1) else length s)"

definition last_default :: "Dialect \<Rightarrow> nat \<Rightarrow> string \<Rightarrow> nat" where
  "last_default d limit s =
     (let p = last_start limit s
      in if p = 0 then 0 else (case rfind_sub s [hd (lines_terminated_by d)] p of None \<Rightarrow> 0 | Some q \<Rightarrow> q + 1))"

definition first_no_escape :: "Dialect \<Rightarrow> string \<Rightarrow> nat" where
  "first_no_escape d s =
     (let needle = lines_terminated_by d
      in case find_sub s needle 0 of None \<Rightarrow> 0 | Some p \<Rightarrow> if length s \<le> p then 0 else p + length needle)"

definition last_no_escape :: "Dialect \<Rightarrow> nat \<Rightarrow> string \<Rightarrow> nat" where
  "last_no_escape d limit s =
     (let needle = lines_terminated_by d; p = last_start limit s
      in if p < length needle then 0
         else (case rfind_sub s needle p of None \<Rightarrow> 0 | Some q \<Rightarrow> if length s \<le> q then 0 else q + length needle))"

definition is_escaped :: "Dialect \<Rightarrow> string \<Rightarrow> nat \<Rightarrow> bool" where
  "is_escaped d s p \<longleftrightarrow> 0 < p \<and> s ! (p - 1) = hd (fields_escaped_by d)"

partial_function (option) first_escape_loop :: "Dialect \<Rightarrow> string \<Rightarrow> nat option \<Rightarrow> nat option" where
  "first_escape_loop d s found =
     (case found of
        None \<Rightarrow> Some 0
      | Some p \<Rightarrow>
          if \<not> is_escaped d s p then Some (p + length (lines_terminated_by d))
          else first_escape_loop d s (find_sub s (lines_terminated_by d) (p + length (lines_terminated_by d))))"

declare first_escape_loop.simps [code]

partial_function (option) last_escape_loop :: "Dialect \<Rightarrow> string \<Rightarrow> nat option \<Rightarrow> nat option" where
  "last_escape_loop d s found =
     (case found of
        None \<Rightarrow> Some 0
      | Some p \<Rightarrow>
          if \<not> is_escaped d s p then Some (p + length (lines_terminated_by d))
          else if p < length (lines_terminated_by d) then Some 0
          else last_escape_loop d s (rfind_sub s (lines_terminated_by d) (p - length (lines_terminated_by d))))"

declare last_escape_loop.simps [code]

definition first_escape :: "Dialect \<Rightarrow> string \<Rightarrow> nat option" where
  "first_escape d s = first_escape_loop d s (find_sub s (lines_terminated_by d) 0)"

definition last_escape :: "Dialect \<Rightarrow> nat \<Rightarrow> string \<Rightarrow> nat option" where
  "last_escape d limit s =
     (let needle = lines_terminated_by d; p = last_start limit s
      in if p < length needle then Some 0 else last_escape_loop d s (rfind_sub s needle p))"

definition find_first_row_boundary_after :: "'f trx \<Rightarrow> nat option" where
  "find_first_row_boundary_after t =
     (case t_impl t of
        None \<Rightarrow> None
      | Some Impl_default \<Rightarrow> Some (first_default (t_dialect t) (t_data t))
      | Some Impl_no_escape \<Rightarrow> Some (first_no_escape (t_dialect t) (t_data t))
      | Some Impl_escape \<Rightarrow> first_escape (t_dialect t) (t_data t))"

definition find_last_row_boundary_before :: "nat \<Rightarrow> 'f trx \<Rightarrow> nat option" where
  "find_last_row_boundary_before limit t =
     (case t_impl t of
        None \<Rightarrow> None
      | Some Impl_default \<Rightarrow> Some (last_default (t_dialect t) limit (t_data t))
      | Some Impl_no_escape \<Rightarrow> Some (last_no_escape (t_dialect t) limit (t_data t))
      | Some Impl_escape \<Rightarrow> last_escape (t_dialect t) limit (t_data t))"

subsection \<open>Reading\<close>

text \<open>When the read throws, the buffer keeps the characters that were added to make room.\<close>

definition read_more :: "'f file_ops \<Rightarrow> nat \<Rightarrow> 'f trx \<Rightarrow> io \<times> 'f trx" where
  "read_more ops count t =
     (if \<not> t_eof t
      then (case io_read ops count (t_file t) of
              (Raised e, f) \<Rightarrow> (Raised e, t\<lparr>t_file := f, t_data := t_data t @ replicate count nul\<rparr>)
            | (Failed, f) \<Rightarrow> (Failed, t\<lparr>t_file := f\<rparr>)
            | (Bytes s, f) \<Rightarrow>
                (Bytes s, if s = [] then t\<lparr>t_file := f, t_eof := True\<rparr> else t\<lparr>t_file := f, t_data := t_data t @ s\<rparr>))
      else (Bytes [], t))"

text \<open>A pass through \<open>read\<close>: back to its start, or the result.\<close>

datatype 'f pass = Retry "'f trx" | Return io "'f trx"

definition send :: "nat \<Rightarrow> 'f trx \<Rightarrow> 'f pass" where
  "send len t = (case consume len t of (s, t') \<Rightarrow> Return (Bytes s) t')"

text \<open>The second step: the transaction is filled.\<close>

definition fill_check :: "'f trx \<Rightarrow> 'f trx option" where
  "fill_check t =
     (if t_end t = 0 \<and> 0 < trx_bytes_left t \<and> trx_bytes_left t \<le> int (length (t_data t))
      then map_option (\<lambda>e. if 0 < e then set_trx_end_offset e t else t) (find_last_row_boundary_before (nat (trx_bytes_left t)) t)
      else Some t)"

definition send_full :: "nat \<Rightarrow> 'f trx \<Rightarrow> 'f pass option" where
  "send_full len t =
     (case if \<not> t_partial t then find_last_row_boundary_before (nat (trx_bytes_left t mod 2 ^ 64)) t else Some 0 of
        None \<Rightarrow> None
      | Some last_row_end \<Rightarrow>
          if 0 < last_row_end then Some (send len (set_trx_end_offset last_row_end t))
          else if \<not> t_partial t \<and> 0 < t_size t then Some (Return (Bytes []) (set_trx_end_offset 0 t))
          else (case find_first_row_boundary_after t of
                  None \<Rightarrow> None
                | Some row_end \<Rightarrow>
                    if 0 < row_end then Some (send len (set_trx_end_offset row_end t))
                    else Some (send len (t\<lparr>t_partial := True\<rparr>))))"

definition send_part :: "nat \<Rightarrow> 'f trx \<Rightarrow> 'f pass option" where
  "send_part len t =
     (case find_last_row_boundary_before len t of
        None \<Rightarrow> None
      | Some last_row_end \<Rightarrow>
          if 0 < last_row_end then Some (send (last_row_end mod 2 ^ 32) (t\<lparr>t_partial := False\<rparr>))
          else (case find_last_row_boundary_before (nat (trx_bytes_left t)) t of
                  None \<Rightarrow> None
                | Some last_row_end \<Rightarrow>
                    if 0 < last_row_end then Some (send (min len (last_row_end mod 2 ^ 32)) t)
                    else if t_size t = 0 then Some (send len (t\<lparr>t_partial := True\<rparr>))
                    else if t_partial t then Some (send len t)
                    else if t_eof t then Some (send len (set_trx_end_offset (length (t_data t)) t))
                    else Some (Retry t)))"

definition trx_pass :: "'f file_ops \<Rightarrow> nat \<Rightarrow> 'f trx \<Rightarrow> 'f pass option" where
  "trx_pass ops len t =
     (case if t_end t = 0 then read_more ops len t else (Bytes [], t) of
        (Bytes _, t1) \<Rightarrow>
          (case fill_check t1 of
             None \<Rightarrow> None
           | Some t2 \<Rightarrow>
               if 0 < t_end t2 then Some (send len t2)
               else if trx_bytes_left t2 \<le> int (length (t_data t2)) then send_full len t2
               else send_part len t2)
      | (r, t1) \<Rightarrow> Some (Return r t1))"

partial_function (option) trx_read :: "'f file_ops \<Rightarrow> nat \<Rightarrow> 'f trx \<Rightarrow> (io \<times> 'f trx) option" where
  "trx_read ops len t =
     (case trx_pass ops len t of
        None \<Rightarrow> None
      | Some (Retry t') \<Rightarrow> trx_read ops len t'
      | Some (Return r t') \<Rightarrow> Some (r, t'))"

declare trx_read.simps [code]

definition fast_sub_chunking :: "'f file_ops \<Rightarrow> nat \<Rightarrow> 'f trx \<Rightarrow> io \<times> 'f trx" where
  "fast_sub_chunking ops len t =
     (if t_data t \<noteq> [] then (case consume len t of (s, t') \<Rightarrow> (Bytes s, t'))
      else if trx_bytes_left t \<le> 0 then (Bytes [], t)
      else
        (case io_read ops (min len (nat (trx_bytes_left t))) (t_file t) of
           (Raised e, f) \<Rightarrow> (Raised e, t\<lparr>t_file := f\<rparr>)
         | (Bytes s, f) \<Rightarrow>
             (Bytes s, if s = [] then t\<lparr>t_file := f, t_eof := True\<rparr> else t\<lparr>t_file := f, t_size := t_size t + length s\<rparr>)
         | (Failed, f) \<Rightarrow>
             if t_size t \<noteq> 0 then (Bytes [], t\<lparr>t_file := f\<rparr>)
             else (case io_pending ops f of
                     Inl e \<Rightarrow> (Raised e, t\<lparr>t_file := f\<rparr>)
                   | Inr row_length \<Rightarrow>
                       (case io_read ops row_length f of
                          (Raised e, f') \<Rightarrow> (Raised e, t\<lparr>t_file := f', t_data := replicate row_length nul\<rparr>)
                        | (Failed, f') \<Rightarrow> (Failed, t\<lparr>t_file := f', t_data := replicate row_length nul\<rparr>)
                        | (Bytes s, f') \<Rightarrow>
                            (let t' = t\<lparr>t_file := f', t_data := s @ replicate (row_length - length s) nul\<rparr>
                             in if s = [] then (Bytes [], t')
                                else (case consume len t' of (s', t'') \<Rightarrow> (Bytes s', t'')))))))"

definition buffer_read :: "'f file_ops \<Rightarrow> nat \<Rightarrow> 'f trx \<Rightarrow> (io \<times> 'f trx) option" where
  "buffer_read ops len t =
     (if t_max t = 0 then (case io_read ops len (t_file t) of (r, f) \<Rightarrow> Some (r, t\<lparr>t_file := f\<rparr>))
      else if o_fast_sub_chunking (t_options t) then Some (fast_sub_chunking ops len t)
      else trx_read ops len t)"

subsection \<open>Transfer to the server\<close>

record 'f file_info =
  fi_range_read :: bool
  fi_bytes_left :: nat
  fi_data_bytes :: nat
  fi_buffer :: "'f trx"
  fi_last_error :: "exn option"

text \<open>
  \<open>interrupt\<close> tells whether the user has interrupted the import; a failed read is the result -1. A read that gives more bytes than it
  is asked for fails the assertion behind it.
\<close>

definition local_infile_read :: "'f file_ops \<Rightarrow> bool \<Rightarrow> nat \<Rightarrow> 'f file_info \<Rightarrow> (io \<times> 'f file_info) option" where
  "local_infile_read ops interrupt len fi =
     (let len = (if fi_range_read fi then min len (fi_bytes_left fi) else len)
      in case if flush_pending (fi_buffer fi) then Some (Bytes [], fi_buffer fi) else buffer_read ops len (fi_buffer fi) of
           None \<Rightarrow> None
         | Some (Raised e, b) \<Rightarrow> Some (Failed, fi\<lparr>fi_buffer := b, fi_last_error := Some e\<rparr>)
         | Some (Failed, b) \<Rightarrow> Some (Failed, fi\<lparr>fi_buffer := b\<rparr>)
         | Some (Bytes s, b) \<Rightarrow>
             if len < length s then None
             else Some (if interrupt then Failed else Bytes s,
                   fi\<lparr>fi_buffer := b, fi_data_bytes := fi_data_bytes fi + length s,
                      fi_bytes_left := (if fi_range_read fi then fi_bytes_left fi - length s else fi_bytes_left fi)\<rparr>))"

text \<open>
  The client library runs one \<^verbatim>\<open>LOAD DATA\<close>: it is given the callback that reads, and the state behind it, and tells what has been sent
  to the server, or that the statement has failed.
\<close>

type_synonym 'i infile_client = "(nat \<Rightarrow> 'i \<Rightarrow> (io \<times> 'i) option) \<Rightarrow> 'i \<Rightarrow> (string option \<times> 'i) option"

text \<open>The loop of the worker over the transactions of a file, with the data of each.\<close>

partial_function (option) load_transactions ::
  "'f file_ops \<Rightarrow> 'f file_info infile_client \<Rightarrow> string list \<Rightarrow> 'f file_info \<Rightarrow> (string list option \<times> 'f file_info) option"
where
  "load_transactions ops client trxs fi =
     (case client (local_infile_read ops False) (fi\<lparr>fi_buffer := before_query (fi_buffer fi), fi_data_bytes := 0\<rparr>) of
        None \<Rightarrow> None
      | Some (None, fi') \<Rightarrow> Some (None, fi')
      | Some (Some sent, fi') \<Rightarrow>
          (case flush_done (fi_buffer fi') of
             (continuation, b) \<Rightarrow>
               if continuation then load_transactions ops client (trxs @ [sent]) (fi'\<lparr>fi_buffer := b\<rparr>)
               else Some (Some (trxs @ [sent]), fi'\<lparr>fi_buffer := b\<rparr>)))"

declare load_transactions.simps [code]

text \<open>
  The worker for a file, or for a range of it: it opens the file, goes to where the range begins, and loads the rest in transactions. The
  range of a file that is loaded in chunks is a single transaction.
\<close>

record File_import_info =
  r_range_read :: bool
  r_range :: "nat \<times> nat"

definition load_file :: "'f file_ops \<Rightarrow> 'f file_info infile_client \<Rightarrow> Dialect \<Rightarrow> nat \<Rightarrow> File_import_info \<Rightarrow> 'f \<Rightarrow> string list option option" where
  "load_file ops client d max_transaction_size r f =
     (let bytes_left = (if r_range_read r then nat ((int (snd (r_range r)) - int (fst (r_range r))) mod 2 ^ 64) else 0);
          max_trx_size = (if r_range_read r then 0 else max_transaction_size)
      in case Transaction_buffer_new ops d f max_trx_size (fst (r_range r)) of
           None \<Rightarrow> None
         | Some (Inl e) \<Rightarrow> Some None
         | Some (Inr t) \<Rightarrow>
             map_option fst (load_transactions ops client []
               \<lparr>fi_range_read = r_range_read r, fi_bytes_left = bytes_left, fi_data_bytes = 0, fi_buffer = t, fi_last_error = None\<rparr>))"

end
