(* ===== verification/Import_Transactions_Facts.thy ===== *)
theory Import_Transactions_Facts
  imports Import_Transactions
begin

text \<open>
  The transaction buffer delivers every byte of the file once, and ends: for every file that keeps the contract of \<open>read\<close>, and
  every terminator of lines of one character, with which a read never gives more than it is asked for.
\<close>

section \<open>Ends of rows\<close>

lemma find_member: "List.find P xs = Some x \<Longrightarrow> x \<in> set xs \<and> P x"
  by (induction xs) (auto split: if_splits)

lemma rfind_sub_bounds:
  assumes "rfind_sub s n p = Some q"
  shows "q \<le> p \<and> q + length n \<le> length s"
proof -
  have "length n \<le> length s" "List.find (\<lambda>i. take (length n) (drop i s) = n) (rev [0..<Suc (min p (length s - length n))]) = Some q"
    using assms by (simp_all add: rfind_sub_def split: if_splits)
  then show ?thesis
    using find_member [of _ _ q] by fastforce
qed

lemma first_escape_total:
  assumes "lines_terminated_by d \<noteq> []" and "\<And>p. found = Some p \<Longrightarrow> p + length (lines_terminated_by d) \<le> length s"
  shows "\<exists>e. first_escape_loop d s found = Some e \<and> e \<le> length s"
  using assms(2)
proof (induction "length s - (case found of None \<Rightarrow> length s | Some p \<Rightarrow> p)" arbitrary: found rule: less_induct)
  case less
  let ?n = "lines_terminated_by d"
  show ?case
  proof (cases found)
    case None
    then show ?thesis
      by (simp add: first_escape_loop.simps)
  next
    case (Some p)
    have p: "p + length ?n \<le> length s" "0 < length ?n"
      using less.prems [OF Some] assms(1) by simp_all
    let ?found = "find_sub s ?n (p + length ?n)"
    have "q + length ?n \<le> length s \<and> p < q" if "?found = Some q" for q
      using find_sub_bounds [OF that] p(2) by linarith
    then have "\<exists>e. first_escape_loop d s ?found = Some e \<and> e \<le> length s"
      using less.hyps [of ?found] Some p by (cases ?found) (auto simp: first_escape_loop.simps [of d s None])
    then show ?thesis
      using p by (simp add: Some first_escape_loop.simps [of d s "Some p"])
  qed
qed

lemma last_escape_total:
  assumes "lines_terminated_by d \<noteq> []"
    and "\<And>p. found = Some p \<Longrightarrow> p + length (lines_terminated_by d) \<le> length s \<and> p + length (lines_terminated_by d) \<le> b"
  shows "\<exists>e. last_escape_loop d s found = Some e \<and> e \<le> length s \<and> e \<le> b"
  using assms(2)
proof (induction "case found of None \<Rightarrow> 0 | Some p \<Rightarrow> p" arbitrary: found rule: less_induct)
  case less
  let ?n = "lines_terminated_by d"
  show ?case
  proof (cases found)
    case None
    then show ?thesis
      by (simp add: last_escape_loop.simps)
  next
    case (Some p)
    have p: "p + length ?n \<le> length s" "p + length ?n \<le> b" "0 < length ?n"
      using less.prems [OF Some] assms(1) by simp_all
    let ?found = "rfind_sub s ?n (p - length ?n)"
    have "\<exists>e. last_escape_loop d s ?found = Some e \<and> e \<le> length s \<and> e \<le> b" if "\<not> p < length ?n"
    proof -
      have "q + length ?n \<le> length s \<and> q + length ?n \<le> b \<and> q < p" if "?found = Some q" for q
        using rfind_sub_bounds [OF that] p \<open>\<not> p < length ?n\<close> by linarith
      then show ?thesis
        using less.hyps [of ?found] Some by (cases ?found) (auto simp: last_escape_loop.simps [of d s None])
    qed
    then show ?thesis
      using p by (simp add: Some last_escape_loop.simps [of d s "Some p"])
  qed
qed

lemma find_first_total:
  assumes "t_impl t \<noteq> None" and "lines_terminated_by (t_dialect t) \<noteq> []"
  obtains e where "find_first_row_boundary_after t = Some e" "e \<le> length (t_data t)"
proof -
  have "first_default (t_dialect t) (t_data t) \<le> length (t_data t)"
    by (auto simp: first_default_def find_char_def dest!: find_if_from_bounds split: option.split)
  moreover have "first_no_escape (t_dialect t) (t_data t) \<le> length (t_data t)"
    by (auto simp: first_no_escape_def Let_def dest: find_sub_bounds split: option.split)
  moreover have "\<exists>e. first_escape (t_dialect t) (t_data t) = Some e \<and> e \<le> length (t_data t)"
    unfolding first_escape_def using assms(2) by (rule first_escape_total) (auto dest: find_sub_bounds)
  ultimately show thesis
    using assms(1) that by (cases "t_impl t"; cases "the (t_impl t)") (auto simp: find_first_row_boundary_after_def)
qed

text \<open>The end of a row is at most the length of the terminator behind the place where the search starts.\<close>

lemma find_last_total:
  assumes "t_impl t \<noteq> None" and "lines_terminated_by (t_dialect t) \<noteq> []"
  obtains e where "find_last_row_boundary_before limit t = Some e" "e \<le> length (t_data t)"
    "e \<le> last_start limit (t_data t) + length (lines_terminated_by (t_dialect t))"
proof -
  let ?n = "length (lines_terminated_by (t_dialect t))" and ?s = "t_data t"
  have n: "0 < ?n"
    using assms(2) by simp
  have "last_default (t_dialect t) limit ?s \<le> length ?s" "last_default (t_dialect t) limit ?s \<le> last_start limit ?s + ?n"
    using n by (cases "lines_terminated_by (t_dialect t)"; force simp: last_default_def Let_def dest!: rfind_sub_bounds split: option.split)+
  moreover have "last_no_escape (t_dialect t) limit ?s \<le> length ?s" "last_no_escape (t_dialect t) limit ?s \<le> last_start limit ?s + ?n"
    by (auto simp: last_no_escape_def Let_def dest: rfind_sub_bounds split: option.split)
  moreover have "\<exists>e. last_escape (t_dialect t) limit ?s = Some e \<and> e \<le> length ?s \<and> e \<le> last_start limit ?s + ?n"
    using last_escape_total [OF assms(2)] rfind_sub_bounds by (fastforce simp: last_escape_def Let_def)
  ultimately show thesis
    using assms(1) that by (cases "t_impl t"; cases "the (t_impl t)") (auto simp: find_last_row_boundary_before_def)
qed

section \<open>Passes\<close>

text \<open>What has not been sent: the buffer and the rest of the file.\<close>

definition unsent :: "('f \<Rightarrow> string) \<Rightarrow> 'f trx \<Rightarrow> string" where
  "unsent rest t = t_data t @ rest (t_file t)"

definition same_buf :: "'f trx \<Rightarrow> 'f trx \<Rightarrow> bool" where
  "same_buf t t' \<longleftrightarrow> t_options t' = t_options t \<and> t_impl t' = t_impl t \<and> t_dialect t' = t_dialect t"

lemma same_buf_refl [simp]: "same_buf t t"
  by (simp add: same_buf_def)

lemma same_buf_trans: "same_buf a b \<Longrightarrow> same_buf b c \<Longrightarrow> same_buf a c"
  by (simp add: same_buf_def)

text \<open>A buffer that cuts the data into transactions; the end of the transaction, once known, is in the buffer.\<close>

definition buf_ok :: "('f \<Rightarrow> string) \<Rightarrow> ('f \<Rightarrow> bool) \<Rightarrow> 'f trx \<Rightarrow> bool" where
  "buf_ok rest ok t \<longleftrightarrow> t_impl t \<noteq> None \<and> lines_terminated_by (t_dialect t) \<noteq> [] \<and> 0 < t_max t \<and> \<not> o_fast_sub_chunking (t_options t) \<and>
     ok (t_file t) \<and> (t_eof t \<longrightarrow> rest (t_file t) = []) \<and>
     (t_end t = 0 \<or> t_size t \<le> t_end t \<and> t_end t \<le> t_size t + length (t_data t))"

lemma consume_cases:
  assumes "t_end t = 0 \<or> t_size t \<le> t_end t"
  shows "consume len t =
    (let s = take (if t_end t = 0 then len else min len (t_end t - t_size t)) (t_data t)
     in (s, t\<lparr>t_data := drop (length s) (t_data t), t_size := t_size t + length s,
              t_oversized := (if length s > t_max t then t_oversized t + 1 else t_oversized t)\<rparr>))"
  using assms by (auto simp: consume_def Let_def min_def)

text \<open>A pass keeps the data and ends with no byte only at the end of a transaction or of the file.\<close>

fun pass_ok :: "('f \<Rightarrow> string) \<Rightarrow> ('f \<Rightarrow> bool) \<Rightarrow> 'f trx \<Rightarrow> 'f pass \<Rightarrow> bool" where
  "pass_ok rest ok t (Retry t') \<longleftrightarrow> buf_ok rest ok t' \<and> same_buf t t' \<and> t_end t' = 0 \<and> t_size t' = t_size t \<and>
     unsent rest t' = unsent rest t \<and> length (rest (t_file t')) < length (rest (t_file t))"
| "pass_ok rest ok t (Return r t') \<longleftrightarrow> (\<exists>s. r = Bytes s \<and> buf_ok rest ok t' \<and> same_buf t t' \<and> unsent rest t = s @ unsent rest t' \<and>
     t_size t' = t_size t + length s \<and> (s = [] \<longrightarrow> 0 < t_size t' \<and> t_end t' = t_size t' \<or> unsent rest t' = [] \<and> t_eof t'))"

lemma send_ok:
  assumes t: "buf_ok rest ok t" "0 < len" "t_data t = [] \<Longrightarrow> t_eof t \<or> 0 < t_end t"
    and t0: "same_buf t0 t" "t_size t = t_size t0" "unsent rest t = unsent rest t0"
  shows "pass_ok rest ok t0 (send len t)"
proof -
  define k where "k = (if t_end t = 0 then len else min len (t_end t - t_size t))"
  define s where "s = take k (t_data t)"
  have end_ok: "t_end t = 0 \<or> t_size t \<le> t_end t \<and> t_end t \<le> t_size t + length (t_data t)"
    using t(1) by (simp add: buf_ok_def)
  define t' where "t' = t\<lparr>t_data := drop (length s) (t_data t), t_size := t_size t + length s,
      t_oversized := (if length s > t_max t then t_oversized t + 1 else t_oversized t)\<rparr>"
  have "consume len t = (s, t')"
    using consume_cases [of t len] end_ok unfolding t'_def s_def k_def Let_def by blast
  then have send: "send len t = Return (Bytes s) t'"
    by (simp add: send_def)
  note t' = t'_def
  have data: "t_data t = s @ t_data t'"
    by (cases "k \<le> length (t_data t)") (simp_all add: t' s_def min_def)
  have "buf_ok rest ok t'"
  proof -
    have "length s + length (t_data t') = length (t_data t)"
      using arg_cong [OF data, of length] by simp
    moreover have "t_size t + length s \<le> t_end t" if "t_end t \<noteq> 0"
    proof -
      have "length s \<le> k"
        by (simp add: s_def)
      moreover have "k \<le> t_end t - t_size t"
        using that by (simp add: k_def)
      ultimately show ?thesis
        using end_ok that by linarith
    qed
    ultimately have "t_end t = 0 \<or> t_size t' \<le> t_end t \<and> t_end t \<le> t_size t' + length (t_data t')"
      using end_ok unfolding t' by (cases "t_end t = 0") simp_all
    then show ?thesis
      using t(1) by (simp add: buf_ok_def t')
  qed
  moreover have same: "t_file t' = t_file t" "same_buf t0 t'"
    using t0(1) by (simp_all add: t' same_buf_def)
  moreover have "unsent rest t0 = s @ unsent rest t'"
    using t0(3) data same(1) by (metis append_assoc unsent_def)
  moreover have "0 < t_size t' \<and> t_end t' = t_size t' \<or> unsent rest t' = [] \<and> t_eof t'" if "s = []"
  proof (cases "t_end t = 0")
    case True
    then have "t_data t = []"
      using that t(2) by (simp add: s_def k_def)
    then show ?thesis
      using True t(1,3) that by (simp add: t' unsent_def buf_ok_def)
  next
    case False
    then have "t_end t = t_size t"
      using that t(2) end_ok by (auto simp: s_def k_def)
    then show ?thesis
      using False that by (simp add: t')
  qed
  ultimately show ?thesis
    using t0(2) by (auto simp: send t')
qed

lemma set_end_simps [simp]:
  "same_buf t0 (set_trx_end_offset e t) = same_buf t0 t" "t_size (set_trx_end_offset e t) = t_size t"
  "unsent rest (set_trx_end_offset e t) = unsent rest t" "t_end (set_trx_end_offset e t) = t_size t + e"
  "t_data (set_trx_end_offset e t) = t_data t" "t_eof (set_trx_end_offset e t) = t_eof t"
  by (simp_all add: set_trx_end_offset_def same_buf_def unsent_def)

lemma partial_simps [simp]:
  "same_buf t0 (t\<lparr>t_partial := b\<rparr>) = same_buf t0 t" "unsent rest (t\<lparr>t_partial := b\<rparr>) = unsent rest t"
  "buf_ok rest ok (t\<lparr>t_partial := b\<rparr>) = buf_ok rest ok t"
  by (simp_all add: same_buf_def unsent_def buf_ok_def)

lemma set_end_ok: "buf_ok rest ok t \<Longrightarrow> e \<le> length (t_data t) \<Longrightarrow> buf_ok rest ok (set_trx_end_offset e t)"
  by (auto simp: buf_ok_def set_trx_end_offset_def)

text \<open>The state in which a pass sends data, after the file has been read.\<close>

definition ready :: "('f \<Rightarrow> string) \<Rightarrow> ('f \<Rightarrow> bool) \<Rightarrow> 'f trx \<Rightarrow> 'f trx \<Rightarrow> bool" where
  "ready rest ok t0 t \<longleftrightarrow> buf_ok rest ok t \<and> same_buf t0 t \<and> t_size t = t_size t0 \<and> unsent rest t = unsent rest t0 \<and>
     (t_data t = [] \<longrightarrow> t_eof t \<or> 0 < t_end t) \<and>
     (t_end t = 0 \<and> \<not> t_eof t \<longrightarrow> length (rest (t_file t)) < length (rest (t_file t0)))"

lemma ready_send:
  assumes "ready rest ok t0 t" and "0 < len"
  shows "pass_ok rest ok t0 (send len t)" and "pass_ok rest ok t0 (send len (t\<lparr>t_partial := b\<rparr>))"
    and "t_end t = 0 \<Longrightarrow> e \<le> length (t_data t) \<Longrightarrow> pass_ok rest ok t0 (send len (set_trx_end_offset e t))"
  using assms by (auto simp: ready_def intro!: send_ok set_end_ok)

lemma fill_check_ok:
  assumes "ready rest ok t0 t"
  obtains t' where "fill_check t = Some t'" "ready rest ok t0 t'"
proof (cases "t_end t = 0 \<and> 0 < trx_bytes_left t \<and> trx_bytes_left t \<le> int (length (t_data t))")
  case True
  have impl: "t_impl t \<noteq> None" "lines_terminated_by (t_dialect t) \<noteq> []"
    using assms by (simp_all add: ready_def buf_ok_def)
  obtain e where e: "find_last_row_boundary_before (nat (trx_bytes_left t)) t = Some e" "e \<le> length (t_data t)"
    using find_last_total [OF impl] .
  then have check: "fill_check t = Some (if 0 < e then set_trx_end_offset e t else t)"
    using True by (simp add: fill_check_def)
  have "ready rest ok t0 (set_trx_end_offset e t)" if "0 < e"
    using assms e(2) that by (simp add: ready_def set_end_ok)
  then show thesis
    using that check assms by simp
next
  case False
  then have "fill_check t = Some t"
    unfolding fill_check_def by (rule if_not_P)
  then show thesis
    using that assms by simp
qed

lemma send_full_ok:
  assumes t: "ready rest ok t0 t" "0 < len" "t_end t = 0"
  shows "\<exists>p. send_full len t = Some p \<and> pass_ok rest ok t0 p"
proof -
  have impl: "t_impl t \<noteq> None" "lines_terminated_by (t_dialect t) \<noteq> []"
    using t(1) by (simp_all add: ready_def buf_ok_def)
  obtain e where e: "find_last_row_boundary_before (nat (trx_bytes_left t mod 2 ^ 64)) t = Some e" "e \<le> length (t_data t)"
    using find_last_total [OF impl] .
  obtain r where r: "find_first_row_boundary_after t = Some r" "r \<le> length (t_data t)"
    using find_first_total [OF impl] .
  have "pass_ok rest ok t0 (Return (Bytes []) (set_trx_end_offset 0 t))" if "0 < t_size t"
    using t(1) that by (simp add: ready_def set_end_ok)
  then show ?thesis
    using ready_send [OF t(1,2)] t(3) e r by (auto simp: send_full_def)
qed

lemma send_part_ok:
  assumes t: "ready rest ok t0 t" "0 < len" "t_end t = 0" and left: "int (length (t_data t)) < trx_bytes_left t"
    and size: "len + length (lines_terminated_by (t_dialect t)) \<le> 2 ^ 32" "t_max t < 2 ^ 32"
  shows "\<exists>p. send_part len t = Some p \<and> pass_ok rest ok t0 p"
proof -
  have impl: "t_impl t \<noteq> None" "lines_terminated_by (t_dialect t) \<noteq> []"
    using t(1) by (simp_all add: ready_def buf_ok_def)
  obtain e where e: "find_last_row_boundary_before len t = Some e" "e \<le> length (t_data t)"
      "e \<le> last_start len (t_data t) + length (lines_terminated_by (t_dialect t))"
    using find_last_total [OF impl] .
  obtain e' where e': "find_last_row_boundary_before (nat (trx_bytes_left t)) t = Some e'" "e' \<le> length (t_data t)"
    using find_last_total [OF impl] .
  have "0 < length (lines_terminated_by (t_dialect t))" "last_start len (t_data t) = len - 1 \<or> length (t_data t) \<le> len"
    using impl(2) t(2) by (simp_all add: last_start_def)
  then have "e < 2 ^ 32"
    using e(2,3) t(2) size(1) by linarith
  moreover have "e' < 2 ^ 32"
    using e'(2) left size(2) by (simp add: trx_bytes_left_def)
  moreover have "pass_ok rest ok t0 (Retry t)" if "\<not> t_eof t"
    using t(1,3) that by (simp add: ready_def)
  ultimately show ?thesis
    using ready_send [OF t(1)] t(2,3) e(1) e' by (auto simp: send_part_def)
qed

section \<open>Sizes\<close>

lemma consume_len: "consume n t = (s, t') \<Longrightarrow> length s \<le> n"
  by (auto simp: consume_def Let_def split: if_splits)

lemma send_len: "send n t = Return (Bytes s) t' \<Longrightarrow> n \<le> len \<Longrightarrow> length s \<le> len"
  using consume_len by (fastforce simp: send_def split: prod.splits)

lemma send_full_len: "send_full len t = Some (Return (Bytes s) t') \<Longrightarrow> length s \<le> len"
  by (auto simp: send_full_def dest: send_len split: option.splits if_splits)

text \<open>A terminator of one character that begins in front of a place ends there at the latest.\<close>

lemma find_last_len:
  assumes "t_impl t \<noteq> None" and "length (lines_terminated_by (t_dialect t)) = 1" and "0 < len"
    and "find_last_row_boundary_before len t = Some e"
  shows "e \<le> len"
proof -
  have "lines_terminated_by (t_dialect t) \<noteq> []"
    using assms(2) by auto
  then obtain e' where "find_last_row_boundary_before len t = Some e'" "e' \<le> length (t_data t)" "e' \<le> last_start len (t_data t) + 1"
    using find_last_total [OF assms(1), of len] assms(2) by metis
  then show ?thesis
    using assms(3,4) by (auto simp: last_start_def split: if_splits)
qed

lemma send_part_len:
  assumes "t_impl t \<noteq> None" and "length (lines_terminated_by (t_dialect t)) = 1" and "0 < len"
    and send: "send_part len t = Some (Return (Bytes s) t')"
  shows "length s \<le> len"
proof -
  obtain e where e: "find_last_row_boundary_before len t = Some e"
    using send by (auto simp: send_part_def split: option.splits)
  then have "e mod 2 ^ 32 \<le> len"
    using find_last_len [OF assms(1-3)] mod_less_eq_dividend order_trans by blast
  then show ?thesis
    using send e by (auto simp: send_part_def dest: send_len split: option.splits if_splits)
qed

lemma same_buf_pass:
  "read_more ops len t = (r, t') \<Longrightarrow> same_buf t t'" "fill_check t = Some t' \<Longrightarrow> same_buf t t'"
  "send_full len t = Some (Retry t') \<Longrightarrow> same_buf t t'" "send_part len t = Some (Retry t') \<Longrightarrow> same_buf t t'"
  by (auto simp: read_more_def fill_check_def send_full_def send_part_def send_def same_buf_def set_trx_end_offset_def
      split: if_splits prod.splits io.splits option.splits)

lemma trx_pass_cases:
  assumes "trx_pass ops len t = Some p"
  obtains t2 where "same_buf t t2" "(\<forall>s t'. p \<noteq> Return (Bytes s) t') \<and> (\<forall>t'. p \<noteq> Retry t') \<or> p = send len t2 \<or> send_full len t2 = Some p \<or>
    send_part len t2 = Some p"
proof -
  obtain r t1 where t1: "(if t_end t = 0 then read_more ops len t else (Bytes [], t)) = (r, t1)"
    by (cases "if t_end t = 0 then read_more ops len t else (Bytes [], t)")
  then have same: "same_buf t t1"
    using same_buf_pass(1) [of ops len t] by (cases "t_end t = 0") auto
  show thesis
  proof (cases "\<exists>s. r = Bytes s")
    case True
    then obtain t2 where "fill_check t1 = Some t2"
      using assms t1 by (auto simp: trx_pass_def split: option.splits)
    then show thesis
      using that [of t2] same_buf_trans [OF same same_buf_pass(2)] assms t1 True by (auto simp: trx_pass_def split: if_splits)
  next
    case False
    then have "p = Return r t1"
      using assms t1 by (cases r) (auto simp: trx_pass_def)
    then show thesis
      using that [OF same] False by auto
  qed
qed

lemma trx_pass_len:
  assumes pass: "trx_pass ops len t = Some (Return (Bytes s) t')"
    and t: "t_impl t \<noteq> None" "length (lines_terminated_by (t_dialect t)) = 1" "0 < len"
  shows "length s \<le> len"
proof -
  obtain t2 where t2: "same_buf t t2" "Return (Bytes s) t' = send len t2 \<or> send_full len t2 = Some (Return (Bytes s) t') \<or>
      send_part len t2 = Some (Return (Bytes s) t')"
    using trx_pass_cases [OF pass] by blast
  then have "t_impl t2 \<noteq> None" "length (lines_terminated_by (t_dialect t2)) = 1"
    using t by (simp_all add: same_buf_def)
  then show ?thesis
    using t2(2) t(3) send_len [of len t2 s t' len] send_full_len [of len t2 s t'] send_part_len [of t2 len s t'] by auto
qed

lemma trx_pass_retry:
  assumes pass: "trx_pass ops len t = Some (Retry t')"
  shows "same_buf t t'"
proof -
  obtain t2 where t2: "same_buf t t2" "Retry t' = send len t2 \<or> send_full len t2 = Some (Retry t') \<or> send_part len t2 = Some (Retry t')"
    using trx_pass_cases [OF pass] by blast
  moreover have "Retry t' \<noteq> send len t2"
    by (simp add: send_def split: prod.split)
  ultimately show ?thesis
    using same_buf_trans [OF t2(1)] same_buf_pass(3,4) by blast
qed

lemma trx_read_len:
  "trx_read ops len t = Some y \<Longrightarrow> t_impl t \<noteq> None \<longrightarrow> length (lines_terminated_by (t_dialect t)) = 1 \<longrightarrow> 0 < len \<longrightarrow>
   (\<forall>s. fst y = Bytes s \<longrightarrow> length s \<le> len)"
proof (erule trx_read.raw_induct [rotated])
  fix read ops len t y
  assume hyp: "\<And>ops len t y. read ops len t = Some y \<Longrightarrow> t_impl t \<noteq> None \<longrightarrow> length (lines_terminated_by (t_dialect t)) = 1 \<longrightarrow>
      0 < len \<longrightarrow> (\<forall>s. fst y = Bytes s \<longrightarrow> length s \<le> len)"
    and body: "(case trx_pass ops len t of None \<Rightarrow> None | Some (Retry t') \<Rightarrow> read ops len t' | Some (Return r t') \<Rightarrow> Some (r, t')) = Some y"
  show "t_impl t \<noteq> None \<longrightarrow> length (lines_terminated_by (t_dialect t)) = 1 \<longrightarrow> 0 < len \<longrightarrow> (\<forall>s. fst y = Bytes s \<longrightarrow> length s \<le> len)"
  proof (intro impI allI)
    fix s
    assume t: "t_impl t \<noteq> None" "length (lines_terminated_by (t_dialect t)) = 1" "0 < len" "fst y = Bytes s"
    obtain p where p: "trx_pass ops len t = Some p"
      using body by (cases "trx_pass ops len t") auto
    show "length s \<le> len"
    proof (cases p)
      case (Retry t')
      then show ?thesis
        using hyp [of ops len t' y] body p t trx_pass_retry [of ops len t t'] by (simp add: same_buf_def)
    next
      case (Return r t')
      then show ?thesis
        using trx_pass_len [of ops len t s t'] body p t by auto
    qed
  qed
qed

text \<open>
  A relation \<open>J\<close> between what has been sent of a transaction and the buffer, which the passes keep, and which gives \<open>Q\<close> at the
  end of the transaction. The parameters of the buffer are those of \<open>t0\<close>.
\<close>

definition trx_keeps ::
  "'f file_ops \<Rightarrow> ('f \<Rightarrow> string) \<Rightarrow> ('f \<Rightarrow> bool) \<Rightarrow> nat \<Rightarrow> 'f trx \<Rightarrow> (string \<Rightarrow> 'f trx \<Rightarrow> bool) \<Rightarrow> (string \<Rightarrow> 'f trx \<Rightarrow> bool) \<Rightarrow> bool"
where
  "trx_keeps ops rest ok len t0 J Q \<longleftrightarrow>
     (\<forall>t. same_buf t0 t \<longrightarrow> buf_ok rest ok t \<longrightarrow> t_size t = 0 \<longrightarrow> t_end t = 0 \<longrightarrow> \<not> t_partial t \<longrightarrow> J [] t) \<and>
     (\<forall>S t p. trx_pass ops len t = Some p \<longrightarrow> buf_ok rest ok t \<longrightarrow> t_end t = 0 \<or> t_size t < t_end t \<longrightarrow> J S t \<longrightarrow>
        (case p of Retry t' \<Rightarrow> J S t' | Return r t' \<Rightarrow> \<forall>s. r = Bytes s \<longrightarrow> J (S @ s) t' \<and> (s = [] \<longrightarrow> Q S t'))) \<and>
     (\<forall>S t. buf_ok rest ok t \<longrightarrow> J S t \<longrightarrow> flush_pending t \<longrightarrow> Q S t)"

lemma trx_keeps_start:
  "trx_keeps ops rest ok len t0 J Q \<Longrightarrow> same_buf t0 t \<Longrightarrow> buf_ok rest ok t \<Longrightarrow> t_size t = 0 \<Longrightarrow> t_end t = 0 \<Longrightarrow> \<not> t_partial t \<Longrightarrow> J [] t"
  by (simp add: trx_keeps_def)

lemma trx_keeps_pass:
  "trx_keeps ops rest ok len t0 J Q \<Longrightarrow> trx_pass ops len t = Some p \<Longrightarrow> buf_ok rest ok t \<Longrightarrow> t_end t = 0 \<or> t_size t < t_end t \<Longrightarrow> J S t \<Longrightarrow>
   case p of Retry t' \<Rightarrow> J S t' | Return r t' \<Rightarrow> \<forall>s. r = Bytes s \<longrightarrow> J (S @ s) t' \<and> (s = [] \<longrightarrow> Q S t')"
  unfolding trx_keeps_def by blast

lemma trx_keeps_pending: "trx_keeps ops rest ok len t0 J Q \<Longrightarrow> buf_ok rest ok t \<Longrightarrow> J S t \<Longrightarrow> flush_pending t \<Longrightarrow> Q S t"
  unfolding trx_keeps_def by blast

section \<open>The client library\<close>

text \<open>
  What is documented of the handlers of \<^verbatim>\<open>LOAD DATA LOCAL INFILE\<close>: the client library calls the one that reads, with a buffer of \<open>len\<close>
  bytes, and sends what it gets, until there is no byte left or an error occurs.
\<close>

definition fetches :: "nat \<Rightarrow> 'i infile_client \<Rightarrow> bool" where
  "fetches len client \<longleftrightarrow> (\<forall>read i. client read i =
     (case read len i of
        None \<Rightarrow> None
      | Some (Bytes s, i') \<Rightarrow> if s = [] then Some (Some [], i') else Option.bind (client read i') (\<lambda>(out, i''). Some (map_option ((@) s) out, i''))
      | Some (_, i') \<Rightarrow> Some (None, i')))"

lemma fetches_step:
  assumes "fetches len client" and "read len i = Some (Bytes s, i')"
  shows "client read i = (if s = [] then Some (Some [], i') else Option.bind (client read i') (\<lambda>(out, i''). Some (map_option ((@) s) out, i'')))"
  using assms(1) [unfolded fetches_def, rule_format, of read i] assms(2) by simp

lemma fetches_last: "fetches len client \<Longrightarrow> read len i = Some (Bytes [], i') \<Longrightarrow> client read i = Some (Some [], i')"
  using fetches_step by fastforce

lemma fetches_more:
  "fetches len client \<Longrightarrow> read len i = Some (Bytes s, i') \<Longrightarrow> s \<noteq> [] \<Longrightarrow> client read i' = Some (Some out, i'') \<Longrightarrow>
   client read i = Some (Some (s @ out), i'')"
  using fetches_step [of len client read i s i'] by simp

section \<open>Files\<close>

text \<open>The contract of \<^verbatim>\<open>IFile::read\<close>: a part of the rest of the file, with no byte only at its end.\<close>

locale reader =
  fixes ops :: "'f file_ops" and rest :: "'f \<Rightarrow> string" and ok :: "'f \<Rightarrow> bool"
  assumes read_ok: "ok f \<Longrightarrow> \<exists>s f'. io_read ops n f = (Bytes s, f') \<and> ok f' \<and> rest f = s @ rest f' \<and> length s \<le> n \<and>
    (s = [] \<longrightarrow> n = 0 \<or> rest f = [])"
begin

lemma read_more_ok:
  assumes t: "buf_ok rest ok t" "t_end t = 0" "0 < len"
  shows "\<exists>s t1. read_more ops len t = (Bytes s, t1) \<and> ready rest ok t t1 \<and> t_end t1 = 0"
proof (cases "t_eof t")
  case True
  then show ?thesis
    using t by (simp add: read_more_def ready_def)
next
  case False
  have "ok (t_file t)"
    using t(1) by (simp add: buf_ok_def)
  then obtain s f where s: "io_read ops len (t_file t) = (Bytes s, f)" "ok f" "rest (t_file t) = s @ rest f" "s = [] \<Longrightarrow> rest (t_file t) = []"
    using read_ok [of "t_file t" len] t(3) by auto
  then show ?thesis
    using t False by (cases "s = []") (auto simp: read_more_def ready_def buf_ok_def unsent_def same_buf_def)
qed

lemma trx_pass_ok:
  assumes t: "buf_ok rest ok t" "t_end t = 0 \<or> t_size t < t_end t" "0 < len"
    and size: "len + length (lines_terminated_by (t_dialect t)) \<le> 2 ^ 32" "t_max t < 2 ^ 32"
  shows "\<exists>p. trx_pass ops len t = Some p \<and> pass_ok rest ok t p"
proof -
  obtain s t1 where t1: "(if t_end t = 0 then read_more ops len t else (Bytes [], t)) = (Bytes s, t1)" "ready rest ok t t1"
    using read_more_ok [OF t(1) _ t(3)] t by (cases "t_end t = 0") (auto simp: ready_def)
  obtain t2 where t2: "fill_check t1 = Some t2" "ready rest ok t t2"
    using fill_check_ok [OF t1(2)] .
  have "len + length (lines_terminated_by (t_dialect t2)) \<le> 2 ^ 32" "t_max t2 < 2 ^ 32"
    using t2(2) size by (simp_all add: ready_def same_buf_def)
  then show ?thesis
    using ready_send(1) [OF t2(2) t(3)] send_full_ok [OF t2(2) t(3)] send_part_ok [OF t2(2) t(3)] t1(1) t2(1)
    by (auto simp: trx_pass_def not_le)
qed

lemma trx_read_ok:
  assumes "buf_ok rest ok t" and "t_end t = 0 \<or> t_size t < t_end t" and "0 < len"
    and "len + length (lines_terminated_by (t_dialect t)) \<le> 2 ^ 32" and "t_max t < 2 ^ 32"
    and keeps: "trx_keeps ops rest ok len t0 J Q" and "J S t"
  shows "\<exists>s t'. trx_read ops len t = Some (Bytes s, t') \<and> pass_ok rest ok t (Return (Bytes s) t') \<and> J (S @ s) t' \<and> (s = [] \<longrightarrow> Q S t')"
  using assms(1-5,7)
proof (induction "length (rest (t_file t))" arbitrary: t rule: less_induct)
  case less
  obtain p where p: "trx_pass ops len t = Some p" "pass_ok rest ok t p"
    using trx_pass_ok [OF less.prems(1-5)] by blast
  note inv = trx_keeps_pass [OF keeps p(1) less.prems(1,2,6)]
  show ?case
  proof (cases p)
    case (Retry t1)
    then have t1: "buf_ok rest ok t1" "t_end t1 = 0" "same_buf t t1" "t_size t1 = t_size t" "unsent rest t1 = unsent rest t"
        "length (rest (t_file t1)) < length (rest (t_file t))" "J S t1"
      using p(2) inv by simp_all
    then obtain s t' where "trx_read ops len t1 = Some (Bytes s, t')" "pass_ok rest ok t1 (Return (Bytes s) t')"
        "J (S @ s) t'" "s = [] \<longrightarrow> Q S t'"
      using less.hyps [OF t1(6) t1(1)] less.prems(3-5) by (auto simp: same_buf_def)
    then show ?thesis
      using p(1) Retry t1 same_buf_trans [OF t1(3)] by (auto simp: trx_read.simps [of ops len t])
  next
    case (Return r t1)
    then obtain s where "r = Bytes s"
      using p(2) by auto
    then show ?thesis
      using p Return inv by (auto simp: trx_read.simps [of ops len t])
  qed
qed

lemma infile_read_ok:
  assumes t: "buf_ok rest ok (fi_buffer fi)" "same_buf t0 (fi_buffer fi)" "\<not> fi_range_read fi"
    and size: "0 < len" "len < 2 ^ 31" "t_max t0 < 2 ^ 32" "length (lines_terminated_by (t_dialect t0)) = 1"
    and keeps: "trx_keeps ops rest ok len t0 J Q" and J: "J S (fi_buffer fi)"
  shows "\<exists>s fi'. local_infile_read ops False len fi = Some (Bytes s, fi') \<and> pass_ok rest ok (fi_buffer fi) (Return (Bytes s) (fi_buffer fi')) \<and>
    J (S @ s) (fi_buffer fi') \<and> (s = [] \<longrightarrow> Q S (fi_buffer fi')) \<and> \<not> fi_range_read fi'"
proof (cases "flush_pending (fi_buffer fi)")
  case True
  then have "Q S (fi_buffer fi)" "t_end (fi_buffer fi) = t_size (fi_buffer fi)" "0 < t_size (fi_buffer fi)"
    using trx_keeps_pending [OF keeps t(1) J] t(1) by (auto simp: flush_pending_def buf_ok_def)
  then show ?thesis
    using True t J by (simp add: local_infile_read_def)
next
  case False
  have one: "length (lines_terminated_by (t_dialect (fi_buffer fi))) = 1" "t_max (fi_buffer fi) < 2 ^ 32"
    using t(2) size(3,4) by (simp_all add: same_buf_def)
  have "t_end (fi_buffer fi) = 0 \<or> t_size (fi_buffer fi) < t_end (fi_buffer fi)"
    using False t(1) by (auto simp: flush_pending_def buf_ok_def)
  then obtain s b where read: "trx_read ops len (fi_buffer fi) = Some (Bytes s, b)" "pass_ok rest ok (fi_buffer fi) (Return (Bytes s) b)"
      "J (S @ s) b" "s = [] \<longrightarrow> Q S b"
    using trx_read_ok [OF t(1) _ size(1) _ one(2) keeps J] one(1) size(2) by auto
  moreover have "buffer_read ops len (fi_buffer fi) = trx_read ops len (fi_buffer fi)"
    using t(1) by (simp add: buffer_read_def buf_ok_def)
  moreover have "length s \<le> len"
    using trx_read_len [OF read(1)] t(1) one(1) size(1) by (simp add: buf_ok_def)
  ultimately show ?thesis
    using False t(3) by (simp add: local_infile_read_def del: pass_ok.simps)
qed

text \<open>A transaction with the data \<open>out\<close>, of which \<open>S\<close> has been sent before.\<close>

lemma client_ok:
  assumes t: "buf_ok rest ok (fi_buffer fi)" "same_buf t0 (fi_buffer fi)" "\<not> fi_range_read fi" and client: "fetches len client"
    and size: "0 < len" "len < 2 ^ 31" "t_max t0 < 2 ^ 32" "length (lines_terminated_by (t_dialect t0)) = 1"
    and keeps: "trx_keeps ops rest ok len t0 J Q" and J: "J S (fi_buffer fi)"
  shows "\<exists>out fi'. client (local_infile_read ops False) fi = Some (Some out, fi') \<and> buf_ok rest ok (fi_buffer fi') \<and>
    same_buf t0 (fi_buffer fi') \<and> \<not> fi_range_read fi' \<and> unsent rest (fi_buffer fi) = out @ unsent rest (fi_buffer fi') \<and>
    Q (S @ out) (fi_buffer fi') \<and> (out = [] \<and> t_size (fi_buffer fi) = 0 \<longrightarrow> unsent rest (fi_buffer fi') = [] \<and> t_eof (fi_buffer fi'))"
  using t J
proof (induction "length (unsent rest (fi_buffer fi))" arbitrary: fi S rule: less_induct)
  case less
  obtain s fi1 where read: "local_infile_read ops False len fi = Some (Bytes s, fi1)"
      "pass_ok rest ok (fi_buffer fi) (Return (Bytes s) (fi_buffer fi1))" "J (S @ s) (fi_buffer fi1)" "s = [] \<longrightarrow> Q S (fi_buffer fi1)"
      "\<not> fi_range_read fi1"
    using infile_read_ok [OF less.prems(1-3) size keeps less.prems(4)] by blast
  have fi1: "buf_ok rest ok (fi_buffer fi1)" "same_buf t0 (fi_buffer fi1)" "unsent rest (fi_buffer fi) = s @ unsent rest (fi_buffer fi1)"
    using read(2) same_buf_trans [OF less.prems(2)] by auto
  show ?case
  proof (cases "s = []")
    case True
    then show ?thesis
      using read fi1 fetches_last [OF client, of "local_infile_read ops False" fi fi1] by (intro exI [of _ "[]"] exI [of _ fi1]) auto
  next
    case False
    then obtain out fi' where more: "client (local_infile_read ops False) fi1 = Some (Some out, fi')" "buf_ok rest ok (fi_buffer fi')"
        "same_buf t0 (fi_buffer fi')" "\<not> fi_range_read fi'" "unsent rest (fi_buffer fi1) = out @ unsent rest (fi_buffer fi')"
        "Q ((S @ s) @ out) (fi_buffer fi')"
      using less.hyps [of fi1 "S @ s"] fi1 read(3,5) by auto
    then show ?thesis
      using False fi1(3) fetches_more [where read = "local_infile_read ops False", OF client read(1) _ more(1)]
      by (intro exI [of _ "s @ out"] exI [of _ fi']) simp
  qed
qed

text \<open>The transactions of a file; each of them has its end condition \<open>Q\<close>, with what is left for the later ones.\<close>

lemma load_transactions_ok:
  assumes t: "buf_ok rest ok (fi_buffer fi)" "same_buf t0 (fi_buffer fi)" "\<not> fi_range_read fi" and client: "fetches len client"
    and start: "t_size (fi_buffer fi) = 0" "t_end (fi_buffer fi) = 0" "\<not> t_partial (fi_buffer fi)"
    and size: "0 < len" "len < 2 ^ 31" "t_max t0 < 2 ^ 32" "length (lines_terminated_by (t_dialect t0)) = 1"
    and keeps: "trx_keeps ops rest ok len t0 J (\<lambda>S t. Q S (unsent rest t))"
  shows "\<exists>ts fi'. load_transactions ops client trxs fi = Some (Some (trxs @ ts), fi') \<and> concat ts = unsent rest (fi_buffer fi) \<and>
    (\<forall>as a bs. ts = as @ a # bs \<longrightarrow> Q a (concat bs))"
  using t start
proof (induction "length (unsent rest (fi_buffer fi))" arbitrary: fi trxs rule: less_induct)
  case less
  let ?fi = "fi\<lparr>fi_buffer := before_query (fi_buffer fi), fi_data_bytes := 0\<rparr>"
  have fi: "buf_ok rest ok (fi_buffer ?fi)" "same_buf t0 (fi_buffer ?fi)" "\<not> fi_range_read ?fi" "t_size (fi_buffer ?fi) = 0"
      "t_end (fi_buffer ?fi) = 0" "\<not> t_partial (fi_buffer ?fi)" "unsent rest (fi_buffer ?fi) = unsent rest (fi_buffer fi)"
    using less.prems by (simp_all add: before_query_def buf_ok_def same_buf_def unsent_def)
  obtain out fi1 where load: "client (local_infile_read ops False) ?fi = Some (Some out, fi1)" "buf_ok rest ok (fi_buffer fi1)" "same_buf t0 (fi_buffer fi1)"
      "\<not> fi_range_read fi1" "unsent rest (fi_buffer fi) = out @ unsent rest (fi_buffer fi1)" "Q out (unsent rest (fi_buffer fi1))"
      "out = [] \<Longrightarrow> unsent rest (fi_buffer fi1) = [] \<and> t_eof (fi_buffer fi1)"
    using client_ok [OF fi(1-3) client size keeps trx_keeps_start [OF keeps fi(2,1,4-6)]] fi(4,7) by auto
  obtain more b where flush: "flush_done (fi_buffer fi1) = (more, b)"
    by (cases "flush_done (fi_buffer fi1)")
  have b: "buf_ok rest ok b" "same_buf t0 b" "t_size b = 0" "t_end b = 0" "\<not> t_partial b" "unsent rest b = unsent rest (fi_buffer fi1)"
      "more \<longleftrightarrow> \<not> t_eof (fi_buffer fi1) \<or> t_data (fi_buffer fi1) \<noteq> []"
    using flush load(2,3) by (auto simp: flush_done_def Let_def buf_ok_def same_buf_def unsent_def split: if_splits)
  show ?case
  proof (cases more)
    case True
    then have "out \<noteq> []"
      using load(7) b(7) by (auto simp: unsent_def)
    then obtain ts fi' where "load_transactions ops client (trxs @ [out]) (fi1\<lparr>fi_buffer := b\<rparr>) = Some (Some ((trxs @ [out]) @ ts), fi')"
        "concat ts = unsent rest b" "\<forall>as a bs. ts = as @ a # bs \<longrightarrow> Q a (concat bs)"
      using less.hyps [of "fi1\<lparr>fi_buffer := b\<rparr>" "trxs @ [out]"] b load(4,5) by auto
    then show ?thesis
      using load flush True b(6)
      by (intro exI [of _ "out # ts"] exI [of _ fi']) (auto simp: load_transactions.simps [of ops client trxs fi] Cons_eq_append_conv)
  next
    case False
    then have "unsent rest (fi_buffer fi1) = []"
      using b(7) load(2) by (simp add: unsent_def buf_ok_def)
    then show ?thesis
      using load flush False
      by (intro exI [of _ "[out]"] exI [of _ "fi1\<lparr>fi_buffer := b\<rparr>"])
        (auto simp: load_transactions.simps [of ops client trxs fi] Cons_eq_append_conv)
  qed
qed

text \<open>The range of a file that is loaded in chunks is sent as it is.\<close>

lemma range_read_ok:
  assumes "fi_range_read fi" "t_max (fi_buffer fi) = 0" "ok (t_file (fi_buffer fi))"
  shows "\<exists>s fi'. local_infile_read ops False len fi = Some (Bytes s, fi') \<and> fi_range_read fi' \<and> t_max (fi_buffer fi') = 0 \<and>
    ok (t_file (fi_buffer fi')) \<and> rest (t_file (fi_buffer fi)) = s @ rest (t_file (fi_buffer fi')) \<and> length s \<le> fi_bytes_left fi \<and>
    fi_bytes_left fi' = fi_bytes_left fi - length s \<and> (s = [] \<longrightarrow> len = 0 \<or> fi_bytes_left fi = 0 \<or> rest (t_file (fi_buffer fi)) = [])"
proof -
  let ?n = "min len (fi_bytes_left fi)"
  obtain s f where "io_read ops ?n (t_file (fi_buffer fi)) = (Bytes s, f)" "ok f" "rest (t_file (fi_buffer fi)) = s @ rest f" "length s \<le> ?n"
      "s = [] \<longrightarrow> ?n = 0 \<or> rest (t_file (fi_buffer fi)) = []"
    using read_ok [OF assms(3), of ?n] by blast
  then show ?thesis
    using assms by (auto simp: local_infile_read_def flush_pending_def buffer_read_def min_def split: if_splits)
qed

lemma client_range:
  assumes client: "fetches len client" "0 < len" and "fi_range_read fi" "t_max (fi_buffer fi) = 0" "ok (t_file (fi_buffer fi))"
  shows "\<exists>fi'. client (local_infile_read ops False) fi = Some (Some (take (fi_bytes_left fi) (rest (t_file (fi_buffer fi)))), fi') \<and>
    t_max (fi_buffer fi') = 0"
  using assms(3-5)
proof (induction "length (rest (t_file (fi_buffer fi)))" arbitrary: fi rule: less_induct)
  case less
  obtain s fi1 where fi1: "local_infile_read ops False len fi = Some (Bytes s, fi1)" "fi_range_read fi1" "t_max (fi_buffer fi1) = 0"
      "ok (t_file (fi_buffer fi1))" "rest (t_file (fi_buffer fi)) = s @ rest (t_file (fi_buffer fi1))" "length s \<le> fi_bytes_left fi"
      "fi_bytes_left fi1 = fi_bytes_left fi - length s" "s = [] \<longrightarrow> fi_bytes_left fi = 0 \<or> rest (t_file (fi_buffer fi)) = []"
    using range_read_ok [OF less.prems, of len] client(2) by auto
  show ?case
  proof (cases "s = []")
    case True
    then show ?thesis
      using fetches_last [OF client(1), of "local_infile_read ops False" fi fi1] fi1 by auto
  next
    case False
    then obtain fi' where "client (local_infile_read ops False) fi1 = Some (Some (take (fi_bytes_left fi1) (rest (t_file (fi_buffer fi1)))), fi')"
        "t_max (fi_buffer fi') = 0"
      using less.hyps [of fi1] fi1(2-5) by auto
    then show ?thesis
      using fetches_more [where read = "local_infile_read ops False", OF client(1) fi1(1) False] fi1(5-7) by simp
  qed
qed

lemma load_range_ok:
  assumes "fetches len client" "0 < len" "fi_range_read fi" "t_max (fi_buffer fi) = 0" "ok (t_file (fi_buffer fi))"
  shows "\<exists>fi'. load_transactions ops client [] fi = Some (Some [take (fi_bytes_left fi) (rest (t_file (fi_buffer fi)))], fi')"
proof -
  let ?fi = "fi\<lparr>fi_buffer := before_query (fi_buffer fi), fi_data_bytes := 0\<rparr>"
  obtain fi' where "client (local_infile_read ops False) ?fi = Some (Some (take (fi_bytes_left fi) (rest (t_file (fi_buffer fi)))), fi')"
      "t_max (fi_buffer fi') = 0"
    using client_range [OF assms(1,2), of ?fi] assms(3-5) by (auto simp: before_query_def)
  then show ?thesis
    by (simp add: load_transactions.simps [of ops client "[]"] flush_done_def Let_def)
qed

end

end
