(* ===== verification/Import_Transactions_Rows.thy ===== *)
theory Import_Transactions_Rows
  imports Import_Transactions_Facts
begin

text \<open>
  For one-character line terminators and without escapes, the transactions end at the ends of lines, keep to the maximal
  size unless they hold a single line, and a read never gives more than it is asked for.
\<close>

section \<open>Ends of lines\<close>

lemma take_drop_char: "i < length s \<Longrightarrow> take (length [c]) (drop i s) = [c] \<longleftrightarrow> s ! i = c"
  by (simp add: Cons_nth_drop_Suc [symmetric])

lemma rfind_char_Some:
  assumes "rfind_sub s [c] p = Some q"
  shows "q \<le> p \<and> q < length s \<and> s ! q = c"
proof -
  have q: "q \<le> p" "q < length s"
    using rfind_sub_bounds [OF assms] by simp_all
  have "take (length [c]) (drop q s) = [c]"
    using assms find_member by (fastforce simp: rfind_sub_def split: if_splits)
  then show ?thesis
    using q take_drop_char by metis
qed

lemma rfind_char_None:
  assumes "rfind_sub s [c] p = None"
  shows "c \<notin> set (take (Suc p) s)"
proof
  assume "c \<in> set (take (Suc p) s)"
  then obtain i where i: "i < length s" "i \<le> p" "s ! i = c"
    by (auto simp: in_set_conv_nth)
  then have "take (length [c]) (drop i s) = [c]" "i \<in> set (rev [0..<Suc (min p (length s - length [c]))])"
    using take_drop_char [OF i(1)] by auto
  then show False
    using assms i(1) by (force simp: rfind_sub_def find_None_iff split: if_splits)
qed

text \<open>A line of the buffer: the character at the end of the first \<open>e\<close> is the terminator.\<close>

definition line_end :: "char \<Rightarrow> string \<Rightarrow> nat \<Rightarrow> bool" where
  "line_end c s e \<longleftrightarrow> 0 < e \<and> e \<le> length s \<and> s ! (e - 1) = c"

definition plain_buffer :: "char \<Rightarrow> 'f trx \<Rightarrow> bool" where
  "plain_buffer c t \<longleftrightarrow> lines_terminated_by (t_dialect t) = [c] \<and> (t_impl t = Some Impl_default \<or> t_impl t = Some Impl_no_escape)"

lemma find_last_char:
  assumes "plain_buffer c t" and "0 < limit"
  obtains (none) "find_last_row_boundary_before limit t = Some 0" "c \<notin> set (take limit (t_data t)) \<or> limit = 1 \<and> 1 < length (t_data t)"
    | (found) e where "find_last_row_boundary_before limit t = Some e" "e \<le> limit" "line_end c (t_data t) e"
proof -
  let ?s = "t_data t" and ?p = "last_start limit (t_data t)"
  have find: "find_last_row_boundary_before limit t =
      Some (if ?p = 0 then 0 else case rfind_sub ?s [c] ?p of None \<Rightarrow> 0 | Some q \<Rightarrow> q + 1)"
    using assms(1) rfind_char_Some [of ?s c ?p]
    by (auto simp: plain_buffer_def find_last_row_boundary_before_def last_default_def last_no_escape_def Let_def split: option.split)
  have p: "?p = (if limit < length ?s then limit - 1 else length ?s)"
    using assms(2) by (simp add: last_start_def)
  show thesis
  proof (cases "?p = 0")
    case True
    then show thesis
      using none find p assms(2) by (auto split: if_splits)
  next
    case p0: False
    show thesis
    proof (cases "rfind_sub ?s [c] ?p")
      case None
      then show thesis
        using none find p rfind_char_None [OF None] assms(2) by (auto split: if_splits)
    next
      case (Some q)
      then show thesis
        using found [of "q + 1"] find p p0 rfind_char_Some [OF Some] by (auto simp: line_end_def split: if_splits)
    qed
  qed
qed

lemma find_first_char:
  assumes "plain_buffer c t"
  obtains (none) "find_first_row_boundary_after t = Some 0" "c \<notin> set (t_data t)"
    | (found) e where "find_first_row_boundary_after t = Some e" "line_end c (t_data t) e" "c \<notin> set (take (e - 1) (t_data t))"
proof -
  let ?s = "t_data t"
  have sub: "find_sub s [c] 0 = find_char s c 0" for s
  proof -
    have "index_sub [c] s = index_of (\<lambda>x. x = c) s"
      by (induction s) auto
    then show ?thesis
      by (simp add: find_sub_def find_char_def find_if_from_def)
  qed
  have find: "find_first_row_boundary_after t = Some (case find_char ?s c 0 of None \<Rightarrow> 0 | Some p \<Rightarrow> p + 1)"
    using assms find_if_from_bounds [of "\<lambda>x. x = c" ?s 0]
    by (auto simp: plain_buffer_def find_first_row_boundary_after_def first_default_def first_no_escape_def Let_def sub find_char_def
        split: option.split)
  show thesis
  proof (cases "find_char ?s c 0")
    case None
    then have "c \<notin> set ?s"
      by (auto simp: find_char_def find_if_from_None in_set_conv_nth)
    then show thesis
      using none find None by simp
  next
    case (Some p)
    then have p: "p < length ?s" "?s ! p = c" "\<And>j. j < p \<Longrightarrow> ?s ! j \<noteq> c"
      using find_if_from_bounds [of "\<lambda>x. x = c" ?s 0 p] find_if_from_least [of "\<lambda>x. x = c" ?s 0 p] by (auto simp: find_char_def)
    then show thesis
      using found [of "p + 1"] find Some by (auto simp: line_end_def in_set_conv_nth)
  qed
qed

section \<open>Transactions\<close>

text \<open>
  A transaction with the data \<open>F\<close>, behind which \<open>u\<close> is left: it ends with a line, unless nothing is left, and it keeps to the
  maximal size or is a single line.
\<close>

definition trx_lines :: "char \<Rightarrow> nat \<Rightarrow> string \<Rightarrow> string \<Rightarrow> bool" where
  "trx_lines c mx F u \<longleftrightarrow> (u \<noteq> [] \<longrightarrow> F = [] \<or> last F = c) \<and> (length F \<le> mx \<or> c \<notin> set (butlast F))"

text \<open>
  Once its end is known, the transaction will be one; before, what has been sent is a part of a first line, or it ends with a line,
  or a line that has begun ends in the buffer and fits.
\<close>

definition lines_inv :: "('f \<Rightarrow> string) \<Rightarrow> char \<Rightarrow> string \<Rightarrow> 'f trx \<Rightarrow> bool" where
  "lines_inv rest c S t \<longleftrightarrow> plain_buffer c t \<and> t_size t = length S \<and>
     (if t_end t \<noteq> 0
      then trx_lines c (t_max t) (S @ take (t_end t - t_size t) (t_data t)) (drop (t_end t - t_size t) (unsent rest t))
      else if t_partial t then c \<notin> set S
      else length S < t_max t \<and>
        (S = [] \<or> last S = c \<or> (\<exists>e. line_end c (t_data t) e \<and> int e < trx_bytes_left t)))"

lemma line_end_append: "line_end c s e \<Longrightarrow> line_end c (s @ w) e"
  by (auto simp: line_end_def nth_append)

lemma line_end_last: "line_end c s e \<Longrightarrow> take e s \<noteq> [] \<and> last (take e s) = c"
proof -
  assume "line_end c s e"
  then have "take e s \<noteq> []" "length (take e s) = e" "s ! (e - 1) = c" "0 < e"
    by (auto simp: line_end_def)
  then show ?thesis
    by (simp add: last_conv_nth)
qed

lemma line_end_in:
  assumes "line_end c s e" and "e \<le> n"
  shows "c \<in> set (take n s)"
proof -
  have "e - 1 < length (take n s)" "take n s ! (e - 1) = c"
    using assms by (auto simp: line_end_def)
  then show ?thesis
    using nth_mem by blast
qed

lemma line_end_butlast: "line_end c s e \<Longrightarrow> butlast (take e s) = take (e - 1) s"
  by (simp add: line_end_def butlast_take)

text \<open>Sending keeps the invariant once the end of the transaction is known.\<close>

lemma send_known_end:
  assumes t: "buf_ok rest ok t" "lines_inv rest c S t" "t_end t \<noteq> 0" and send: "send len t = Return (Bytes s) t'"
  shows "lines_inv rest c (S @ s) t' \<and> t_end t' \<noteq> 0 \<and> length s \<le> len"
proof -
  define n where "n = t_end t - t_size t"
  define k where "k = min len n"
  have n: "n \<le> length (t_data t)" "t_size t \<le> t_end t"
    using t(1,3) by (auto simp: buf_ok_def n_def)
  then have k: "k \<le> length (t_data t)" "k \<le> n" "k \<le> len"
    by (auto simp: k_def)
  have s: "s = take k (t_data t)" and t': "t_data t' = drop k (t_data t)" "t_size t' = t_size t + k" "t_end t' = t_end t" "t_file t' = t_file t"
      "same_buf t t'"
    using send t(3) n(2) k(1) consume_cases [of t len] by (auto simp: send_def n_def k_def Let_def same_buf_def)
  have len: "t_end t' - t_size t' = n - k" "t_max t' = t_max t"
    using t' by (simp_all add: n_def same_buf_def)
  have "(S @ s) @ take (n - k) (t_data t') = S @ take n (t_data t)"
    using k(2) by (simp add: s t'(1) take_add [symmetric])
  moreover have "drop (n - k) (unsent rest t') = drop n (unsent rest t)"
    using k n(1) by (simp add: unsent_def t' add.commute)
  ultimately show ?thesis
    using t(2,3) t' len k by (auto simp: lines_inv_def plain_buffer_def same_buf_def n_def s)
qed

text \<open>Sending \<open>len\<close> bytes while the end is not known.\<close>

lemma send_unknown_end:
  assumes "t_end t = 0" and send: "send len t = Return (Bytes s) t'"
  shows "s = take len (t_data t) \<and> length s \<le> len \<and> t_end t' = 0 \<and> t_partial t' = t_partial t \<and> t_data t' = drop len (t_data t) \<and>
    t_size t' = t_size t + length s \<and> same_buf t t' \<and> t_eof t' = t_eof t \<and> t_file t' = t_file t"
  using assms by (auto simp: send_def consume_def Let_def same_buf_def split: if_splits)

lemma lines_inv_done:
  assumes "buf_ok rest ok t" and "lines_inv rest c S t" and "0 < t_end t \<and> t_end t \<le> t_size t \<or> unsent rest t = []"
  shows "trx_lines c (t_max t) S (unsent rest t)"
proof (cases "t_end t = 0")
  case True
  then show ?thesis
    using assms by (auto simp: lines_inv_def trx_lines_def dest: in_set_butlastD split: if_splits)
next
  case False
  then have "t_end t - t_size t = 0 \<or> unsent rest t = []"
    using assms(3) by auto
  then have "take (t_end t - t_size t) (t_data t) = []" "drop (t_end t - t_size t) (unsent rest t) = unsent rest t"
    by (auto simp: unsent_def)
  moreover have "trx_lines c (t_max t) (S @ take (t_end t - t_size t) (t_data t)) (drop (t_end t - t_size t) (unsent rest t))"
    using assms(2) False by (auto simp: lines_inv_def)
  ultimately show ?thesis
    by (simp only: append_Nil2)
qed

lemma set_end_lines:
  assumes "plain_buffer c t" and "t_size t = length S" and "t_size t + e \<noteq> 0"
    and "trx_lines c (t_max t) (S @ take e (t_data t)) (drop e (unsent rest t))"
  shows "lines_inv rest c S (set_trx_end_offset e t)"
  using assms by (simp add: lines_inv_def plain_buffer_def set_trx_end_offset_def unsent_def)

lemma set_end_line:
  assumes t: "plain_buffer c t" "t_size t = length S" and e: "line_end c (t_data t) e"
    and fits: "length S + e \<le> t_max t \<or> c \<notin> set S \<and> c \<notin> set (take (e - 1) (t_data t))"
  shows "lines_inv rest c S (set_trx_end_offset e t)"
proof (rule set_end_lines [OF t])
  show "t_size t + e \<noteq> 0"
    using e by (simp add: line_end_def)
  have "length (take e (t_data t)) = e"
    using e by (simp add: line_end_def)
  moreover have "butlast (S @ take e (t_data t)) = S @ take (e - 1) (t_data t)"
    using line_end_last [OF e] line_end_butlast [OF e] by (simp add: butlast_append)
  ultimately show "trx_lines c (t_max t) (S @ take e (t_data t)) (drop e (unsent rest t))"
    using line_end_last [OF e] fits by (auto simp: trx_lines_def)
qed

lemma fill_check_lines:
  assumes t: "lines_inv rest c S t" and check: "fill_check t = Some t'"
  shows "lines_inv rest c S t' \<and> (t_end t' = 0 \<longrightarrow> t' = t \<and>
    (0 < trx_bytes_left t \<and> trx_bytes_left t \<le> int (length (t_data t)) \<longrightarrow> find_last_row_boundary_before (nat (trx_bytes_left t)) t = Some 0))"
proof (cases "t_end t = 0 \<and> 0 < trx_bytes_left t \<and> trx_bytes_left t \<le> int (length (t_data t))")
  case True
  have plain: "plain_buffer c t" "t_size t = length S" "0 < nat (trx_bytes_left t)"
    using t True by (simp_all add: lines_inv_def)
  show ?thesis
  proof (cases rule: find_last_char [OF plain(1,3), case_names none found])
    case none
    then show ?thesis
      using check True t by (simp add: fill_check_def)
  next
    case (found e)
    have "length S + e \<le> t_max t"
      using found(2) True plain(2) by (auto simp: trx_bytes_left_def)
    then have "lines_inv rest c S (set_trx_end_offset e t)"
      using set_end_line [OF plain(1,2) found(3)] by blast
    then show ?thesis
      using check True found by (auto simp: fill_check_def line_end_def)
  qed
next
  case False
  then have "fill_check t = Some t"
    unfolding fill_check_def by (rule if_not_P)
  then show ?thesis
    using check t False by auto
qed

text \<open>After a pass.\<close>

fun lines_pass :: "('f \<Rightarrow> string) \<Rightarrow> char \<Rightarrow> nat \<Rightarrow> string \<Rightarrow> 'f pass \<Rightarrow> bool" where
  "lines_pass rest c len S (Retry t) \<longleftrightarrow> lines_inv rest c S t"
| "lines_pass rest c len S (Return r t) \<longleftrightarrow> (\<forall>s. r = Bytes s \<longrightarrow> lines_inv rest c (S @ s) t \<and> length s \<le> len)"

lemma send_known_pass:
  assumes "buf_ok rest ok t" "lines_inv rest c S t" "t_end t \<noteq> 0"
  shows "lines_pass rest c len S (send len t)"
proof -
  obtain s t' where "send len t = Return (Bytes s) t'"
    by (cases "consume len t") (simp add: send_def)
  then show ?thesis
    using send_known_end [OF assms] by simp
qed

text \<open>No line ends in the part of the buffer that is sent.\<close>

lemma send_partial_pass:
  assumes t: "plain_buffer c t" "t_size t = length S" "t_end t = 0" "t_partial t" and c: "c \<notin> set S" "c \<notin> set (take len (t_data t))"
  shows "lines_pass rest c len S (send len t)"
proof -
  obtain s t' where send: "send len t = Return (Bytes s) t'"
    by (cases "consume len t") (simp add: send_def)
  show ?thesis
    using send_unknown_end [OF t(3) send] t c send by (auto simp: lines_inv_def plain_buffer_def same_buf_def)
qed

lemma no_line_end:
  assumes plain: "plain_buffer c t" and left: "0 < trx_bytes_left t" "find_last_row_boundary_before (nat (trx_bytes_left t)) t = Some 0"
    and e: "line_end c (t_data t) e" "int e < trx_bytes_left t"
  shows False
proof -
  have limit: "0 < nat (trx_bytes_left t)" "e < nat (trx_bytes_left t)" "0 < e"
    using left(1) e by (auto simp: line_end_def)
  have "c \<in> set (take (nat (trx_bytes_left t)) (t_data t))"
    using line_end_in [OF e(1)] limit(2) by simp
  then show False
    using left(2) limit by (cases rule: find_last_char [OF plain limit(1), case_names none found]) (auto simp: line_end_def)
qed

lemma send_full_lines:
  assumes t: "ready rest ok t0 t" "lines_inv rest c S t" "t_end t = 0"
    and none: "0 < trx_bytes_left t \<Longrightarrow> find_last_row_boundary_before (nat (trx_bytes_left t)) t = Some 0"
    and mx: "t_max t < 2 ^ 32" and send: "send_full len t = Some p"
  shows "lines_pass rest c len S p"
proof -
  have plain: "plain_buffer c t" "t_size t = length S" and ok: "buf_ok rest ok t"
    using t(1,2) by (simp_all add: lines_inv_def ready_def)
  have left: "0 < trx_bytes_left t" "trx_bytes_left t mod 2 ^ 64 = trx_bytes_left t" if "\<not> t_partial t"
    using t(2,3) that mx by (auto simp: lines_inv_def trx_bytes_left_def)
  have no_last: "(if \<not> t_partial t then find_last_row_boundary_before (nat (trx_bytes_left t mod 2 ^ 64)) t else Some 0) = Some 0"
    using left none by simp
  show ?thesis
  proof (cases "\<not> t_partial t \<and> 0 < t_size t")
    case True
    then have "S \<noteq> []"
      using plain(2) by auto
    then have "last S = c"
      using no_line_end [OF plain(1) left(1) none] t(2,3) True by (auto simp: lines_inv_def)
    then have "lines_inv rest c S (set_trx_end_offset 0 t)"
      using set_end_lines [OF plain, of 0 rest] True t(2,3) plain(2) by (auto simp: lines_inv_def trx_lines_def)
    then show ?thesis
      using send True no_last by (auto simp: send_full_def)
  next
    case False
    then have c: "c \<notin> set S"
      using t(2,3) plain(2) by (auto simp: lines_inv_def)
    show ?thesis
    proof (cases rule: find_first_char [OF plain(1), case_names none found])
      case none
      let ?t = "t\<lparr>t_partial := True\<rparr>"
      have "p = send len ?t"
        using send no_last False none(1) by (auto simp: send_full_def)
      then show ?thesis
        using send_partial_pass [of c ?t S len] plain t(3) c none(2) by (auto simp: plain_buffer_def dest: in_set_takeD)
    next
      case (found e)
      then have "p = send len (set_trx_end_offset e t)" "0 < e"
        using send no_last False by (auto simp: send_full_def line_end_def)
      then show ?thesis
        using send_known_pass [OF set_end_ok [OF ok] set_end_line [OF plain found(2)]] found c by (auto simp: line_end_def)
    qed
  qed
qed

text \<open>Sending a part of the buffer while it does not fill the transaction.\<close>

lemma send_open_pass:
  assumes t: "plain_buffer c t" "t_size t = length S" "t_end t = 0" "int (length (t_data t)) < trx_bytes_left t"
    and lines: "if t_partial t then c \<notin> set S \<and> c \<notin> set (take len (t_data t))
      else line_end c (t_data t) len \<or> (\<exists>e > len. line_end c (t_data t) e)"
  shows "lines_pass rest c len S (send len t)"
proof (cases "t_partial t")
  case True
  then show ?thesis
    using send_partial_pass [OF t(1-3) True] lines by simp
next
  case False
  obtain s t' where send: "send len t = Return (Bytes s) t'"
    by (cases "consume len t") (simp add: send_def)
  have t': "s = take len (t_data t)" "t_end t' = 0" "\<not> t_partial t'" "t_data t' = drop len (t_data t)" "t_size t' = t_size t + length s"
      "same_buf t t'" "length s \<le> len"
    using send_unknown_end [OF t(3) send] False by auto
  have "length (S @ s) < t_max t'"
    using t(2,4) t' by (auto simp: trx_bytes_left_def same_buf_def)
  moreover have "last (S @ s) = c" if "line_end c (t_data t) len"
    using line_end_last [OF that] t'(1) by simp
  moreover have "line_end c (t_data t') (e - len) \<and> int (e - len) < trx_bytes_left t'" if "line_end c (t_data t) e" "len < e" for e
    using that t(2,4) t' by (auto simp: line_end_def trx_bytes_left_def same_buf_def)
  ultimately have "length (S @ s) < t_max t'" "last (S @ s) = c \<or> (\<exists>e. line_end c (t_data t') e \<and> int e < trx_bytes_left t')"
    using lines False by (simp, metis)
  moreover have "plain_buffer c t'" "t_size t' = length (S @ s)"
    using t(1,2) t'(5,6) by (simp_all add: plain_buffer_def same_buf_def)
  ultimately have "lines_inv rest c (S @ s) t'"
    using t'(2,3) by (simp add: lines_inv_def)
  then show ?thesis
    using send t'(7) by simp
qed

lemma lines_pass_mono: "lines_pass rest c e S p \<Longrightarrow> e \<le> len \<Longrightarrow> lines_pass rest c len S p"
  by (cases p) auto

lemma send_part_lines:
  assumes t: "ready rest ok t0 t" "lines_inv rest c S t" "t_end t = 0" and left: "int (length (t_data t)) < trx_bytes_left t"
    and size: "2 \<le> len" "len < 2 ^ 32" "t_max t < 2 ^ 32" and send: "send_part len t = Some p"
  shows "lines_pass rest c len S p"
proof -
  have plain: "plain_buffer c t" "t_size t = length S" and ok: "buf_ok rest ok t"
    using t(1,2) by (simp_all add: lines_inv_def ready_def)
  have len: "0 < len" "0 < nat (trx_bytes_left t)"
    using size left by simp_all
  show ?thesis
  proof (cases rule: find_last_char [OF plain(1) len(1), case_names none found])
    case (found e)
    then have "p = send e (t\<lparr>t_partial := False\<rparr>)"
      using send size by (auto simp: send_part_def line_end_def)
    moreover have "lines_pass rest c e S (send e (t\<lparr>t_partial := False\<rparr>))"
      using send_open_pass [of c "t\<lparr>t_partial := False\<rparr>" S e] plain t(3) left found(3) by (auto simp: plain_buffer_def trx_bytes_left_def)
    ultimately show ?thesis
      using found(2) lines_pass_mono by blast
  next
    case none
    then have c: "c \<notin> set (take len (t_data t))"
      using size(1) by simp
    show ?thesis
    proof (cases rule: find_last_char [OF plain(1) len(2), case_names none' found])
      case (found e)
      have e: "len < e" "e < 2 ^ 32"
        using c line_end_in [OF found(3), of len] found(3) left size(3) by (auto simp: line_end_def trx_bytes_left_def not_less [symmetric])
      then have "p = send len t"
        using send none(1) found(1) by (auto simp: send_part_def)
      moreover have "if t_partial t then c \<notin> set S \<and> c \<notin> set (take len (t_data t))
          else line_end c (t_data t) len \<or> (\<exists>e > len. line_end c (t_data t) e)"
        using c found(3) e(1) t(2,3) by (auto simp: lines_inv_def)
      ultimately show ?thesis
        using send_open_pass [OF plain t(3) left] by blast
    next
      case none'
      have all: "c \<notin> set (t_data t)"
        using none'(2) left by (auto simp: trx_bytes_left_def)
      have p: "p = (if t_size t = 0 then send len (t\<lparr>t_partial := True\<rparr>) else if t_partial t then send len t
          else if t_eof t then send len (set_trx_end_offset (length (t_data t)) t) else Retry t)"
        using send none(1) none'(1) by (auto simp: send_part_def)
      have S: "c \<notin> set S" if "t_size t = 0 \<or> t_partial t"
        using that t(2,3) plain(2) by (auto simp: lines_inv_def split: if_splits)
      consider "t_size t = 0 \<or> t_partial t" | "t_eof t" "0 < t_size t" "p = send len (set_trx_end_offset (length (t_data t)) t)"
        | "p = Retry t"
        using p by (auto split: if_splits)
      then show ?thesis
      proof cases
        case 1
        then show ?thesis
          using p send_partial_pass [of c "t\<lparr>t_partial := True\<rparr>" S len] send_partial_pass [of c t S len] plain t(3) S c
          by (auto simp: plain_buffer_def)
      next
        case 2
        have "lines_inv rest c S (set_trx_end_offset (length (t_data t)) t)"
          using 2 left plain(2) ok by (intro set_end_lines [OF plain]) (auto simp: trx_lines_def unsent_def buf_ok_def trx_bytes_left_def)
        then show ?thesis
          using send_known_pass [OF set_end_ok [OF ok]] 2 by simp
      next
        case 3
        then show ?thesis
          using t(2) by simp
      qed
    qed
  qed
qed

section \<open>Files\<close>

context reader
begin

lemma trx_pass_lines:
  assumes t: "buf_ok rest ok t" "t_end t = 0 \<or> t_size t < t_end t" "lines_inv rest c S t"
    and size: "2 \<le> len" "len < 2 ^ 32" "t_max t < 2 ^ 32" and pass: "trx_pass ops len t = Some p"
  shows "lines_pass rest c len S p"
proof -
  obtain s t1 where t1: "(if t_end t = 0 then read_more ops len t else (Bytes [], t)) = (Bytes s, t1)" "ready rest ok t t1"
      "lines_inv rest c S t1"
  proof (cases "t_end t = 0")
    case True
    then obtain s t1 where read: "read_more ops len t = (Bytes s, t1)" "ready rest ok t t1" "t_end t1 = 0"
      using read_more_ok [OF t(1) True, of len] size(1) by auto
    have same: "t_partial t1 = t_partial t" "\<exists>w. t_data t1 = t_data t @ w" "t_size t1 = t_size t" "same_buf t t1"
      using read(1) by (auto simp: read_more_def same_buf_def split: if_splits prod.splits io.splits)
    then have "lines_inv rest c S t1"
      using t(3) True read(3) by (auto simp: lines_inv_def plain_buffer_def same_buf_def trx_bytes_left_def dest: line_end_append split: if_splits)
    then show thesis
      using that read True by simp
  next
    case False
    then have "ready rest ok t t"
      using t(1) by (simp add: ready_def)
    then show thesis
      using that False t(3) by simp
  qed
  obtain t2 where t2: "fill_check t1 = Some t2" "ready rest ok t t2"
    using fill_check_ok [OF t1(2)] .
  note fill = fill_check_lines [OF t1(3) t2(1)]
  have ok: "buf_ok rest ok t2" "t_max t2 < 2 ^ 32"
    using t2(2) size(3) by (auto simp: ready_def same_buf_def)
  consider "0 < t_end t2" "p = send len t2"
    | "t_end t2 = 0" "trx_bytes_left t2 \<le> int (length (t_data t2))" "send_full len t2 = Some p"
    | "t_end t2 = 0" "int (length (t_data t2)) < trx_bytes_left t2" "send_part len t2 = Some p"
    using pass t1(1) t2(1) by (fastforce simp: trx_pass_def split: if_splits)
  then show ?thesis
  proof cases
    case 1
    then show ?thesis
      using send_known_pass [OF ok(1)] fill by simp
  next
    case 2
    then show ?thesis
      using send_full_lines [OF t2(2) _ 2(1) _ ok(2) 2(3), of c S] fill by auto
  next
    case 3
    then show ?thesis
      using send_part_lines [OF t2(2) _ 3(1,2) size(1,2) ok(2) 3(3), of c S] fill by auto
  qed
qed

text \<open>What the two theorems on whole files rest on.\<close>

lemma keeps_nothing: "trx_keeps ops rest ok len t0 (\<lambda>S t. True) (\<lambda>S t. True)"
  by (simp add: trx_keeps_def split: pass.split)

lemma keeps_lines:
  assumes "plain_buffer c t0" "2 \<le> len" "len < 2 ^ 32" "t_max t0 < 2 ^ 32"
  shows "trx_keeps ops rest ok len t0 (\<lambda>S t. same_buf t0 t \<and> lines_inv rest c S t) (\<lambda>S t. trx_lines c (t_max t0) S (unsent rest t))"
  unfolding trx_keeps_def
proof (intro conjI allI impI)
  fix t
  assume "same_buf t0 t" "buf_ok rest ok t" "t_size t = 0" "t_end t = 0" "\<not> t_partial t"
  then show "same_buf t0 t" "lines_inv rest c [] t"
    using assms(1) by (simp_all add: lines_inv_def plain_buffer_def same_buf_def buf_ok_def)
next
  fix S t p
  assume t: "trx_pass ops len t = Some p" "buf_ok rest ok t" "t_end t = 0 \<or> t_size t < t_end t" "same_buf t0 t \<and> lines_inv rest c S t"
  show "case p of Retry t' \<Rightarrow> same_buf t0 t' \<and> lines_inv rest c S t'
    | Return r t' \<Rightarrow> \<forall>s. r = Bytes s \<longrightarrow> (same_buf t0 t' \<and> lines_inv rest c (S @ s) t') \<and> (s = [] \<longrightarrow> trx_lines c (t_max t0) S (unsent rest t'))"
  proof -
    have same: "same_buf t0 t" and size: "t_max t < 2 ^ 32" "len + length (lines_terminated_by (t_dialect t)) \<le> 2 ^ 32" "0 < len"
      using t(4) assms by (auto simp: same_buf_def plain_buffer_def)
    have ok: "pass_ok rest ok t p"
      using trx_pass_ok [OF t(2,3) size(3,2,1)] t(1) by auto
    have lines: "lines_pass rest c len S p"
      using trx_pass_lines [OF t(2,3) _ assms(2,3) size(1) t(1)] t(4) by simp
    show ?thesis
    proof (cases p)
      case (Retry t')
      then show ?thesis
        using ok lines same_buf_trans [OF same] by simp
    next
      case (Return r t')
      show ?thesis
        unfolding Return pass.case
      proof (intro allI impI)
        fix s
        assume r: "r = Bytes s"
        have t': "same_buf t0 t'" "lines_inv rest c (S @ s) t'" "buf_ok rest ok t'"
          using ok lines Return r same_buf_trans [OF same] by simp_all
        moreover have "trx_lines c (t_max t') S (unsent rest t')" if "s = []"
          using lines_inv_done [OF t'(3), of c S] t'(2) ok Return r that by auto
        ultimately show "(same_buf t0 t' \<and> lines_inv rest c (S @ s) t') \<and> (s = [] \<longrightarrow> trx_lines c (t_max t0) S (unsent rest t'))"
          by (simp add: same_buf_def)
      qed
    qed
  qed
next
  fix S t
  assume "buf_ok rest ok t" "same_buf t0 t \<and> lines_inv rest c S t" "flush_pending t"
  then show "trx_lines c (t_max t0) S (unsent rest t)"
    using lines_inv_done [of rest ok t c S] by (auto simp: flush_pending_def same_buf_def)
qed

end

end
