(* ===== verification/Allocated_File.thy ===== *)
theory Allocated_File
  imports Allocator_Facts
begin

text \<open>
  \<open>Allocated_file\<close> of \<^verbatim>\<open>mysqlshdk/libs/storage/backend/in_memory/allocated_file.cc\<close>: a file in blocks of memory of the allocator,
  which are released as they are read.

  A block is its address with the bytes it holds; the bytes of a new block are the argument \<open>junk\<close>. An operation gives an
  exception or a result, and \<^const>\<open>None\<close> is a failed assertion of the allocator, an index that is out of bounds, or a loop
  that does not end.
\<close>

section \<open>Definitions\<close>

record afile =
  f_name :: string
  f_is_open :: bool
  f_read_mode :: bool
  f_size :: nat
  f_capacity :: nat
  f_offset :: nat
  f_block_size :: nat
  f_bytes_consumed :: nat
  f_reading_from_beginning :: bool
  f_blocks :: "(nat \<times> string) list"
  f_consume_if_first :: bool
  f_accepts_append :: bool

record data_block =
  b_memory :: nat
  b_bytes :: string
  b_size :: nat

definition Allocated_file_new :: "string \<Rightarrow> allocator \<Rightarrow> bool \<Rightarrow> afile" where
  "Allocated_file_new name a consume_if_first =
     \<lparr>f_name = name, f_is_open = False, f_read_mode = False, f_size = 0, f_capacity = 0, f_offset = 0,
      f_block_size = m_block_size a, f_bytes_consumed = 0, f_reading_from_beginning = False, f_blocks = [],
      f_consume_if_first = consume_if_first, f_accepts_append = True\<rparr>"

text \<open>The destructor.\<close>

definition file_delete :: "afile \<Rightarrow> allocator \<Rightarrow> allocator option" where
  "file_delete f a = free_blocks (map fst (f_blocks f)) a"

definition file_error :: "string \<Rightarrow> afile \<Rightarrow> string \<Rightarrow> exn" where
  "file_error what f why = Runtime_error (what @ f_name f @ why)"

definition file_tell :: "afile \<Rightarrow> nat res" where
  "file_tell f =
     (if \<not> f_is_open f then Inl (file_error ''Unable to fetch offset of file: '' f '', it is not open'') else Inr (f_offset f))"

definition file_seek :: "int \<Rightarrow> afile \<Rightarrow> nat res \<times> afile" where
  "file_seek offset f =
     (if offset < 0 then (Inl (file_error ''Unable to seek file: '' f '', using disallowed negative value''), f)
      else if \<not> f_is_open f then (Inl (file_error ''Unable to seek file: '' f '', it is not open''), f)
      else
        (let new_offset = min (nat offset) (f_size f)
         in if new_offset < f_bytes_consumed f
            then (Inl (file_error ''Unable to seek file: '' f '', requested offset has already been consumed''), f)
            else
              (let f' = f\<lparr>f_offset := new_offset,
                         f_reading_from_beginning := new_offset = f_bytes_consumed f \<or>
                           f_consume_if_first f \<and> new_offset < f_bytes_consumed f + f_block_size f\<rparr>
               in (file_tell f', f'))))"

definition file_open :: "bool \<Rightarrow> afile \<Rightarrow> exn option \<times> afile" where
  "file_open read_mode f =
     (if f_is_open f then (Some (file_error ''Unable to open file: '' f '', it is already open''), f)
      else if f_bytes_consumed f \<noteq> 0 \<and> \<not> read_mode
      then (Some (file_error ''Unable to open file: '' f '' for writing, it was already read from''), f)
      else
        (case file_seek 0 (f\<lparr>f_is_open := True, f_read_mode := read_mode, f_accepts_append := False\<rparr>) of
           (Inl e, f') \<Rightarrow> (Some e, f')
         | (Inr _, f') \<Rightarrow> (None, f')))"

definition file_close :: "afile \<Rightarrow> exn option \<times> afile" where
  "file_close f =
     (if \<not> f_is_open f then (Some (file_error ''Unable to close file: '' f '', it is already closed''), f)
      else (None, f\<lparr>f_is_open := False\<rparr>))"

text \<open>The loop of \<open>read\<close>; what has been copied to the buffer is \<open>out\<close>.\<close>

partial_function (option) read_loop :: "nat \<Rightarrow> nat \<Rightarrow> nat \<Rightarrow> string \<Rightarrow> afile \<Rightarrow> allocator \<Rightarrow> (string \<times> afile \<times> allocator) option" where
  "read_loop len block_number block_offset out f a =
     (if 0 < len \<and> f_offset f \<noteq> f_size f
      then
        (let to_read = min (min len (f_block_size f - block_offset)) (f_size f - f_offset f);
             f1 = f\<lparr>f_offset := f_offset f + to_read\<rparr>
         in if length (f_blocks f) \<le> block_number then None
            else
              (let out1 = out @ take to_read (drop block_offset (snd (f_blocks f ! block_number)))
               in if f_reading_from_beginning f \<and> (block_offset + to_read = f_block_size f \<or> f_offset f1 = f_size f)
                  then (case free_block (fst (hd (f_blocks f))) a of
                          None \<Rightarrow> None
                        | Some a' \<Rightarrow>
                            read_loop (len - to_read) block_number 0 out1
                              (f1\<lparr>f_bytes_consumed := f_bytes_consumed f + f_block_size f, f_blocks := tl (f_blocks f)\<rparr>) a')
                  else read_loop (len - to_read) (block_number + 1) 0 out1 f1 a))
      else Some (out, f, a))"

declare read_loop.simps [code]

definition file_read :: "nat \<Rightarrow> afile \<Rightarrow> allocator \<Rightarrow> (string res \<times> afile \<times> allocator) option" where
  "file_read len f a =
     (if \<not> f_is_open f then Some (Inl (file_error ''Unable to read from file: '' f '', it is not open''), f, a)
      else if \<not> f_read_mode f then Some (Inl (file_error ''Unable to read from file: '' f '', it is opened for writing''), f, a)
      else if f_offset f = f_size f then Some (Inr [], f, a)
      else
        (let block_number = (f_offset f - f_bytes_consumed f) div f_block_size f
         in map_option (\<lambda>(out, f', a'). (Inr out, f', a'))
              (read_loop len block_number (f_offset f - f_bytes_consumed f - block_number * f_block_size f) [] f a)))"

text \<open>The loop of \<open>write\<close>.\<close>

definition put_bytes :: "nat \<Rightarrow> string \<Rightarrow> string \<Rightarrow> string" where
  "put_bytes offset s block = take offset block @ s @ drop (offset + length s) block"

partial_function (option) write_loop :: "nat \<Rightarrow> nat \<Rightarrow> nat \<Rightarrow> string \<Rightarrow> (nat \<times> string) list \<Rightarrow> (nat \<times> string) list option" where
  "write_loop block_size block_number block_offset buffer blocks =
     (if 0 < length buffer
      then
        (let to_write = min (length buffer) (block_size - block_offset)
         in if length blocks \<le> block_number then None
            else write_loop block_size (block_number + 1) 0 (drop to_write buffer)
                   (blocks[block_number := map_prod id (put_bytes block_offset (take to_write buffer)) (blocks ! block_number)]))
      else Some blocks)"

declare write_loop.simps [code]

text \<open>\<open>write\<close>; the result is \<open>Inr None\<close> when \<^verbatim>\<open>std::bad_alloc\<close> is thrown.\<close>

definition file_write ::
  "nat list \<Rightarrow> (nat \<Rightarrow> string) \<Rightarrow> string \<Rightarrow> afile \<Rightarrow> allocator \<Rightarrow> (nat option res \<times> afile \<times> allocator) option"
where
  "file_write fresh junk buffer f a =
     (if \<not> f_is_open f then Some (Inl (file_error ''Unable to write to file: '' f '', it is not open''), f, a)
      else if f_read_mode f then Some (Inl (file_error ''Unable to write to file: '' f '', it is opened for reading''), f, a)
      else
        (case if f_capacity f - f_offset f < length buffer
              then allocate fresh (length buffer - (f_capacity f - f_offset f)) a else Some (Some [], a) of
           None \<Rightarrow> None
         | Some (None, a') \<Rightarrow> Some (Inr None, f, a')
         | Some (Some new, a') \<Rightarrow>
             (let block_number = f_offset f div f_block_size f;
                  f1 = f\<lparr>f_blocks := f_blocks f @ map (\<lambda>b. (b, junk b)) new,
                         f_capacity := f_capacity f + length new * f_block_size f\<rparr>
              in map_option
                   (\<lambda>blocks. (Inr (Some (length buffer)),
                      f1\<lparr>f_blocks := blocks, f_offset := f_offset f + length buffer,
                         f_size := max (f_size f) (f_offset f + length buffer)\<rparr>, a'))
                   (write_loop (f_block_size f) block_number (f_offset f - block_number * f_block_size f) buffer (f_blocks f1)))))"

definition file_append :: "data_block \<Rightarrow> afile \<Rightarrow> exn option \<times> afile" where
  "file_append b f =
     (if \<not> f_accepts_append f then (Some (file_error ''Unable to append a block to file: '' f '', not allowed''), f)
      else (None, f\<lparr>f_blocks := f_blocks f @ [(b_memory b, b_bytes b)], f_size := f_size f + b_size b,
                    f_capacity := f_capacity f + f_block_size f, f_accepts_append := b_size b = f_block_size f\<rparr>))"

end
