(* ===== verification/Allocated_File_Facts.thy ===== *)
theory Allocated_File_Facts
  imports Allocated_File
begin

text \<open>
  An allocated file holds what has been written to it or appended, gives it back in order, and releases every block at most once.
\<close>

section \<open>Blocks\<close>

definition blocks_of :: "nat \<Rightarrow> (nat \<times> string) list \<Rightarrow> bool" where
  "blocks_of n bs \<longleftrightarrow> (\<forall>b \<in> set bs. length (snd b) = n)"

definition bytes_of :: "(nat \<times> string) list \<Rightarrow> string" where
  "bytes_of bs = concat (map snd bs)"

lemma blocks_of_simps [simp]:
  "blocks_of n []" "blocks_of n (b # bs) \<longleftrightarrow> length (snd b) = n \<and> blocks_of n bs" "blocks_of n (as @ bs) \<longleftrightarrow> blocks_of n as \<and> blocks_of n bs"
  by (auto simp: blocks_of_def)

lemma bytes_of_simps [simp]: "bytes_of [] = []" "bytes_of (b # bs) = snd b @ bytes_of bs" "bytes_of (as @ bs) = bytes_of as @ bytes_of bs"
  by (simp_all add: bytes_of_def)

lemma bytes_of_length: "blocks_of n bs \<Longrightarrow> length (bytes_of bs) = length bs * n"
  by (induction bs) auto

lemma bytes_of_drop: "blocks_of n bs \<Longrightarrow> drop (k * n) (bytes_of bs) = bytes_of (drop k bs)"
proof (induction bs arbitrary: k)
  case (Cons b bs)
  then show ?case
    by (cases k) (simp_all add: drop_eq_Nil)
qed simp

lemma blocks_of_drop: "blocks_of n bs \<Longrightarrow> blocks_of n (drop k bs)"
  by (auto simp: blocks_of_def dest: in_set_dropD)

section \<open>Files\<close>

definition file_ok :: "afile \<Rightarrow> allocator \<Rightarrow> bool" where
  "file_ok f a \<longleftrightarrow> alloc_ok a \<and> 0 < f_block_size f \<and> m_block_size a = f_block_size f \<and> distinct (map fst (f_blocks f)) \<and>
     fst ` set (f_blocks f) \<subseteq> used a \<and> blocks_of (f_block_size f) (f_blocks f) \<and>
     f_bytes_consumed f + length (f_blocks f) * f_block_size f = f_capacity f \<and>
     f_size f \<le> f_capacity f \<and> f_capacity f < f_size f + f_block_size f \<and> (f_accepts_append f \<longrightarrow> f_capacity f = f_size f \<and> f_bytes_consumed f = 0 \<and> \<not> f_is_open f \<and> \<not> f_reading_from_beginning f) \<and>
     f_offset f \<le> f_size f \<and> (f_bytes_consumed f \<le> f_offset f \<or> f_offset f = f_size f) \<and>
     (f_bytes_consumed f \<noteq> 0 \<longrightarrow> f_read_mode f) \<and>
     (f_read_mode f \<and> f_reading_from_beginning f \<and> f_offset f < f_size f \<longrightarrow> f_offset f < f_bytes_consumed f + f_block_size f)"

lemma file_okD:
  assumes "file_ok f a"
  shows "alloc_ok a" "0 < f_block_size f" "m_block_size a = f_block_size f" "distinct (map fst (f_blocks f))" "fst ` set (f_blocks f) \<subseteq> used a"
    "blocks_of (f_block_size f) (f_blocks f)" "f_bytes_consumed f + length (f_blocks f) * f_block_size f = f_capacity f"
    "f_size f \<le> f_capacity f" "f_capacity f < f_size f + f_block_size f" "f_accepts_append f \<Longrightarrow> f_capacity f = f_size f \<and> f_bytes_consumed f = 0 \<and> \<not> f_is_open f \<and> \<not> f_reading_from_beginning f"
    "f_offset f \<le> f_size f" "f_bytes_consumed f \<le> f_offset f \<or> f_offset f = f_size f" "f_bytes_consumed f \<noteq> 0 \<longrightarrow> f_read_mode f"
    "f_read_mode f \<Longrightarrow> f_reading_from_beginning f \<Longrightarrow> f_offset f < f_size f \<Longrightarrow> f_offset f < f_bytes_consumed f + f_block_size f"
  using assms unfolding file_ok_def by blast+

text \<open>The bytes from the start of the first block that is left, and from the current offset.\<close>

definition file_bytes :: "afile \<Rightarrow> string" where
  "file_bytes f = take (f_size f - f_bytes_consumed f) (bytes_of (f_blocks f))"

definition file_rest :: "afile \<Rightarrow> string" where
  "file_rest f = drop (f_offset f - f_bytes_consumed f) (file_bytes f)"

lemma file_bytes_length: "file_ok f a \<Longrightarrow> length (file_bytes f) = f_size f - f_bytes_consumed f"
  using bytes_of_length [of "f_block_size f" "f_blocks f"] by (auto simp: file_ok_def file_bytes_def)

lemma file_offsets: "file_ok f a \<Longrightarrow> f_offset f \<le> f_size f \<and> (f_bytes_consumed f \<le> f_offset f \<or> f_offset f = f_size f)"
  by (simp add: file_ok_def)

lemma file_rest_length: "file_ok f a \<Longrightarrow> length (file_rest f) = f_size f - f_offset f"
  using file_bytes_length [of f a] file_offsets [of f a] unfolding file_rest_def length_drop by linarith

text \<open>The rest in terms of the block at the offset.\<close>

lemma file_rest_block:
  assumes ok: "file_ok f a" and pos: "f_offset f < f_size f" "f_offset f = f_bytes_consumed f + n * f_block_size f + k" "k < f_block_size f"
  shows "n < length (f_blocks f)"
    and "file_rest f = take (f_size f - f_offset f) (drop k (snd (f_blocks f ! n)) @ bytes_of (drop (Suc n) (f_blocks f)))"
proof -
  let ?b = "f_block_size f"
  have bs: "blocks_of ?b (f_blocks f)" "f_bytes_consumed f + length (f_blocks f) * ?b = f_capacity f" "f_size f \<le> f_capacity f" "0 < ?b"
    using file_okD(2,6-8) [OF ok] by simp_all
  have "n * ?b < length (f_blocks f) * ?b"
    using pos bs(2,3) by linarith
  then show n: "n < length (f_blocks f)"
    by simp
  have "drop (n * ?b + k) (bytes_of (f_blocks f)) = drop k (bytes_of (drop n (f_blocks f)))"
    using bytes_of_drop [OF bs(1), of n] by (metis add.commute drop_drop)
  also have "drop n (f_blocks f) = f_blocks f ! n # drop (Suc n) (f_blocks f)"
    using n by (simp add: Cons_nth_drop_Suc)
  also have "drop k (bytes_of \<dots>) = drop k (snd (f_blocks f ! n)) @ bytes_of (drop (Suc n) (f_blocks f))"
    using bs(1) n pos(3) by (simp add: blocks_of_def)
  finally show "file_rest f = take (f_size f - f_offset f) (drop k (snd (f_blocks f ! n)) @ bytes_of (drop (Suc n) (f_blocks f)))"
    using pos(2) by (simp add: file_rest_def file_bytes_def drop_take add.assoc)
qed

text \<open>What a round of \<open>read\<close> copies from the block.\<close>

lemma file_rest_take:
  assumes ok: "file_ok f a" and pos: "f_offset f < f_size f" "f_offset f = f_bytes_consumed f + n * f_block_size f + k" "k < f_block_size f"
    and m: "m \<le> f_block_size f - k" "m \<le> f_size f - f_offset f"
  shows "take m (drop k (snd (f_blocks f ! n))) = take m (file_rest f)"
proof -
  have "length (snd (f_blocks f ! n)) = f_block_size f"
    using ok file_rest_block(1) [OF ok pos] by (simp add: file_ok_def blocks_of_def)
  then show ?thesis
    using file_rest_block(2) [OF ok pos] m by (simp add: min_def)
qed

lemma file_rest_advance:
  assumes "f_bytes_consumed f \<le> f_offset f"
  shows "file_rest (f\<lparr>f_offset := f_offset f + m\<rparr>) = drop m (file_rest f)"
proof -
  have "f_offset f + m - f_bytes_consumed f = m + (f_offset f - f_bytes_consumed f)"
    using assms by simp
  then show ?thesis
    by (simp add: file_rest_def file_bytes_def)
qed

text \<open>A block that has been read is released.\<close>

lemma file_release:
  assumes ok: "file_ok f a" and pos: "f_offset f < f_size f" "f_offset f = f_bytes_consumed f + k" "k < f_block_size f"
    and m: "m \<le> f_size f - f_offset f" "m \<le> f_block_size f - k" "k + m = f_block_size f \<or> f_offset f + m = f_size f"
    and f': "f' = f\<lparr>f_offset := f_offset f + m, f_bytes_consumed := f_bytes_consumed f + f_block_size f, f_blocks := tl (f_blocks f)\<rparr>"
    and mode: "f_read_mode f" "f_reading_from_beginning f"
  shows "\<exists>a'. free_block (fst (hd (f_blocks f))) a = Some a' \<and> file_ok f' a' \<and> file_rest f' = drop m (file_rest f) \<and>
    used a' = used a - {fst (hd (f_blocks f))} \<and> (f_offset f + m = f_size f \<longrightarrow> tl (f_blocks f) = [])"
proof -
  have "0 < length (f_blocks f)"
    using file_rest_block(1) [OF ok pos(1), of 0 k] pos by simp
  then obtain b bs where blocks: "f_blocks f = b # bs"
    by (cases "f_blocks f") auto
  have alloc: "alloc_ok a" "fst b \<in> used a" "fst b \<notin> fst ` set bs" "fst ` set bs \<subseteq> used a" "length (snd b) = f_block_size f"
    using file_okD(1,4,5,6) [OF ok] blocks by auto
  then obtain a' where a': "free_block (fst b) a = Some a'" "alloc_ok a'" "same_params a a'" "used a' = used a - {fst b}"
    using free_block_ok [of a "fst b"] by blast
  have caps: "f_bytes_consumed f + f_block_size f + length bs * f_block_size f = f_capacity f" "f_size f \<le> f_capacity f"
      "f_capacity f < f_size f + f_block_size f"
    using file_okD(7-9) [OF ok] blocks by simp_all
  have bs: "distinct (map fst bs)" "blocks_of (f_block_size f) bs" "tl (f_blocks f) = bs"
    using file_okD(4,6) [OF ok] blocks by simp_all
  have used: "fst ` set bs \<subseteq> used a'"
    unfolding a'(4) using alloc(3,4) by (simp add: subset_Diff_insert)
  have offs: "f_offset f + m \<le> f_size f" "f_bytes_consumed f + f_block_size f \<le> f_offset f + m \<or> f_offset f + m = f_size f"
      "f_offset f + m < f_bytes_consumed f + f_block_size f + f_block_size f"
    using pos m by linarith+
  have no_append: "\<not> f_accepts_append f"
    using file_okD(10) [OF ok] mode(2) by blast
  have "m_block_size a' = m_block_size a"
    using a'(3) by (simp add: same_params_def)
  then have "m_block_size a' = f_block_size f"
    using file_okD(3) [OF ok] by simp
  then have "file_ok f' a'"
    unfolding file_ok_def f' using a'(2) file_okD(2) [OF ok] caps mode no_append bs used offs by simp
  moreover have "file_rest f' = drop m (file_rest f)"
  proof (cases "f_offset f + m = f_size f")
    case True
    then show ?thesis
      using file_rest_length [OF \<open>file_ok f' a'\<close>] file_rest_length [OF ok] by (simp add: f')
  next
    case False
    then have k: "k + m = f_block_size f" "f_offset f + m = f_bytes_consumed f + f_block_size f"
      using m(3) pos(2) by auto
    then show ?thesis
      using file_rest_block(2) [OF ok pos(1), of 0 k] pos(2,3) blocks alloc(5) m(1)
      by (simp add: f' file_rest_def [of "f\<lparr>f_offset := a, f_bytes_consumed := b, f_blocks := c\<rparr>" for a b c] file_bytes_def drop_take)
  qed
  moreover have "bs = []" if "f_offset f + m = f_size f"
  proof -
    have "length bs * f_block_size f < 1 * f_block_size f"
      using caps pos(2,3) m(2) that by linarith
    then show ?thesis
      unfolding mult_less_cancel2 by simp
  qed
  ultimately show ?thesis
    using a' blocks by simp
qed

section \<open>Reading\<close>

text \<open>
  What a read of up to \<open>len\<close> bytes does: it gives the next bytes, as many as there are, and releases blocks from the front;
  a file that is read from its beginning to its end keeps no block.
\<close>

definition reads :: "nat \<Rightarrow> afile \<Rightarrow> allocator \<Rightarrow> string \<Rightarrow> afile \<Rightarrow> allocator \<Rightarrow> bool" where
  "reads len f a s f' a' \<longleftrightarrow> file_ok f' a' \<and> file_rest f = s @ file_rest f' \<and> length s = min len (length (file_rest f)) \<and>
     f_size f' = f_size f \<and> f_is_open f' = f_is_open f \<and> f_read_mode f' = f_read_mode f \<and>
     f_reading_from_beginning f' = f_reading_from_beginning f \<and>
     (\<exists>j. f_blocks f' = drop j (f_blocks f) \<and> used a' = used a - fst ` set (take j (f_blocks f))) \<and>
     (f_reading_from_beginning f \<and> f_offset f < f_size f \<and> f_offset f' = f_size f' \<longrightarrow> f_blocks f' = [])"

lemma readsD:
  assumes "reads len f a s f' a'"
  shows "file_ok f' a'" "file_rest f = s @ file_rest f'" "length s = min len (length (file_rest f))" "f_size f' = f_size f"
    "f_is_open f' = f_is_open f" "f_read_mode f' = f_read_mode f" "f_reading_from_beginning f' = f_reading_from_beginning f"
    "\<exists>j. f_blocks f' = drop j (f_blocks f) \<and> used a' = used a - fst ` set (take j (f_blocks f))"
    "f_reading_from_beginning f \<Longrightarrow> f_offset f < f_size f \<Longrightarrow> f_offset f' = f_size f' \<Longrightarrow> f_blocks f' = []"
  using assms unfolding reads_def by blast+

lemma reads_nothing: "file_ok f a \<Longrightarrow> len = 0 \<or> f_offset f = f_size f \<Longrightarrow> reads len f a [] f a"
  using file_rest_length [of f a] by (auto simp: reads_def intro: exI [of _ 0])

lemma reads_trans:
  assumes r: "reads m f a s f1 a1" "m \<le> len" "length s = m" and r': "reads (len - m) f1 a1 s' f2 a2"
  shows "reads len f a (s @ s') f2 a2"
proof -
  obtain j where j: "f_blocks f1 = drop j (f_blocks f)" "used a1 = used a - fst ` set (take j (f_blocks f))"
    using readsD(8) [OF r(1)] by blast
  obtain i where i: "f_blocks f2 = drop i (f_blocks f1)" "used a2 = used a1 - fst ` set (take i (f_blocks f1))"
    using readsD(8) [OF r'] by blast
  have "f_blocks f2 = drop (j + i) (f_blocks f)" "used a2 = used a - fst ` set (take (j + i) (f_blocks f))"
    unfolding i j take_add by (auto simp: add.commute)
  then have "\<exists>j. f_blocks f2 = drop j (f_blocks f) \<and> used a2 = used a - fst ` set (take j (f_blocks f))"
    by blast
  moreover have "length (s @ s') = min len (length (file_rest f))"
    using readsD(2,3) [OF r(1)] readsD(3) [OF r'] r(2,3) by simp
  moreover have "f_blocks f2 = []" if "f_reading_from_beginning f" "f_offset f < f_size f" "f_offset f2 = f_size f2"
  proof (cases "f_offset f1 = f_size f1")
    case True
    then have "f_blocks f1 = []"
      using readsD(9) [OF r(1)] that by simp
    then show ?thesis
      using i(1) by simp
  next
    case False
    then have "f_offset f1 < f_size f1"
      using file_okD(11) [OF readsD(1) [OF r(1)]] by simp
    then show ?thesis
      using readsD(9) [OF r'] readsD(7) [OF r(1)] that by simp
  qed
  moreover have "file_rest f = (s @ s') @ file_rest f2"
    using readsD(2) [OF r(1)] readsD(2) [OF r'] by simp
  moreover have "f_size f2 = f_size f" "f_is_open f2 = f_is_open f" "f_read_mode f2 = f_read_mode f"
      "f_reading_from_beginning f2 = f_reading_from_beginning f"
    using readsD(4-7) [OF r(1)] readsD(4-7) [OF r'] by simp_all
  ultimately show ?thesis
    unfolding reads_def using readsD(1) [OF r'] by blast
qed

lemma read_loop_stop: "\<not> (0 < len \<and> f_offset f \<noteq> f_size f) \<Longrightarrow> read_loop len n k out f a = Some (out, f, a)"
  by (subst read_loop.simps) (rule if_not_P)

lemma read_loop_step:
  assumes "0 < len" "f_offset f < f_size f" "n < length (f_blocks f)" and m: "m = min (min len (f_block_size f - k)) (f_size f - f_offset f)"
    and s: "s = take m (drop k (snd (f_blocks f ! n)))"
  shows "read_loop len n k out f a =
    (if f_reading_from_beginning f \<and> (k + m = f_block_size f \<or> f_offset f + m = f_size f)
     then (case free_block (fst (hd (f_blocks f))) a of
             None \<Rightarrow> None
           | Some a' \<Rightarrow>
               read_loop (len - m) n 0 (out @ s)
                 (f\<lparr>f_offset := f_offset f + m, f_bytes_consumed := f_bytes_consumed f + f_block_size f, f_blocks := tl (f_blocks f)\<rparr>) a')
     else read_loop (len - m) (n + 1) 0 (out @ s) (f\<lparr>f_offset := f_offset f + m\<rparr>) a)"
  using assms(1-3) unfolding s m by (subst read_loop.simps) (simp add: Let_def)

lemma file_advance:
  assumes ok: "file_ok f a" and m: "f_offset f + m \<le> f_size f" "f_bytes_consumed f \<le> f_offset f"
    and rfb: "f_read_mode f \<Longrightarrow> f_reading_from_beginning f \<Longrightarrow> f_offset f + m < f_size f \<Longrightarrow> f_offset f + m < f_bytes_consumed f + f_block_size f"
  shows "file_ok (f\<lparr>f_offset := f_offset f + m\<rparr>) a"
  unfolding file_ok_def using file_okD(1-10,13) [OF ok] m rfb by auto

lemma reads_take:
  assumes "file_ok f a" "m \<le> f_size f - f_offset f" "file_ok f' a'" "file_rest f' = drop m (file_rest f)" "f_size f' = f_size f"
    "f_is_open f' = f_is_open f" "f_read_mode f' = f_read_mode f" "f_reading_from_beginning f' = f_reading_from_beginning f"
    "f_blocks f' = drop j (f_blocks f) \<and> used a' = used a - fst ` set (take j (f_blocks f))"
    "f_reading_from_beginning f \<Longrightarrow> f_offset f < f_size f \<Longrightarrow> f_offset f' = f_size f' \<Longrightarrow> f_blocks f' = []"
  shows "reads m f a (take m (file_rest f)) f' a'"
  unfolding reads_def using assms file_rest_length [OF assms(1)] by (auto simp: min_def)

text \<open>The block and the offset in it the loop is at.\<close>

definition at_block :: "afile \<Rightarrow> nat \<Rightarrow> nat \<Rightarrow> bool" where
  "at_block f n k \<longleftrightarrow> f_offset f = f_bytes_consumed f + n * f_block_size f + k \<and> k < f_block_size f \<and> (f_reading_from_beginning f \<longrightarrow> n = 0)"

lemma read_step:
  assumes ok: "file_ok f a" and mode: "f_read_mode f" and lt: "0 < len" "f_offset f < f_size f" and "at_block f n k"
    and m: "m = min (min len (f_block_size f - k)) (f_size f - f_offset f)"
  shows "\<exists>n' f' a'. read_loop len n k out f a = read_loop (len - m) n' 0 (out @ take m (file_rest f)) f' a' \<and>
    reads m f a (take m (file_rest f)) f' a' \<and> (0 < len - m \<longrightarrow> f_offset f' < f_size f' \<longrightarrow> at_block f' n' 0)"
proof -
  have pos: "f_offset f = f_bytes_consumed f + n * f_block_size f + k" "k < f_block_size f" and rfb: "f_reading_from_beginning f \<longrightarrow> n = 0"
    using assms(5) by (simp_all add: at_block_def)
  have le: "m \<le> len" "m \<le> f_block_size f - k" "m \<le> f_size f - f_offset f"
    unfolding m by simp_all
  note s = file_rest_take [OF ok lt(2) pos le(2,3), symmetric]
  note step = read_loop_step [OF lt file_rest_block(1) [OF ok lt(2) pos] m s]
  show ?thesis
  proof (cases "f_reading_from_beginning f \<and> (k + m = f_block_size f \<or> f_offset f + m = f_size f)")
    case True
    define f' where "f' = f\<lparr>f_offset := f_offset f + m, f_bytes_consumed := f_bytes_consumed f + f_block_size f, f_blocks := tl (f_blocks f)\<rparr>"
    have "n = 0" "f_offset f = f_bytes_consumed f + k"
      using True rfb pos(1) by simp_all
    then obtain a' where a': "free_block (fst (hd (f_blocks f))) a = Some a'" "file_ok f' a'" "file_rest f' = drop m (file_rest f)"
        "used a' = used a - {fst (hd (f_blocks f))}" "f_offset f + m = f_size f \<longrightarrow> tl (f_blocks f) = []"
      using file_release [OF ok lt(2) _ pos(2) le(3,2) _ f'_def mode] True by blast
    have "f_blocks f \<noteq> []"
      using file_rest_block(1) [OF ok lt(2) pos] by auto
    then have "f_blocks f' = drop 1 (f_blocks f) \<and> used a' = used a - fst ` set (take 1 (f_blocks f))"
      using a'(4) by (cases "f_blocks f") (simp_all add: f'_def)
    then have "reads m f a (take m (file_rest f)) f' a'"
      using reads_take [OF ok le(3) a'(2,3)] a'(5) by (simp add: f'_def)
    moreover have "at_block f' 0 0" if "f_offset f' < f_size f'"
      using that True \<open>f_offset f = f_bytes_consumed f + k\<close> pos(2) by (simp add: at_block_def f'_def)
    ultimately show ?thesis
      using step True a'(1) \<open>n = 0\<close> unfolding f'_def [symmetric] by (intro exI [of _ 0] exI [of _ f'] exI [of _ a']) simp
  next
    case False
    define f' where "f' = f\<lparr>f_offset := f_offset f + m\<rparr>"
    have "f_offset f + m < f_bytes_consumed f + f_block_size f" if "f_reading_from_beginning f"
    proof -
      have "n = 0" "k + m \<noteq> f_block_size f"
        using rfb False that by simp_all
      then show ?thesis
        using pos le(2) by simp
    qed
    then have "file_ok f' a"
      unfolding f'_def using lt(2) le(3) pos(1) by (intro file_advance [OF ok]) simp_all
    moreover have "file_rest f' = drop m (file_rest f)"
      unfolding f'_def using file_rest_advance [of f m] pos(1) by simp
    ultimately have "reads m f a (take m (file_rest f)) f' a"
      using reads_take [OF ok le(3), of f' a 0] False by (simp add: f'_def)
    moreover have "at_block f' (n + 1) 0" if "0 < len - m" "f_offset f' < f_size f'"
    proof -
      have "f_offset f + m < f_size f"
        using that(2) by (simp add: f'_def)
      then have "k + m = f_block_size f"
        using that(1) m pos(2) by linarith
      then show ?thesis
        using False pos file_okD(2) [OF ok] by (simp add: at_block_def f'_def)
    qed
    ultimately show ?thesis
      using step False unfolding f'_def [symmetric] by (intro exI [of _ "n + 1"] exI [of _ f'] exI [of _ a]) auto
  qed
qed

text \<open>The loop ends, and gives as many bytes as were asked for or as there are.\<close>

lemma read_loop_ok:
  assumes "file_ok f a" "f_read_mode f" "0 < len \<Longrightarrow> f_offset f < f_size f \<Longrightarrow> at_block f n k"
  shows "\<exists>s f' a'. read_loop len n k out f a = Some (out @ s, f', a') \<and> reads len f a s f' a'"
  using assms
proof (induction len arbitrary: n k out f a rule: less_induct)
  case (less len)
  show ?case
  proof (cases "0 < len \<and> f_offset f \<noteq> f_size f")
    case False
    then show ?thesis
      using read_loop_stop [OF False] reads_nothing [OF less.prems(1)] by (intro exI [of _ "[]"] exI [of _ f] exI [of _ a]) auto
  next
    case True
    then have lt: "0 < len" "f_offset f < f_size f"
      using file_okD(11) [OF less.prems(1)] by auto
    let ?m = "min (min len (f_block_size f - k)) (f_size f - f_offset f)"
    let ?s = "take ?m (file_rest f)"
    obtain n' f1 a1 where step: "read_loop len n k out f a = read_loop (len - ?m) n' 0 (out @ ?s) f1 a1" "reads ?m f a ?s f1 a1"
        "0 < len - ?m \<Longrightarrow> f_offset f1 < f_size f1 \<Longrightarrow> at_block f1 n' 0"
      using read_step [OF less.prems(1,2) lt less.prems(3) [OF lt] refl] by blast
    have "len - ?m < len" "?m \<le> len" "length ?s = ?m"
      using less.prems(3) [OF lt] lt file_rest_length [OF less.prems(1)] by (auto simp: at_block_def)
    moreover obtain s f' a' where "read_loop (len - ?m) n' 0 (out @ ?s) f1 a1 = Some ((out @ ?s) @ s, f', a')" "reads (len - ?m) f1 a1 s f' a'"
      using less.IH [OF \<open>len - ?m < len\<close> readsD(1) [OF step(2)] _ step(3)] readsD(6) [OF step(2)] less.prems(2) by blast
    ultimately show ?thesis
      using step(1) reads_trans [OF step(2)] by (metis append_assoc)
  qed
qed

lemma file_read_ok:
  assumes ok: "file_ok f a" and mode: "f_is_open f" "f_read_mode f"
  shows "\<exists>s f' a'. file_read len f a = Some (Inr s, f', a') \<and> reads len f a s f' a'"
proof (cases "f_offset f = f_size f")
  case True
  then show ?thesis
    using mode reads_nothing [OF ok] by (auto simp: file_read_def)
next
  case False
  let ?n = "(f_offset f - f_bytes_consumed f) div f_block_size f"
  have lt: "f_offset f < f_size f" "f_bytes_consumed f \<le> f_offset f"
    using False file_okD(11,12) [OF ok] by auto
  have "?n = 0" if "f_reading_from_beginning f"
    using file_okD(14) [OF ok mode(2) that lt(1)] lt(2) by (intro div_less) linarith
  then have "at_block f ?n (f_offset f - f_bytes_consumed f - ?n * f_block_size f)"
    using lt(2) file_okD(2) [OF ok] unfolding at_block_def minus_div_mult_eq_mod by simp
  then show ?thesis
    using read_loop_ok [OF ok mode(2), of len ?n _ "[]"] mode False by (fastforce simp: file_read_def Let_def)
qed

end
