(* ===== verification/Allocated_File_Ops.thy ===== *)
theory Allocated_File_Ops
  imports Allocated_File_Facts
begin

text \<open>
  The other operations of an allocated file: they keep its invariant, and a write changes the bytes at the offset and no others.
\<close>

section \<open>Opening and seeking\<close>

lemma open_no_append: "file_ok f a \<Longrightarrow> f_is_open f \<Longrightarrow> \<not> f_accepts_append f"
  using file_okD(10) by blast

lemma new_file_ok:
  assumes "alloc_ok a"
  shows "file_ok (Allocated_file_new name a c) a \<and> file_bytes (Allocated_file_new name a c) = []"
proof -
  have "0 < m_block_size a"
    using assms by (simp add: alloc_ok_def pages_ok_def)
  then show ?thesis
    using assms by (simp add: file_ok_def Allocated_file_new_def file_bytes_def)
qed

lemma file_at:
  assumes ok: "file_ok f a" and off: "f_bytes_consumed f \<le> off" "off \<le> f_size f" and rfb: "r \<longrightarrow> off < f_bytes_consumed f + f_block_size f"
    and f: "\<not> f_accepts_append f"
  shows "file_ok (f\<lparr>f_offset := off, f_reading_from_beginning := r\<rparr>) a"
  unfolding file_ok_def using file_okD(1-9,13) [OF ok] off rfb f by simp

lemma seek_ok:
  assumes ok: "file_ok f a" and "f_is_open f" and off: "f_bytes_consumed f \<le> min n (f_size f)"
  shows "\<exists>f'. file_seek (int n) f = (Inr (min n (f_size f)), f') \<and> file_ok f' a \<and> file_bytes f' = file_bytes f \<and>
    file_rest f' = drop (min n (f_size f) - f_bytes_consumed f) (file_bytes f) \<and> f_is_open f' \<and> f_read_mode f' = f_read_mode f \<and>
    f_bytes_consumed f' = f_bytes_consumed f \<and> f_size f' = f_size f \<and> f_offset f' = min n (f_size f) \<and> f_blocks f' = f_blocks f \<and>
    (min n (f_size f) = f_bytes_consumed f \<longrightarrow> f_reading_from_beginning f')"
proof -
  let ?n = "min n (f_size f)"
  let ?r = "?n = f_bytes_consumed f \<or> f_consume_if_first f \<and> ?n < f_bytes_consumed f + f_block_size f"
  let ?f = "f\<lparr>f_offset := ?n, f_reading_from_beginning := ?r\<rparr>"
  have "file_seek (int n) f = (Inr ?n, ?f)"
    using assms(2) off by (simp add: file_seek_def file_tell_def Let_def not_less)
  moreover have "file_ok ?f a"
    using file_okD(2,10) [OF ok] assms(2) off by (intro file_at [OF ok]) auto
  ultimately show ?thesis
    using assms(2) by (intro exI [of _ ?f]) (simp add: file_bytes_def file_rest_def)
qed

lemma open_ok:
  assumes ok: "file_ok f a" and "\<not> f_is_open f" and "f_bytes_consumed f = 0"
  shows "\<exists>f'. file_open mode f = (None, f') \<and> file_ok f' a \<and> file_bytes f' = file_bytes f \<and> file_rest f' = file_bytes f \<and>
    f_is_open f' \<and> f_read_mode f' = mode \<and> f_bytes_consumed f' = 0 \<and> f_size f' = f_size f \<and> f_offset f' = 0 \<and>
    f_blocks f' = f_blocks f \<and> f_reading_from_beginning f'"
proof -
  let ?f = "f\<lparr>f_is_open := True, f_read_mode := mode, f_accepts_append := False, f_offset := 0, f_reading_from_beginning := False\<rparr>"
  let ?g = "f\<lparr>f_is_open := True, f_read_mode := mode, f_accepts_append := False\<rparr>"
  have "file_ok ?f a"
    unfolding file_ok_def using file_okD(1-9) [OF ok] assms(3) by simp
  then obtain f' where "file_seek (int 0) ?f = (Inr 0, f')" "file_ok f' a" "file_bytes f' = file_bytes ?f" "file_rest f' = file_bytes ?f"
      "f_is_open f'" "f_read_mode f' = mode" "f_bytes_consumed f' = 0" "f_size f' = f_size f" "f_offset f' = 0" "f_blocks f' = f_blocks f"
      "f_reading_from_beginning f'"
    using seek_ok [of ?f a 0] assms(3) by auto
  moreover have "file_seek (int 0) ?g = file_seek (int 0) ?f"
    using assms(3) by (simp add: file_seek_def file_tell_def Let_def)
  moreover have "file_bytes ?f = file_bytes f"
    by (simp add: file_bytes_def)
  ultimately show ?thesis
    using assms(2,3) by (simp add: file_open_def)
qed

lemma close_ok:
  assumes ok: "file_ok f a" and "f_is_open f"
  shows "\<exists>f'. file_close f = (None, f') \<and> file_ok f' a \<and> file_bytes f' = file_bytes f \<and> \<not> f_is_open f' \<and>
    f_bytes_consumed f' = f_bytes_consumed f \<and> f_size f' = f_size f \<and> f_blocks f' = f_blocks f"
proof -
  have "file_ok (f\<lparr>f_is_open := False\<rparr>) a"
    unfolding file_ok_def using file_okD(1-9,11-14) [OF ok] open_no_append [OF assms] by simp
  then show ?thesis
    using assms(2) by (simp add: file_close_def file_bytes_def)
qed

section \<open>Appending\<close>

lemma append_ok:
  assumes ok: "file_ok f a" and "f_accepts_append f" and b: "b_memory b \<in> used a" "b_memory b \<notin> fst ` set (f_blocks f)"
      "length (b_bytes b) = f_block_size f" "0 < b_size b" "b_size b \<le> f_block_size f"
  shows "\<exists>f'. file_append b f = (None, f') \<and> file_ok f' a \<and> file_bytes f' = file_bytes f @ take (b_size b) (b_bytes b)"
proof -
  let ?f = "f\<lparr>f_blocks := f_blocks f @ [(b_memory b, b_bytes b)], f_size := f_size f + b_size b,
      f_capacity := f_capacity f + f_block_size f, f_accepts_append := b_size b = f_block_size f\<rparr>"
  have f: "f_capacity f = f_size f" "f_bytes_consumed f = 0" "\<not> f_is_open f" "\<not> f_reading_from_beginning f"
    using file_okD(10) [OF ok assms(2)] by simp_all
  then have size: "f_size f = length (bytes_of (f_blocks f))"
    using file_okD(7) [OF ok] bytes_of_length [OF file_okD(6) [OF ok]] by simp
  have "file_ok ?f a"
    unfolding file_ok_def using file_okD(1-8,11) [OF ok] f b by (auto simp: add.commute)
  moreover have "file_bytes ?f = file_bytes f @ take (b_size b) (b_bytes b)"
    using f(2) size by (simp add: file_bytes_def)
  ultimately show ?thesis
    using assms(2) by (simp add: file_append_def)
qed

section \<open>Writing\<close>

lemma put_bytes_length: "k + length s \<le> length x \<Longrightarrow> length (put_bytes k s x) = length x"
  by (simp add: put_bytes_def)

lemma put_bytes_put:
  "k + length s + length s' \<le> length x \<Longrightarrow> put_bytes (k + length s) s' (put_bytes k s x) = put_bytes k (s @ s') x"
  by (simp add: put_bytes_def add.commute add.left_commute)

lemma put_bytes_left: "k + length s \<le> length x \<Longrightarrow> put_bytes k s (x @ y) = put_bytes k s x @ y"
  by (simp add: put_bytes_def)

lemma put_bytes_right: "put_bytes (length x + k) s (x @ y) = x @ put_bytes k s y"
  by (simp add: put_bytes_def)

lemma block_put:
  assumes bs: "blocks_of b bs" and n: "n < length bs" and k: "k + length s \<le> b"
  defines "bs' \<equiv> bs[n := map_prod id (put_bytes k s) (bs ! n)]"
  shows "bytes_of bs' = put_bytes (n * b + k) s (bytes_of bs)" and "blocks_of b bs'" and "map fst bs' = map fst bs"
proof -
  let ?x = "bs ! n"
  have split: "bs = take n bs @ ?x # drop (Suc n) bs"
    using n by (simp add: id_take_nth_drop)
  have bs': "bs' = take n bs @ map_prod id (put_bytes k s) ?x # drop (Suc n) bs"
    using n by (simp add: bs'_def upd_conv_take_nth_drop)
  have parts: "blocks_of b (take n bs)" "length (snd ?x) = b" "blocks_of b (drop (Suc n) bs)"
    using bs split blocks_of_simps(2,3) by metis+
  have "bytes_of bs = bytes_of (take n bs) @ snd ?x @ bytes_of (drop (Suc n) bs)"
    using split bytes_of_simps(2,3) by metis
  moreover have "length (bytes_of (take n bs)) = n * b"
    using bytes_of_length [OF parts(1)] n by simp
  ultimately have "put_bytes (n * b + k) s (bytes_of bs) = bytes_of (take n bs) @ put_bytes k s (snd ?x) @ bytes_of (drop (Suc n) bs)"
    using put_bytes_right [of "bytes_of (take n bs)" k s] put_bytes_left [of k s "snd ?x"] k parts(2) by metis
  then show "bytes_of bs' = put_bytes (n * b + k) s (bytes_of bs)"
    by (simp add: bs')
  show "blocks_of b bs'"
    using parts k by (simp add: bs' put_bytes_length)
  have "map fst bs' = map fst (take n bs @ ?x # drop (Suc n) bs)"
    by (simp add: bs')
  then show "map fst bs' = map fst bs"
    using split by metis
qed

lemma write_loop_ok:
  assumes "blocks_of b bs" and "s \<noteq> [] \<Longrightarrow> k < b" and "n * b + k + length s \<le> length bs * b"
  shows "\<exists>bs'. write_loop b n k s bs = Some bs' \<and> blocks_of b bs' \<and> map fst bs' = map fst bs \<and>
    bytes_of bs' = put_bytes (n * b + k) s (bytes_of bs)"
  using assms
proof (induction "length s" arbitrary: n k s bs rule: less_induct)
  case less
  show ?case
  proof (cases "s = []")
    case True
    then have "write_loop b n k s bs = Some bs"
      by (simp add: write_loop.simps)
    then show ?thesis
      using True less.prems(1) by (simp add: put_bytes_def)
  next
    case False
    define m where "m = min (length s) (b - k)"
    define bs1 where "bs1 = bs[n := map_prod id (put_bytes k (take m s)) (bs ! n)]"
    have m: "0 < m" "m \<le> length s" "k + m \<le> b" and k: "k < b" "m < length s \<Longrightarrow> k + m = b"
      using less.prems(2) [OF False] False by (auto simp: m_def min_def)
    have "n * b < length bs * b"
      using less.prems(3) m by linarith
    then have n: "n < length bs"
      by simp
    have step: "write_loop b n k s bs = write_loop b (n + 1) 0 (drop m s) bs1"
      using False n by (subst write_loop.simps) (simp add: m_def bs1_def Let_def)
    have len: "length (take m s) = m" "length bs1 = length bs"
      using m(2) by (simp_all add: bs1_def)
    then have "k + length (take m s) \<le> b"
      using m(3) by simp
    note put = block_put [OF less.prems(1) n this, folded bs1_def]
    show ?thesis
    proof (cases "m = length s")
      case True
      then have "write_loop b n k s bs = Some bs1"
        using step by (simp add: write_loop.simps)
      then show ?thesis
        using put m True by simp
    next
      case False
      then have full: "(n + 1) * b + 0 = n * b + k + length (take m s)"
        using k(2) m(2) len by simp
      have "\<exists>bs'. write_loop b (n + 1) 0 (drop m s) bs1 = Some bs' \<and> blocks_of b bs' \<and> map fst bs' = map fst bs1 \<and>
          bytes_of bs' = put_bytes ((n + 1) * b + 0) (drop m s) (bytes_of bs1)"
        using m k(1) put(2) len less.prems(3) full by (intro less.hyps) simp_all
      moreover have "put_bytes ((n + 1) * b + 0) (drop m s) (bytes_of bs1) = put_bytes (n * b + k) (take m s @ drop m s) (bytes_of bs)"
        unfolding full put(1)
        using less.prems(3) bytes_of_length [OF less.prems(1)] m(2) by (intro put_bytes_put) simp
      ultimately show ?thesis
        using step put(3) by simp
    qed
  qed
qed

text \<open>The blocks a write needs cover it, and leave less than a block unused.\<close>

lemma block_count_bounds:
  assumes "0 < m_block_size a" and "n + m_block_size a \<le> 2 ^ 64"
  shows "n \<le> block_count n a * m_block_size a" and "block_count n a * m_block_size a < n + m_block_size a"
proof -
  let ?b = "m_block_size a"
  have eq: "block_count n a * ?b + (n + ?b - 1) mod ?b = n + ?b - 1" "(n + ?b - 1) mod ?b < ?b"
    using assms(1) div_mult_mod_eq [of "n + ?b - 1" ?b] unfolding block_count_ceil [OF assms] by simp_all
  then show "n \<le> block_count n a * ?b" "block_count n a * ?b < n + ?b"
    using assms(1) by linarith+
qed

text \<open>The file with room for a write of \<open>n\<close> bytes.\<close>

definition room :: "nat \<Rightarrow> afile \<Rightarrow> nat" where
  "room n f = (if f_capacity f - f_offset f < n then n - (f_capacity f - f_offset f) else 0)"

definition extended :: "(nat \<Rightarrow> string) \<Rightarrow> nat list \<Rightarrow> afile \<Rightarrow> (nat \<times> string) list" where
  "extended junk new f = f_blocks f @ map (\<lambda>b. (b, junk b)) new"

lemma take_put_bytes:
  assumes "k \<le> n" and "n \<le> length x" and "k + length s \<le> length (x @ y)"
  shows "take (max n (k + length s)) (put_bytes k s (x @ y)) = put_bytes k s (take n x)"
  using assms by (auto simp: put_bytes_def max_def min_def drop_take)

lemma written_ok:
  assumes ok: "file_ok f a" and mode: "f_is_open f" "\<not> f_read_mode f"
    and new: "alloc_ok a'" "m_block_size a' = m_block_size a" "distinct new" "set new \<inter> used a = {}" "used a' = used a \<union> set new"
    and junk: "\<And>b. length (junk b) = f_block_size f"
    and cap: "f_offset f + length s \<le> f_capacity f + length new * f_block_size f"
      "f_capacity f + length new * f_block_size f < max (f_size f) (f_offset f + length s) + f_block_size f"
    and bs: "blocks_of (f_block_size f) bs" "map fst bs = map fst (extended junk new f)"
      "bytes_of bs = put_bytes (f_offset f) s (bytes_of (extended junk new f))"
    and f': "f' = f\<lparr>f_capacity := f_capacity f + length new * f_block_size f, f_blocks := bs, f_offset := f_offset f + length s,
      f_size := max (f_size f) (f_offset f + length s)\<rparr>"
  shows "file_ok f' a' \<and> file_bytes f' = put_bytes (f_offset f) s (file_bytes f)"
proof
  have f: "f_bytes_consumed f = 0" "f_offset f \<le> f_size f" "f_size f \<le> f_capacity f"
    using file_okD(8,11,13) [OF ok] mode(2) by auto
  have fst: "map fst bs = map fst (f_blocks f) @ new"
    using bs(2) by (simp add: extended_def comp_def)
  then have "fst ` set bs = fst ` set (f_blocks f) \<union> set new" "length bs = length (f_blocks f) + length new"
    by (metis set_map set_append, metis length_map length_append)
  moreover from this have "fst ` set bs \<subseteq> used a'"
    using file_okD(5) [OF ok] new(5) by auto
  moreover have "distinct (map fst bs)"
    using file_okD(4,5) [OF ok] new(3,4) unfolding fst by auto
  ultimately show "file_ok f' a'"
    unfolding file_ok_def f' using file_okD(2,3,7) [OF ok] open_no_append [OF ok mode(1)] mode(2) f new(1,2) bs(1) cap
    by (simp add: add_mult_distrib)
  have "length (bytes_of (f_blocks f)) = f_capacity f"
    using file_okD(7) [OF ok] bytes_of_length [OF file_okD(6) [OF ok]] f(1) by simp
  moreover have "length (bytes_of (map (\<lambda>b. (b, junk b)) new)) = length new * f_block_size f"
    using junk by (induction new) simp_all
  ultimately show "file_bytes f' = put_bytes (f_offset f) s (file_bytes f)"
    using take_put_bytes [OF f(2), of "bytes_of (f_blocks f)" s "bytes_of (map (\<lambda>b. (b, junk b)) new)"] f cap(1)
    by (simp add: file_bytes_def f' bs(3) extended_def)
qed

lemma room_bounds:
  assumes ok: "file_ok f a" and size: "n + f_block_size f \<le> 2 ^ 64"
    and new: "k = (if f_capacity f - f_offset f < n then block_count (room n f) a else 0)"
  shows "f_offset f + n \<le> f_capacity f + k * f_block_size f"
    and "f_capacity f + k * f_block_size f < max (f_size f) (f_offset f + n) + f_block_size f"
proof -
  have f: "f_offset f \<le> f_size f" "f_size f \<le> f_capacity f" "f_capacity f < f_size f + f_block_size f"
      "m_block_size a = f_block_size f" "0 < f_block_size f"
    using file_okD(2,3,8,9,11) [OF ok] by simp_all
  have "f_offset f + n \<le> f_capacity f + k * f_block_size f \<and>
    f_capacity f + k * f_block_size f < max (f_size f) (f_offset f + n) + f_block_size f"
  proof (cases "f_capacity f - f_offset f < n")
    case True
    then have room: "f_capacity f + room n f = f_offset f + n" "room n f \<le> n" "k = block_count (room n f) a"
      using f by (simp_all add: room_def new)
    moreover have "room n f \<le> k * f_block_size f" "k * f_block_size f < room n f + f_block_size f"
      using block_count_bounds [of a "room n f"] f(4,5) room size by simp_all
    ultimately show ?thesis
      by (simp add: max_def)
  next
    case False
    then have "k = 0" "f_offset f + n \<le> f_capacity f"
      using f(1,2) unfolding new by (simp, linarith)
    then show ?thesis
      using f by (simp add: max_def)
  qed
  then show "f_offset f + n \<le> f_capacity f + k * f_block_size f"
    "f_capacity f + k * f_block_size f < max (f_size f) (f_offset f + n) + f_block_size f"
    by blast+
qed

text \<open>A write for which there is memory puts its bytes at the offset.\<close>

lemma write_ok:
  assumes ok: "file_ok f a" and mode: "f_is_open f" "\<not> f_read_mode f" and fresh: "fresh_ok fresh a"
    and junk: "\<And>b. length (junk b) = f_block_size f" and size: "length s + f_block_size f \<le> 2 ^ 64"
    and grow: "f_capacity f - f_offset f < length s \<Longrightarrow> fst (grow (block_count (room (length s) f) a) fresh a)"
  shows "\<exists>f' a'. file_write fresh junk s f a = Some (Inr (Some (length s)), f', a') \<and> file_ok f' a' \<and>
    file_bytes f' = put_bytes (f_offset f) s (file_bytes f) \<and> f_offset f' = f_offset f + length s \<and> f_is_open f' \<and> \<not> f_read_mode f' \<and>
    f_bytes_consumed f' = 0 \<and> f_size f' = max (f_size f) (f_offset f + length s) \<and>
    (\<exists>new. map fst (f_blocks f') = map fst (f_blocks f) @ new \<and> set new \<inter> used a = {} \<and> used a' = used a \<union> set new)"
proof -
  let ?b = "f_block_size f" and ?need = "f_capacity f - f_offset f < length s"
  obtain new a' where new: "(if ?need then allocate fresh (length s - (f_capacity f - f_offset f)) a else Some (Some [], a)) = Some (Some new, a')"
      "alloc_ok a'" "m_block_size a' = m_block_size a" "distinct new" "set new \<inter> used a = {}" "used a' = used a \<union> set new"
      "length new = (if ?need then block_count (room (length s) f) a else 0)"
  proof (cases ?need)
    case True
    obtain a1 where "grow (block_count (room (length s) f) a) fresh a = (True, a1)"
      using grow [OF True] by (cases "grow (block_count (room (length s) f) a) fresh a") simp
    then show thesis
      using that True allocate_ok [OF file_okD(1) [OF ok] fresh, of "room (length s) f" a1] by (auto simp: room_def same_params_def)
  next
    case False
    then show thesis
      using that [of "[]" a] file_okD(1) [OF ok] by simp
  qed
  note cap = room_bounds [OF ok size new(7)]
  let ?n = "f_offset f div ?b"
  have ext: "blocks_of ?b (extended junk new f)" "length (extended junk new f) = length (f_blocks f) + length new"
    using file_okD(6) [OF ok] junk by (auto simp: extended_def blocks_of_def)
  have consumed: "f_bytes_consumed f = 0"
    using file_okD(13) [OF ok] mode(2) by blast
  have off: "?n * ?b + (f_offset f - ?n * ?b) = f_offset f" "f_offset f - ?n * ?b < ?b"
    using file_okD(2) [OF ok] by (simp_all add: minus_div_mult_eq_mod)
  then obtain bs where bs: "write_loop ?b ?n (f_offset f - ?n * ?b) s (extended junk new f) = Some bs" "blocks_of ?b bs"
      "map fst bs = map fst (extended junk new f)" "bytes_of bs = put_bytes (f_offset f) s (bytes_of (extended junk new f))"
    using write_loop_ok [OF ext(1), of s "f_offset f - ?n * ?b" ?n] cap(1) file_okD(7) [OF ok] consumed ext(2)
    by (auto simp: add_mult_distrib)
  let ?f = "f\<lparr>f_capacity := f_capacity f + length new * ?b, f_blocks := bs, f_offset := f_offset f + length s,
      f_size := max (f_size f) (f_offset f + length s)\<rparr>"
  have "file_write fresh junk s f a = Some (Inr (Some (length s)), ?f, a')"
    using mode new(1) bs(1) by (simp add: file_write_def extended_def Let_def)
  then show ?thesis
    using written_ok [OF ok mode new(2-6) junk cap bs(2-4) refl] mode new(5,6) consumed bs(3)
    by (intro exI [of _ ?f] exI [of _ a']) (simp add: extended_def comp_def)
qed

section \<open>Reading a whole file\<close>

lemma reads_take_drop:
  assumes "reads len f a s f' a'"
  shows "s = take len (file_rest f) \<and> file_rest f' = drop len (file_rest f)"
proof (cases "len \<le> length (file_rest f)")
  case True
  then show ?thesis
    using readsD(2,3) [OF assms] by (metis append_eq_conv_conj min.absorb1)
next
  case False
  then have "length s = length (file_rest f)"
    using readsD(3) [OF assms] by simp
  then show ?thesis
    using readsD(2) [OF assms] False by simp
qed

text \<open>The blocks of a file that is read to its end go back to the allocator.\<close>

lemma reads_whole:
  assumes r: "reads len f a s f' a'" and f: "f_reading_from_beginning f" "f_offset f < f_size f" "length (file_rest f) \<le> len"
  shows "f_blocks f' = [] \<and> used a' = used a - set (map fst (f_blocks f))"
proof
  have "f_offset f' = f_size f'"
    using file_rest_length [OF readsD(1) [OF r]] reads_take_drop [OF r] f(3) file_okD(11) [OF readsD(1) [OF r]] by simp
  then show blocks: "f_blocks f' = []"
    using readsD(9) [OF r f(1,2)] by simp
  obtain j where j: "f_blocks f' = drop j (f_blocks f)" "used a' = used a - fst ` set (take j (f_blocks f))"
    using readsD(8) [OF r] by blast
  then have "take j (f_blocks f) = f_blocks f"
    using blocks by simp
  then show "used a' = used a - set (map fst (f_blocks f))"
    using j(2) by simp
qed

text \<open>A new file with one write.\<close>

lemma new_written:
  assumes "alloc_ok a" and "fresh_ok fresh a" and "\<forall>b. length (junk b) = m_block_size a" and "length s + m_block_size a \<le> 2 ^ 64"
    and "fst (grow (block_count (length s) a) fresh a)"
  shows "\<exists>f1 f2 a2 f3. file_open False (Allocated_file_new name a c) = (None, f1) \<and>
    file_write fresh junk s f1 a = Some (Inr (Some (length s)), f2, a2) \<and> file_close f2 = (None, f3) \<and> file_ok f3 a2 \<and>
    file_bytes f3 = s \<and> \<not> f_is_open f3 \<and> f_bytes_consumed f3 = 0 \<and> f_size f3 = length s \<and>
    set (map fst (f_blocks f3)) \<inter> used a = {} \<and> used a2 = used a \<union> set (map fst (f_blocks f3))"
proof -
  let ?f = "Allocated_file_new name a c"
  have new: "file_ok ?f a" "file_bytes ?f = []" "\<not> f_is_open ?f" "f_bytes_consumed ?f = 0" "f_blocks ?f = []" "f_size ?f = 0"
    using new_file_ok [OF assms(1), of name c] by (simp_all add: Allocated_file_new_def)
  obtain f1 where f1: "file_open False ?f = (None, f1)" "file_ok f1 a" "file_bytes f1 = []" "f_is_open f1" "\<not> f_read_mode f1"
      "f_offset f1 = 0" "f_blocks f1 = []" "f_size f1 = 0" "f_bytes_consumed f1 = 0"
    using open_ok [OF new(1,3,4), of False] new by auto
  have sizes: "f_capacity f1 = 0" "f_block_size f1 = m_block_size a" "room (length s) f1 = length s"
    using file_okD(3,7) [OF f1(2)] f1(6,7,9) by (simp_all add: room_def)
  obtain f2 a2 new where f2: "file_write fresh junk s f1 a = Some (Inr (Some (length s)), f2, a2)" "file_ok f2 a2" "file_bytes f2 = s"
      "f_is_open f2" "f_bytes_consumed f2 = 0" "f_size f2 = length s" "map fst (f_blocks f2) = new" "set new \<inter> used a = {}"
      "used a2 = used a \<union> set new"
    using write_ok [OF f1(2,4,5) assms(2), of junk s] assms(3-5) sizes f1(3,6-8) by (auto simp: put_bytes_def)
  obtain f3 where f3: "file_close f2 = (None, f3)" "file_ok f3 a2" "file_bytes f3 = s" "\<not> f_is_open f3" "f_bytes_consumed f3 = 0"
      "f_size f3 = length s" "f_blocks f3 = f_blocks f2"
    using close_ok [OF f2(2,4)] f2(3,5,6) by auto
  show ?thesis
    using f1(1) f2(1,7-9) f3 by (intro exI [of _ f1] exI [of _ f2] exI [of _ a2] exI [of _ f3]) simp
qed

section \<open>Properties\<close>

text \<open>
  C24. A write to a file that is open for writing never fails an assertion of the allocator and ends. When there is memory for
  the blocks it needs, it puts its bytes at the current offset and changes no other byte, advances the offset and extends the
  file if it ends behind its size; the invariant of the file is kept, and the only blocks that are taken are its own new ones.
  Otherwise \<^verbatim>\<open>std::bad_alloc\<close> leaves the file as it was.
\<close>

theorem allocated_file_write:
  assumes "file_ok f a" and "f_is_open f" and "\<not> f_read_mode f" and "fresh_ok fresh a"
    and "\<forall>b. length (junk b) = f_block_size f" and "length s + f_block_size f \<le> 2 ^ 64"
  shows "\<exists>r f' a'. file_write fresh junk s f a = Some (Inr r, f', a') \<and>
    (if f_capacity f - f_offset f < length s \<and> \<not> fst (grow (block_count (room (length s) f) a) fresh a) then r = None \<and> f' = f
     else r = Some (length s) \<and> file_ok f' a' \<and>
       file_bytes f' = take (f_offset f) (file_bytes f) @ s @ drop (f_offset f + length s) (file_bytes f) \<and>
       f_offset f' = f_offset f + length s \<and> f_size f' = max (f_size f) (f_offset f + length s) \<and>
       (\<exists>new. map fst (f_blocks f') = map fst (f_blocks f) @ new \<and> set new \<inter> used a = {} \<and> used a' = used a \<union> set new))"
proof (cases "f_capacity f - f_offset f < length s \<and> \<not> fst (grow (block_count (room (length s) f) a) fresh a)")
  case True
  then obtain a1 where "allocate fresh (room (length s) f) a = Some (None, a1)"
    by (cases "grow (block_count (room (length s) f) a) fresh a") (simp add: allocate_def)
  then have "file_write fresh junk s f a = Some (Inr None, f, a1)"
    using assms(2,3) True by (simp add: file_write_def room_def)
  then show ?thesis
    using True by simp
next
  case False
  then show ?thesis
    using write_ok [OF assms(1-4) _ assms(6), of junk] assms(5) unfolding put_bytes_def by auto
qed

text \<open>An allocator with two blocks of four bytes.\<close>

lemma small_allocator: "\<exists>a. Allocator_new 0 8 4 = Inr a \<and> m_block_size a = 4 \<and> fst (grow (block_count 6 a) [] a)"
  by (simp add: Allocator_new_def add_page_def insert_page_def Page_new_def block_count_def)

theorem allocated_file_write_witness:
  "\<exists>a f f' a'. Allocator_new 0 8 4 = Inr a \<and> file_open False (Allocated_file_new ''f'' a False) = (None, f) \<and>
    file_write [] (\<lambda>b. ''....'') ''abcdef'' f a = Some (Inr (Some 6), f', a') \<and> file_bytes f' = ''abcdef'' \<and> f_size f' = 6"
proof -
  obtain a where a: "Allocator_new 0 8 4 = Inr a" "m_block_size a = 4" "fst (grow (block_count 6 a) [] a)"
    using small_allocator by blast
  note new = new_file_ok [of a "''f''" False]
  obtain f where f: "file_open False (Allocated_file_new ''f'' a False) = (None, f)" "file_ok f a" "file_bytes f = []" "f_is_open f"
      "\<not> f_read_mode f" "f_offset f = 0" "f_size f = 0" "f_blocks f = []" "f_bytes_consumed f = 0"
    using open_ok [of "Allocated_file_new ''f'' a False" a False] new Allocator_new_ok [OF a(1)] by (auto simp: Allocated_file_new_def)
  have len: "length ''abcdef'' = 6" and block: "f_block_size f = 4" "f_capacity f = 0" "room 6 f = 6"
    using file_okD(3,7) [OF f(2)] f(6-9) a(2) by (auto simp: room_def)
  show ?thesis
    using allocated_file_write [OF f(2,4,5), of "[]" "\<lambda>b. ''....''" "''abcdef''", unfolded len] a f block by auto
qed

text \<open>
  C23. What is written to a new file is read from its start when it is closed and opened again, in the order it was written; a read
  gives as many bytes as it is asked for or as there are, and once all of them have been read every block of the file has been
  returned to the allocator.
\<close>

theorem allocated_file_roundtrip:
  assumes "alloc_ok a" and "fresh_ok fresh a" and "\<forall>b. length (junk b) = m_block_size a" and "length s + m_block_size a \<le> 2 ^ 64"
    and "fst (grow (block_count (length s) a) fresh a)" and "s \<noteq> []"
  shows "\<exists>f1 f2 a2 f3 f4 f5 a5. file_open False (Allocated_file_new name a c) = (None, f1) \<and>
    file_write fresh junk s f1 a = Some (Inr (Some (length s)), f2, a2) \<and> file_close f2 = (None, f3) \<and> file_open True f3 = (None, f4) \<and>
    file_read len f4 a2 = Some (Inr (take len s), f5, a5) \<and> file_ok f5 a5 \<and> file_rest f5 = drop len s \<and>
    (length s \<le> len \<longrightarrow> f_blocks f5 = [] \<and> used a5 = used a)"
proof -
  obtain f1 f2 a2 f3 where f3: "file_open False (Allocated_file_new name a c) = (None, f1)"
      "file_write fresh junk s f1 a = Some (Inr (Some (length s)), f2, a2)" "file_close f2 = (None, f3)" "file_ok f3 a2" "file_bytes f3 = s"
      "\<not> f_is_open f3" "f_bytes_consumed f3 = 0" "f_size f3 = length s"
      "set (map fst (f_blocks f3)) \<inter> used a = {}" "used a2 = used a \<union> set (map fst (f_blocks f3))"
    using new_written [OF assms(1-5), of name c] by blast
  obtain f4 where f4: "file_open True f3 = (None, f4)" "file_ok f4 a2" "file_rest f4 = s" "f_is_open f4" "f_read_mode f4"
      "f_size f4 = length s" "f_offset f4 = 0" "f_blocks f4 = f_blocks f3" "f_reading_from_beginning f4"
    using open_ok [OF f3(4,6,7), of True] f3(5,8) by auto
  obtain r f5 a5 where f5: "file_read len f4 a2 = Some (Inr r, f5, a5)" "reads len f4 a2 r f5 a5"
    using file_read_ok [OF f4(2,4,5)] by blast
  have "f_blocks f5 = [] \<and> used a5 = used a" if "length s \<le> len"
    using reads_whole [OF f5(2) f4(9)] f4(3,6-8) f3(9,10) assms(6) that by auto
  moreover have "r = take len s" "file_rest f5 = drop len s"
    using reads_take_drop [OF f5(2)] f4(3) by simp_all
  ultimately show ?thesis
    using f3(1-3) f4(1) f5(1) readsD(1) [OF f5(2)] by blast
qed

theorem allocated_file_roundtrip_witness:
  "\<exists>a f1 f2 a2 f3 f4 f5 a5. Allocator_new 0 8 4 = Inr a \<and> file_open False (Allocated_file_new ''f'' a False) = (None, f1) \<and>
    file_write [] (\<lambda>b. ''....'') ''abcdef'' f1 a = Some (Inr (Some 6), f2, a2) \<and> file_close f2 = (None, f3) \<and>
    file_open True f3 = (None, f4) \<and> file_read 8 f4 a2 = Some (Inr ''abcdef'', f5, a5) \<and> used a5 = {}"
proof -
  obtain a where a: "Allocator_new 0 8 4 = Inr a" "m_block_size a = 4" "fst (grow (block_count 6 a) [] a)"
    using small_allocator by blast
  have len: "length ''abcdef'' = 6"
    by simp
  show ?thesis
    using Allocator_new_ok [OF a(1)] a allocated_file_roundtrip [of a "[]" "\<lambda>b. ''....''" "''abcdef''" "''f''" False 8, unfolded len] by auto
qed

end
