(* ===== verification/Import_Memory.thy ===== *)
theory Import_Memory
  imports Import_Transactions_Rows Allocated_File_Ops
begin

text \<open>
  The import of a file that is kept in memory: the operations of \<open>Allocated_file\<close> are those a \<open>Transaction_buffer\<close> calls, they do what it
  relies on, and the properties of the transactions hold for its data.
\<close>

section \<open>Definitions\<close>

text \<open>
  \<open>Virtual_file\<close> of \<^verbatim>\<open>virtual_file.cc\<close> over an allocated file of which it is the only user, with the allocator of the file. A failed
  assertion ends the process; here it is a failed read, which the invariant excludes. Only synchronized files have pending writes.
\<close>

definition seek_memory :: "int \<Rightarrow> afile \<times> allocator \<Rightarrow> exn option \<times> afile \<times> allocator" where
  "seek_memory offset fa =
     (case file_seek offset (fst fa) of
        (Inl e, f') \<Rightarrow> (Some e, f', snd fa)
      | (Inr _, f') \<Rightarrow> (None, f', snd fa))"

definition read_memory :: "nat \<Rightarrow> afile \<times> allocator \<Rightarrow> io \<times> afile \<times> allocator" where
  "read_memory len fa =
     (case file_read len (fst fa) (snd fa) of
        None \<Rightarrow> (Failed, fa)
      | Some (Inl e, f', a') \<Rightarrow> (Raised e, f', a')
      | Some (Inr s, f', a') \<Rightarrow> (Bytes s, f', a'))"

definition memory_ops :: "(afile \<times> allocator) file_ops" where
  "memory_ops =
     \<lparr>io_is_open = f_is_open \<circ> fst, io_open = (\<lambda>fa. case file_open True (fst fa) of (e, f') \<Rightarrow> (e, f', snd fa)),
      io_seek = seek_memory, io_read = read_memory, io_pending = (\<lambda>_. Inl (Logic_error ''Fast sub-chunking is only possible with synchronized I/O''))\<rparr>"

section \<open>The file\<close>

definition memory_rest :: "afile \<times> allocator \<Rightarrow> string" where
  "memory_rest fa = file_rest (fst fa)"

definition memory_ok :: "afile \<times> allocator \<Rightarrow> bool" where
  "memory_ok fa \<longleftrightarrow> file_ok (fst fa) (snd fa) \<and> f_is_open (fst fa) \<and> f_read_mode (fst fa)"

lemma read_memory_ok:
  assumes "memory_ok fa"
  shows "\<exists>s fa'. read_memory n fa = (Bytes s, fa') \<and> memory_ok fa' \<and> memory_rest fa = s @ memory_rest fa' \<and> length s \<le> n \<and>
    (s = [] \<longrightarrow> n = 0 \<or> memory_rest fa = [])"
proof -
  have fa: "file_ok (fst fa) (snd fa)" "f_is_open (fst fa)" "f_read_mode (fst fa)"
    using assms by (simp_all add: memory_ok_def)
  obtain s f' a' where read: "file_read n (fst fa) (snd fa) = Some (Inr s, f', a')" "reads n (fst fa) (snd fa) s f' a'"
    using file_read_ok [OF fa] by blast
  then show ?thesis
    using readsD(1-3,5,6) [OF read(2)] fa by (auto simp: read_memory_def memory_ok_def memory_rest_def min_def split: if_splits)
qed

interpretation memory: reader memory_ops memory_rest memory_ok
proof
  fix n and f :: "afile \<times> allocator"
  assume "memory_ok f"
  then show "\<exists>s f'. io_read memory_ops n f = (Bytes s, f') \<and> memory_ok f' \<and> memory_rest f = s @ memory_rest f' \<and> length s \<le> n \<and>
      (s = [] \<longrightarrow> n = 0 \<or> memory_rest f = [])"
    using read_memory_ok [of f n] by (simp add: memory_ops_def)
qed

text \<open>A new buffer is at the position it is told to start from.\<close>

lemma new_buffer:
  assumes "lines_terminated_by d \<noteq> []" "fields_terminated_by d \<noteq> lines_terminated_by d" "0 < mx"
    and "(if io_is_open ops f then (None, f) else io_open ops f) = (None, f')" "skip_start ops skip f' = Some (None, skip', f'')" "ok f''"
  shows "\<exists>t. Transaction_buffer_new ops d f mx skip = Some (Inr t) \<and> buf_ok rest ok t \<and> t_size t = 0 \<and> t_end t = 0 \<and> \<not> t_partial t \<and>
    unsent rest t = rest f'' \<and> t_max t = mx \<and> t_dialect t = d \<and> t_impl t = choose_impl d"
  using assms by (simp add: Transaction_buffer_new_def buf_ok_def unsent_def choose_impl_def)

lemma new_range_buffer:
  assumes "(if io_is_open ops f then (None, f) else io_open ops f) = (None, f')" "skip_start ops skip f' = Some (None, skip', f'')"
  shows "\<exists>t. Transaction_buffer_new ops d f 0 skip = Some (Inr t) \<and> t_max t = 0 \<and> t_file t = f''"
  using assms by (simp add: Transaction_buffer_new_def)

lemma to_off64_int: "n < 2 ^ 63 \<Longrightarrow> to_off64 n = int n"
  by (simp add: to_off64_def Let_def)

lemma memory_start:
  assumes ok: "file_ok f a" and "\<not> f_is_open f" "f_bytes_consumed f = 0" and skip: "skip < 2 ^ 63"
  shows "\<exists>fa fa' skip'. (if io_is_open memory_ops (f, a) then (None, (f, a)) else io_open memory_ops (f, a)) = (None, fa) \<and>
    skip_start memory_ops skip fa = Some (None, skip', fa') \<and> memory_ok fa' \<and> memory_rest fa' = drop skip (file_bytes f)"
proof -
  obtain f1 where f1: "file_open True f = (None, f1)" "file_ok f1 a" "file_bytes f1 = file_bytes f" "file_rest f1 = file_bytes f"
      "f_is_open f1" "f_read_mode f1" "f_bytes_consumed f1 = 0" "f_size f1 = f_size f"
    using open_ok [OF assms(1-3), of True] by auto
  obtain f2 where f2: "file_seek (int skip) f1 = (Inr (min skip (f_size f)), f2)" "file_ok f2 a"
      "file_rest f2 = drop (min skip (f_size f)) (file_bytes f)" "f_is_open f2" "f_read_mode f2"
    using seek_ok [OF f1(2,5), of skip] f1(3,6-8) by auto
  have "drop (min skip (f_size f)) (file_bytes f) = drop skip (file_bytes f)"
    using file_bytes_length [OF ok] assms(3) by (simp add: min_def)
  then show ?thesis
    using f1 f2 assms(2) to_off64_int [OF skip]
    by (cases "skip = 0") (auto simp: memory_ops_def seek_memory_def skip_start_def memory_ok_def memory_rest_def)
qed

text \<open>A read of a file in memory gives all the bytes it can.\<close>

lemma io_read_memory:
  assumes "memory_ok fa"
  shows "\<exists>fa'. io_read memory_ops n fa = (Bytes (take n (memory_rest fa)), fa') \<and> memory_ok fa' \<and> memory_rest fa' = drop n (memory_rest fa)"
proof -
  have fa: "file_ok (fst fa) (snd fa)" "f_is_open (fst fa)" "f_read_mode (fst fa)"
    using assms by (simp_all add: memory_ok_def)
  obtain s f' a' where read: "file_read n (fst fa) (snd fa) = Some (Inr s, f', a')" "reads n (fst fa) (snd fa) s f' a'"
    using file_read_ok [OF fa] by blast
  then show ?thesis
    using readsD(1,5,6) [OF read(2)] reads_take_drop [OF read(2)] fa by (simp add: memory_ops_def read_memory_def memory_ok_def memory_rest_def)
qed

text \<open>There is a file with any bytes.\<close>

lemma stored_file:
  assumes "s \<noteq> []" and "2 * length s \<le> 2 ^ 64"
  shows "\<exists>f a. file_ok f a \<and> \<not> f_is_open f \<and> f_bytes_consumed f = 0 \<and> file_bytes f = s"
proof -
  let ?n = "length s"
  have n: "0 < ?n"
    using assms(1) by simp
  have "(?n + ?n - 1) div ?n = 1"
    using n by (intro div_nat_eqI) simp_all
  then have "\<exists>a. Allocator_new 0 ?n ?n = Inr a \<and> m_block_size a = ?n \<and> fst (grow (block_count ?n a) [] a)"
    using n assms(2) by (simp add: Allocator_new_def add_page_def insert_page_def Page_new_def block_count_def)
  then obtain a where a: "Allocator_new 0 ?n ?n = Inr a" "m_block_size a = ?n" "fst (grow (block_count ?n a) [] a)"
    by blast
  have "\<forall>b :: nat. length s = m_block_size a" "length s + m_block_size a \<le> 2 ^ 64" "fresh_ok [] a" "alloc_ok a"
    using a(2) assms(2) Allocator_new_ok [OF a(1)] by simp_all
  then show ?thesis
    using new_written [of a "[]" "\<lambda>b. s" s "''f''" False] a(3) by blast
qed

lemma stored_open:
  assumes "s \<noteq> []" and "2 * length s \<le> 2 ^ 64"
  shows "\<exists>fa. memory_ok fa \<and> memory_rest fa = s"
proof -
  obtain f a where f: "file_ok f a" "\<not> f_is_open f" "f_bytes_consumed f = 0" "file_bytes f = s"
    using stored_file [OF assms] by blast
  then show ?thesis
    using open_ok [OF f(1-3), of True] by (auto simp: memory_ok_def memory_rest_def)
qed

section \<open>Whole files\<close>

context reader
begin

lemma load_file_ok:
  assumes d: "lines_terminated_by d = [c]" "fields_terminated_by d \<noteq> [c]" "0 < mx" "mx < 2 ^ 32"
    and client: "fetches len client" "0 < len" "len < 2 ^ 31"
    and start: "(if io_is_open ops f then (None, f) else io_open ops f) = (None, f')" "skip_start ops skip f' = Some (None, skip', f'')" "ok f''"
    and keeps: "\<And>t. t_max t = mx \<Longrightarrow> t_dialect t = d \<Longrightarrow> t_impl t = choose_impl d \<Longrightarrow>
      trx_keeps ops rest ok len t (J t) (\<lambda>S u. Q S (unsent rest u))"
  shows "\<exists>ts. load_file ops client d mx \<lparr>r_range_read = False, r_range = (skip, n)\<rparr> f = Some (Some ts) \<and> concat ts = rest f'' \<and>
    (\<forall>as a bs. ts = as @ a # bs \<longrightarrow> Q a (concat bs))"
proof -
  have lines: "lines_terminated_by d \<noteq> []" "fields_terminated_by d \<noteq> lines_terminated_by d"
    using d(1,2) by simp_all
  obtain t where t: "Transaction_buffer_new ops d f mx skip = Some (Inr t)" "buf_ok rest ok t" "t_size t = 0" "t_end t = 0" "\<not> t_partial t"
      "unsent rest t = rest f''" "t_max t = mx" "t_dialect t = d" "t_impl t = choose_impl d"
    using new_buffer [where ok = ok and rest = rest, OF lines d(3) start] by blast
  let ?fi = "\<lparr>fi_range_read = False, fi_bytes_left = 0, fi_data_bytes = 0, fi_buffer = t, fi_last_error = None\<rparr>"
  have "\<exists>ts fi'. load_transactions ops client [] ?fi = Some (Some ([] @ ts), fi') \<and> concat ts = unsent rest (fi_buffer ?fi) \<and>
      (\<forall>as a bs. ts = as @ a # bs \<longrightarrow> Q a (concat bs))"
    using t d client by (intro load_transactions_ok [OF _ _ _ client(1) _ _ _ _ _ _ _ keeps [OF t(7-9)]]) simp_all
  then show ?thesis
    using t(1,6) by (auto simp: load_file_def)
qed

end

text \<open>A client library that does what is documented.\<close>

partial_function (option) loop_client :: "nat \<Rightarrow> 'i infile_client" where
  "loop_client len read i =
     (case read len i of
        None \<Rightarrow> None
      | Some (Bytes s, i') \<Rightarrow> if s = [] then Some (Some [], i') else Option.bind (loop_client len read i') (\<lambda>(out, i''). Some (map_option ((@) s) out, i''))
      | Some (_, i') \<Rightarrow> Some (None, i'))"

lemma loop_client_fetches [simp]: "fetches len (loop_client len)"
  unfolding fetches_def by (rule allI)+ (rule loop_client.simps)

section \<open>Properties\<close>

text \<open>
  C6. For every file whose reads deliver its bytes in order, every client library that calls the handlers as documented with a buffer
  of less than two gigabytes, every dialect in which a line is terminated by one character and a field by something else, and every
  maximal size of a transaction from one byte to less than four gigabytes, the worker ends: the transactions it sends to the server are, one
  after another, exactly the bytes of the file. Nothing is lost, sent twice or reordered at the limits of reads and transactions, and no
  assertion of the callback fails.
\<close>

theorem load_file_complete:
  assumes "reader ops rest ok" and "ok f" and "io_is_open ops f"
    and "lines_terminated_by d = [c]" and "fields_terminated_by d \<noteq> [c]" and "0 < mx" and "mx < 2 ^ 32"
    and "fetches len client" and "0 < len" and "len < 2 ^ 31"
  shows "\<exists>ts. load_file ops client d mx \<lparr>r_range_read = False, r_range = (0, n)\<rparr> f = Some (Some ts) \<and> concat ts = rest f"
proof -
  have "(if io_is_open ops f then (None, f) else io_open ops f) = (None, f)" "skip_start ops 0 f = Some (None, 0, f)"
    using assms(3) by (simp_all add: skip_start_def)
  then show ?thesis
    using reader.load_file_ok [where J = "\<lambda>_ _ _. True" and Q = "\<lambda>_ _. True", OF assms(1,4-10) _ _ assms(2)]
      reader.keeps_nothing [OF assms(1), of len] by blast
qed

theorem load_file_complete_witness:
  "\<exists>fa ts. load_file memory_ops (loop_client 3) dialect_csv_unix 4 \<lparr>r_range_read = False, r_range = (0, 0)\<rparr> fa = Some (Some ts) \<and>
    concat ts = ''a,b'' @ [newline] @ ''cd''"
proof -
  obtain fa where fa: "memory_ok fa" "memory_rest fa = ''a,b'' @ [newline] @ ''cd''"
    using stored_open [of "''a,b'' @ [newline] @ ''cd''"] by auto
  have "io_is_open memory_ops fa"
    using fa(1) by (simp add: memory_ops_def memory_ok_def)
  then show ?thesis
    using load_file_complete [OF memory.reader_axioms fa(1), of dialect_csv_unix newline 4 3 "loop_client 3" 0] fa(2)
    by (intro exI [of _ fa]) (auto simp: dialect_csv_unix_def)
qed

text \<open>
  C7. A file in memory that is loaded in a dialect with one character at the ends of lines and without escapes, or in the default
  dialect, from any byte on below the limit of file offsets, by a client library that calls the handlers as documented with a buffer
  of at least two bytes and less than two gigabytes, in transactions of less than four gigabytes: its transactions are
  the bytes from there on in order, each of them but the last ends with a line, and none is larger than the maximal size unless it is a
  single line.
\<close>

theorem load_memory_lines:
  assumes "file_ok f a" and "\<not> f_is_open f" and "f_bytes_consumed f = 0" and "skip < 2 ^ 63"
    and "lines_terminated_by d = [c]" and "fields_terminated_by d \<noteq> [c]" and "dialect_eq d dialect_default \<or> fields_escaped_by d = []"
    and "0 < mx" and "mx < 2 ^ 32" and "fetches len client" and "2 \<le> len" and "len < 2 ^ 31"
  shows "\<exists>ts. load_file memory_ops client d mx \<lparr>r_range_read = False, r_range = (skip, n)\<rparr> (f, a) = Some (Some ts) \<and>
    concat ts = drop skip (file_bytes f) \<and>
    (\<forall>as t bs. ts = as @ t # bs \<longrightarrow> (concat bs \<noteq> [] \<longrightarrow> t = [] \<or> last t = c) \<and> (length t \<le> mx \<or> c \<notin> set (butlast t)))"
proof -
  obtain fa fa' skip' where start: "(if io_is_open memory_ops (f, a) then (None, (f, a)) else io_open memory_ops (f, a)) = (None, fa)"
      "skip_start memory_ops skip fa = Some (None, skip', fa')" "memory_ok fa'" "memory_rest fa' = drop skip (file_bytes f)"
    using memory_start [OF assms(1-4)] by blast
  have plain: "plain_buffer c t" if "t_dialect t = d" "t_impl t = choose_impl d" for t :: "(afile \<times> allocator) trx"
    using that assms(5-7) by (auto simp: plain_buffer_def choose_impl_def)
  have size: "0 < len" "len < 2 ^ 32"
    using assms(11,12) by simp_all
  have "\<exists>ts. load_file memory_ops client d mx \<lparr>r_range_read = False, r_range = (skip, n)\<rparr> (f, a) = Some (Some ts) \<and>
      concat ts = memory_rest fa' \<and> (\<forall>as t bs. ts = as @ t # bs \<longrightarrow> trx_lines c mx t (concat bs))"
  proof (rule memory.load_file_ok [where J = "\<lambda>t S u. same_buf t u \<and> lines_inv memory_rest c S u",
        OF assms(5,6,8-10) size(1) assms(12) start(1-3)])
    fix t :: "(afile \<times> allocator) trx"
    assume "t_max t = mx" "t_dialect t = d" "t_impl t = choose_impl d"
    then show "trx_keeps memory_ops memory_rest memory_ok len t (\<lambda>S u. same_buf t u \<and> lines_inv memory_rest c S u)
        (\<lambda>S u. trx_lines c mx S (unsent memory_rest u))"
      using memory.keeps_lines [OF plain assms(11) size(2), of t] assms(9) by simp
  qed
  then show ?thesis
    unfolding start(4) trx_lines_def .
qed

theorem load_memory_lines_witness:
  "\<exists>fa ts. load_file memory_ops (loop_client 2) dialect_default 4 \<lparr>r_range_read = False, r_range = (2, 0)\<rparr> fa = Some (Some ts) \<and>
    concat ts = ''bc'' @ [newline] @ ''d''"
proof -
  obtain f a where f: "file_ok f a" "\<not> f_is_open f" "f_bytes_consumed f = 0" "file_bytes f = ''a'' @ [newline] @ ''bc'' @ [newline] @ ''d''"
    using stored_file [of "''a'' @ [newline] @ ''bc'' @ [newline] @ ''d''"] by auto
  then show ?thesis
    using load_memory_lines [OF f(1-3), of 2 dialect_default newline 4 2 "loop_client 2" 0]
    by (intro exI [of _ "(f, a)"]) (auto simp: dialect_default_def dialect_eq_def)
qed

text \<open>
  C27. A chunk of a file in memory that has not been opened is sent in a single transaction that holds exactly the bytes of its range, in
  every dialect, whatever the maximal size of a transaction, and for every client library that calls the handlers as documented. The range begins
  below the limit of file offsets. So the chunks into which a file has been divided give its bytes back.
\<close>

theorem load_memory_range:
  assumes "file_ok f a" and "\<not> f_is_open f" and "f_bytes_consumed f = 0"
    and "lo \<le> hi" and "lo < 2 ^ 63" and "hi < 2 ^ 64" and "fetches len client" and "0 < len" and "len < 2 ^ 31"
  shows "load_file memory_ops client d mx \<lparr>r_range_read = True, r_range = (lo, hi)\<rparr> (f, a) =
    Some (Some [take (hi - lo) (drop lo (file_bytes f))])"
proof -
  obtain fa fa' skip' where start: "(if io_is_open memory_ops (f, a) then (None, (f, a)) else io_open memory_ops (f, a)) = (None, fa)"
      "skip_start memory_ops lo fa = Some (None, skip', fa')" "memory_ok fa'" "memory_rest fa' = drop lo (file_bytes f)"
    using memory_start [OF assms(1-3,5)] by blast
  obtain t where t: "Transaction_buffer_new memory_ops d (f, a) 0 lo = Some (Inr t)" "t_max t = 0" "t_file t = fa'"
    using new_range_buffer [OF start(1,2)] by blast
  let ?left = "nat ((int hi - int lo) mod 2 ^ 64)"
  let ?fi = "\<lparr>fi_range_read = True, fi_bytes_left = ?left, fi_data_bytes = 0, fi_buffer = t, fi_last_error = None\<rparr>"
  have "(int hi - int lo) mod 2 ^ 64 = int (hi - lo)"
    using assms(4,6) by (simp add: of_nat_diff)
  then have left: "?left = hi - lo"
    by simp
  obtain fi' where "load_transactions memory_ops client [] ?fi = Some (Some [take (hi - lo) (drop lo (file_bytes f))], fi')"
    using memory.load_range_ok [OF assms(7,8), of ?fi] t start(3,4) left by auto
  then show ?thesis
    using t(1) by (simp add: load_file_def)
qed

theorem load_memory_range_witness:
  "\<exists>fa. load_file memory_ops (loop_client 2) dialect_csv 4 \<lparr>r_range_read = True, r_range = (1, 4)\<rparr> fa = Some (Some [''bcd''])"
proof -
  obtain f a where f: "file_ok f a" "\<not> f_is_open f" "f_bytes_consumed f = 0" "file_bytes f = ''abcdef''"
    using stored_file [of "''abcdef''"] by auto
  then show ?thesis
    using load_memory_range [OF f(1-3), of 1 4 2 "loop_client 2" dialect_csv 4] by auto
qed

section \<open>Ends of rows that are missed\<close>

lemmas pass_defs = buffer_read_def trx_read.simps trx_pass_def read_more_def fill_check_def send_full_def send_part_def send_def
  consume_def set_trx_end_offset_def trx_bytes_left_def find_first_row_boundary_after_def find_last_row_boundary_before_def

lemma csv_boundaries:
  "last_escape dialect_csv 4 [CHR 0x0D, newline, CHR ''a'', CHR ''a''] = Some 2"
  "last_escape dialect_csv 4 [CHR ''a'', CHR ''a'', CHR ''a'', CHR 0x0D, newline] = Some 5"
  "choose_impl dialect_csv = Some Impl_escape"
  by code_simp+

text \<open>
  C26. With a terminator of more than one character a read can give more than it is asked for: of a CSV file with the lines
  \<^verbatim>\<open>""\<close> and \<^verbatim>\<open>"aaa"\<close> the second read of four bytes delivers five, and writes behind the buffer of the client.
\<close>

theorem buffer_read_overflows:
  assumes "memory_ok fa" and "memory_rest fa = [CHR 0x0D, newline] @ ''aaa'' @ [CHR 0x0D, newline]"
  shows "\<exists>t t1 t2. Transaction_buffer_new memory_ops dialect_csv fa 20 0 = Some (Inr t) \<and>
    buffer_read memory_ops 4 t = Some (Bytes [CHR 0x0D, newline], t1) \<and>
    buffer_read memory_ops 4 t1 = Some (Bytes (''aaa'' @ [CHR 0x0D, newline]), t2)"
proof -
  obtain fa1 where fa1: "io_read memory_ops 4 fa = (Bytes [CHR 0x0D, newline, CHR ''a'', CHR ''a''], fa1)" "memory_ok fa1"
      "memory_rest fa1 = [CHR ''a'', CHR 0x0D, newline]"
    using io_read_memory [OF assms(1), of 4] assms(2) by auto
  obtain fa2 where fa2: "io_read memory_ops 4 fa1 = (Bytes [CHR ''a'', CHR 0x0D, newline], fa2)"
    using io_read_memory [OF fa1(2), of 4] fa1(3) by auto
  have "io_is_open memory_ops fa"
    using assms(1) by (simp add: memory_ops_def memory_ok_def)
  then show ?thesis
    using fa1(1) fa2 by (simp add: Transaction_buffer_new_def skip_start_def pass_defs csv_boundaries)
qed

theorem buffer_read_overflows_witness:
  "\<exists>fa t t1 s t2. Transaction_buffer_new memory_ops dialect_csv fa 20 0 = Some (Inr t) \<and>
    buffer_read memory_ops 4 t = Some (Bytes [CHR 0x0D, newline], t1) \<and> buffer_read memory_ops 4 t1 = Some (Bytes s, t2) \<and> 4 < length s"
proof -
  obtain fa where fa: "memory_ok fa" "memory_rest fa = [CHR 0x0D, newline] @ ''aaa'' @ [CHR 0x0D, newline]"
    using stored_open [of "[CHR 0x0D, newline] @ ''aaa'' @ [CHR 0x0D, newline]"] by auto
  have "4 < length (''aaa'' @ [CHR 0x0D, newline])"
    by simp
  then show ?thesis
    using buffer_read_overflows [OF fa] by blast
qed

text \<open>Line ends in a buffer that has none, or begins with one.\<close>

lemma escape_boundaries:
  assumes "lines_terminated_by d = [c]"
  shows "c \<notin> set s \<Longrightarrow> last_escape d n s = Some 0" "c \<notin> set s \<Longrightarrow> first_escape d s = Some 0" "first_escape d (c # s) = Some (Suc 0)"
proof -
  show "last_escape d n s = Some 0" if "c \<notin> set s"
  proof -
    have "rfind_sub s [c] p = None" for p
      using rfind_char_Some [of s c p] that nth_mem by (cases "rfind_sub s [c] p") fastforce+
    then show ?thesis
      using assms by (simp add: last_escape_def last_escape_loop.simps Let_def)
  qed
  have "index_sub [c] s = None" if "c \<notin> set s" for s
    using that by (induction s) auto
  then show "first_escape d s = Some 0" if "c \<notin> set s"
    using that assms by (simp add: first_escape_def find_sub_def first_escape_loop.simps)
  show "first_escape d (c # s) = Some (Suc 0)"
    using assms by (simp add: first_escape_def find_sub_def first_escape_loop.simps is_escaped_def)
qed

text \<open>
  The first two reads of a file whose first line end is escaped, when the escape character is the last byte of the first of them: the
  line end is sent alone and ends the transaction.
\<close>

lemma escaped_reads:
  assumes fa: "memory_ok fa" "memory_rest fa = x @ [e, c] @ y" "c \<notin> set x" "c \<noteq> e" and d: "lines_terminated_by d = [c]"
    and t: "t_file t = fa" "t_dialect t = d" "t_impl t = Some Impl_escape" "t_size t = 0" "t_end t = 0" "\<not> t_partial t" "\<not> t_eof t" "t_data t = []"
      "t_max t = mx" "\<not> o_fast_sub_chunking (t_options t)"
    and size: "len = length x + 1" "0 < mx" "mx \<le> len"
  shows "\<exists>t1 t2. buffer_read memory_ops len t = Some (Bytes (x @ [e]), t1) \<and> \<not> flush_pending t1 \<and>
    buffer_read memory_ops len t1 = Some (Bytes [c], t2) \<and> flush_pending t2 \<and> \<not> t_eof t2 \<and> same_buf t t2 \<and> memory_ok (t_file t2) \<and>
    unsent memory_rest t2 = y"
proof -
  obtain fa1 where fa1: "io_read memory_ops len fa = (Bytes (x @ [e]), fa1)" "memory_ok fa1" "memory_rest fa1 = c # y"
    using io_read_memory [OF fa(1), of len] fa(2) size(1) by auto
  obtain fa2 where fa2: "io_read memory_ops len fa1 = (Bytes (c # take (len - 1) y), fa2)" "memory_ok fa2" "memory_rest fa2 = drop (len - 1) y"
    using io_read_memory [OF fa1(2), of len] fa1(3) size(1) by auto
  have none: "c \<notin> set (x @ [e])"
    using fa(3,4) by simp
  note ends = escape_boundaries(1,2) [OF d none] escape_boundaries(3) [OF d]
  let ?t1 = "t\<lparr>t_file := fa1, t_data := [], t_size := len, t_partial := True, t_oversized := (if mx < len then t_oversized t + 1 else t_oversized t)\<rparr>"
  let ?t2 = "?t1\<lparr>t_file := fa2, t_size := len + 1, t_end := len + 1, t_data := take (len - 1) y\<rparr>"
  have "buffer_read memory_ops len t = Some (Bytes (x @ [e]), ?t1)"
    using fa1(1) size by (simp add: pass_defs ends t)
  moreover have "buffer_read memory_ops len ?t1 = Some (Bytes [c], ?t2)"
    using fa2(1) size by (simp add: pass_defs ends t)
  moreover have "\<not> flush_pending ?t1" "flush_pending ?t2" "same_buf t ?t2" "unsent memory_rest ?t2 = y"
    using fa2(3) size t by (simp_all add: flush_pending_def same_buf_def unsent_def)
  ultimately show ?thesis
    using fa2(2) t(7) by (intro exI [of _ ?t1] exI [of _ ?t2]) simp
qed

text \<open>
  C25. A row is cut at an escaped line end when the escape character is the last byte of a read and the row is not smaller than a
  transaction. In every dialect with one-character line ends and escapes, other than the default one, and for every file in memory that
  begins with \<open>x\<close> without a line end, the escape character as the last byte of the client's first buffer, and a line end: the first transaction ends
  behind that escaped line end, and the rest of its row goes to the next ones, which the server loads as another row.
\<close>

theorem load_file_splits_row:
  assumes "memory_ok fa" and "memory_rest fa = x @ [e, c] @ y" and "c \<notin> set x" and "c \<noteq> e"
    and "lines_terminated_by d = [c]" and "fields_terminated_by d \<noteq> [c]" and "fields_escaped_by d = [e]" and "\<not> dialect_eq d dialect_default"
    and "fetches len client" and "len = length x + 1" and "0 < mx" and "mx \<le> len" and "len < 2 ^ 31"
  shows "\<exists>ts. load_file memory_ops client d mx \<lparr>r_range_read = False, r_range = (0, n)\<rparr> fa = Some (Some ((x @ [e, c]) # ts)) \<and> concat ts = y"
proof -
  let ?rd = "local_infile_read memory_ops False"
  have impl: "choose_impl d = Some Impl_escape"
    using assms(5-8) by (simp add: choose_impl_def)
  obtain t where t: "Transaction_buffer_new memory_ops d fa mx 0 = Some (Inr t)" "t_file t = fa" "t_dialect t = d" "t_impl t = Some Impl_escape"
      "t_size t = 0" "t_end t = 0" "\<not> t_partial t" "\<not> t_eof t" "t_data t = []" "t_max t = mx" "\<not> o_fast_sub_chunking (t_options t)"
      "\<not> o_transaction_started (t_options t)" "\<not> o_transaction_finished (t_options t)"
    using assms(1) impl by (simp add: Transaction_buffer_new_def skip_start_def memory_ops_def memory_ok_def)
  obtain t1 t2 where reads: "buffer_read memory_ops len t = Some (Bytes (x @ [e]), t1)" "\<not> flush_pending t1"
      "buffer_read memory_ops len t1 = Some (Bytes [c], t2)" "flush_pending t2" "\<not> t_eof t2" "same_buf t t2" "memory_ok (t_file t2)"
      "unsent memory_rest t2 = y"
    using escaped_reads [OF assms(1-5) t(2-11) assms(10-12)] by blast
  define fi where "fi = \<lparr>fi_range_read = False, fi_bytes_left = 0, fi_data_bytes = 0, fi_buffer = t, fi_last_error = None\<rparr>"
  let ?fi1 = "fi\<lparr>fi_buffer := t1, fi_data_bytes := len\<rparr>" and ?fi2 = "fi\<lparr>fi_buffer := t2, fi_data_bytes := len + 1\<rparr>"
  have "?rd len fi = Some (Bytes (x @ [e]), ?fi1)" "?rd len ?fi1 = Some (Bytes [c], ?fi2)" "?rd len ?fi2 = Some (Bytes [], ?fi2)"
    using reads(1-4) t(6,10) assms(10,11) by (simp_all add: local_infile_read_def fi_def flush_pending_def)
  then have client: "client ?rd fi = Some (Some (x @ [e, c]), ?fi2)"
    using fetches_step [OF assms(9), of ?rd] by simp
  let ?b = "t2\<lparr>t_size := 0, t_end := 0, t_partial := False, t_oversized := 0\<rparr>"
  have flush: "flush_done t2 = (True, ?b)"
    using reads(5,6) t(10,13) assms(11) by (simp add: flush_done_def same_buf_def Let_def)
  have b: "buf_ok memory_rest memory_ok ?b" "unsent memory_rest ?b = y" "length (lines_terminated_by (t_dialect ?b)) = 1" "t_max ?b < 2 ^ 32"
    using reads(5-8) t(3,4,10,11) assms(5,11-13) by (simp_all add: buf_ok_def same_buf_def unsent_def)
  have "\<exists>ts fi'. load_transactions memory_ops client [x @ [e, c]] (?fi2\<lparr>fi_buffer := ?b\<rparr>) = Some (Some ([x @ [e, c]] @ ts), fi') \<and>
      concat ts = unsent memory_rest (fi_buffer (?fi2\<lparr>fi_buffer := ?b\<rparr>)) \<and> (\<forall>as a bs. ts = as @ a # bs \<longrightarrow> True)"
    using b assms(10,13)
    by (intro memory.load_transactions_ok [where ?t0.0 = ?b, OF _ _ _ assms(9) _ _ _ _ _ _ _ memory.keeps_nothing]) (simp_all add: fi_def)
  then obtain ts fi' where ts: "load_transactions memory_ops client [x @ [e, c]] (?fi2\<lparr>fi_buffer := ?b\<rparr>) = Some (Some ((x @ [e, c]) # ts), fi')"
      "concat ts = y"
    using b(2) by auto
  have start: "fi\<lparr>fi_buffer := before_query (fi_buffer fi), fi_data_bytes := 0\<rparr> = fi"
    using t(12) by (simp add: fi_def before_query_def)
  have "load_transactions memory_ops client [] fi = Some (Some ((x @ [e, c]) # ts), fi')"
    using client flush ts(1) by (simp add: load_transactions.simps [of memory_ops client "[]" fi] start)
  then show ?thesis
    using t(1) ts(2) by (auto simp: load_file_def fi_def)
qed

theorem load_file_splits_row_witness:
  "\<exists>fa ts. load_file memory_ops (loop_client 3) dialect_csv_unix 3 \<lparr>r_range_read = False, r_range = (0, 0)\<rparr> fa =
    Some (Some ((''aa'' @ [backslash, newline]) # ts)) \<and> concat ts = ''a'' @ [newline]"
proof -
  obtain fa where fa: "memory_ok fa" "memory_rest fa = ''aa'' @ [backslash, newline] @ ''a'' @ [newline]"
    using stored_open [of "''aa'' @ [backslash, newline] @ ''a'' @ [newline]"] by auto
  then show ?thesis
    using load_file_splits_row [OF fa, of dialect_csv_unix 3 "loop_client 3" 3 0]
    by (intro exI [of _ fa]) (simp add: dialect_csv_unix_def dialect_default_def dialect_eq_def)
qed

end
