(* ===== verification/Spec2Isabelle.thy ===== *)
theory Spec2Isabelle
  imports Strings_Facts Utf8 Glob Object_Names_Facts Thread_Pool_Facts Gtid_Relation Allocator_Facts Natural_Order
    Sql_Script_Values Import_Lines Import_Memory
begin

text \<open>
  A verification of parts of MySQL Shell: the functions on texts, SQL and names of
  \<^verbatim>\<open>mysqlshdk/libs/utils\<close>, the splitting of SQL scripts into statements, the queue and the pool of threads that the
  dump and load utilities run on, versions, GTID sets and the state of replicas derived from them, the memory
  allocator and the files in memory of the storage layer, the import of table data, and the natural order of file names.

  \<^bold>\<open>How the parts interact.\<close> The interactive shell and the utilities read scripts and cut them into statements
  (\<open>Sql_splitter\<close>); they build statements from values (\<open>sqlstring\<close>, \<open>quote_sql_string\<close>, \<open>quote_identifier\<close>), take names
  of accounts and objects apart (\<open>split_account\<close>, \<open>split_schema_and_table\<close>) and filter them (\<open>match_glob\<close>,
  \<open>match_sql_wild\<close>); all of it rests on the scanners of \<^verbatim>\<open>utils_lexing.h\<close> and the functions of
  \<^verbatim>\<open>utils_string.h\<close>. Work is distributed to threads through \<open>Synchronized_queue\<close> and \<open>Thread_pool\<close>. The AdminAPI
  compares the GTID sets of servers, with the help of a server, to decide whether a replica can join. The import of a table
  cuts a file at the starts of rows (\<open>Scanner\<close>) and sends it in transactions (\<open>Transaction_buffer\<close>); a copy between servers keeps
  the file in blocks of memory (\<open>Allocated_file\<close>, \<open>Allocator\<close>).

  \<^bold>\<open>The theories.\<close>
  \<^item> \<open>Shell_Prelude\<close>: exceptions as values (\<open>exn\<close>, \<open>res\<close>), characters and their classes, the searching members of
    \<^verbatim>\<open>std::string\<close> with \<^verbatim>\<open>npos\<close> as \<^const>\<open>None\<close>, numbers in decimal, and the contract \<open>codec\<close> of an encoder and its
    decoder, which the quoting functions are shown to meet.
  \<^item> \<open>Strings\<close>, \<open>Strings_Facts\<close> (\<^verbatim>\<open>utils_string.{h,cc}\<close>): comparing, stripping, splitting, joining, replacing, quoting,
    percent-encoding, bit strings and line breaking. Each index loop is shown equal to a recursion on the text, and
    the pairs of functions are shown to be inverse to each other.
  \<^item> \<open>Utf8\<close> (\<^verbatim>\<open>utils_string.cc\<close>): \<open>is_valid_utf8\<close> accepts exactly the encodings of Unicode scalar values.
  \<^item> \<open>Glob\<close> (\<^verbatim>\<open>utils_general.cc\<close>): the iterative matcher decides the glob relation.
  \<^item> \<open>Lexing\<close>, \<open>Lexing_Facts\<close>, \<open>Sql_Iterator\<close> (\<^verbatim>\<open>utils_lexing.{h,cc}\<close>): the scanners with their tables, and the
    iterator over the visible text of a statement; where the scanners stop, and the contract \<open>literal\<close> of a quoting function
    and its scanner.
  \<^item> \<open>Sql_String\<close>, \<open>Sql_String_Facts\<close> (\<^verbatim>\<open>utils_sqlstring.{h,cc}\<close>): escaping, quoting, reserved words, wildcards and
    formatted queries; quoted values are invisible to the iterator, and \<open>sqlformat\<close> substitutes each placeholder once.
  \<^item> \<open>Object_Names\<close>, \<open>Object_Names_Facts\<close> (\<^verbatim>\<open>utils_general.cc\<close>): account names and qualified names, and their round trips.
  \<^item> \<open>Sql_Splitter\<close> (\<^verbatim>\<open>utils_mysql_parsing.{h,cc}\<close>): the buffer, the stack of contexts, commands and delimiters, one
    definition per case of the switch of \<open>next_range\<close>, its two loops, and the loop over the chunks of a stream.
    \<open>Sql_Script\<close> is a reference lexer without lines, chunks and buffers; \<open>Sql_Script_Spans\<close> and \<open>Sql_Script_Sim\<close> show that the
    scanners and the loops follow it, \<open>Sql_Script_Prefix\<close> that what it finds in the first part of a script holds for
    the script, \<open>Sql_Script_Facts\<close> that the splitter returns and gives the statements of the reference for every chunk
    size, and \<open>Sql_Script_Values\<close> that quoted values never end a statement.
  \<^item> \<open>Sync_Queue\<close> (\<^verbatim>\<open>synchronized_queue.h\<close>): the queue with priorities refines a list of jobs; the contract
    \<open>prio_lanes\<close> is what its client relies on.
  \<^item> \<open>Thread_Pool\<close>, \<open>Thread_Pool_Inv\<close>, \<open>Thread_Pool_Facts\<close> (\<^verbatim>\<open>thread_pool.{h,cc}\<close>): the threads as step functions that
    are interleaved in every order. Each task is processed once when the pool is done, \<open>process\<close> does not return normally while a worker
    holds an exception (of several, one is thrown), and the pool comes to an end.
  \<^item> \<open>Shell_Version\<close> (\<^verbatim>\<open>version.{h,cc}\<close>): parsing, printing, comparing, and the versions that correspond to a version, with
    sums that do not fit in an \<^verbatim>\<open>int\<close> as failures.
  \<^item> \<open>Gtid\<close>, \<open>Gtid_Facts\<close>, \<open>Gtid_Relation\<close> (\<^verbatim>\<open>mysql/gtid_utils.{h,cc}\<close> and parts of \<^verbatim>\<open>mysql/replication.cc\<close>): GTID sets as
    texts, with \<open>GTID_SUBTRACT\<close> of the server as a parameter that is assumed to compute the difference of two sets (an idealisation:
    a server also changes the case of UUIDs and refuses malformed texts); the relations of two sets and the state of a joining replica.
  \<^item> \<open>Allocator\<close>, \<open>Allocator_Facts\<close> (\<^verbatim>\<open>storage/backend/in_memory/allocator.{h,cc}\<close>): pages and blocks, and the
    invariant that ties them to the blocks the clients hold, over all runs of allocations, failed allocations and releases.
  \<^item> \<open>Allocated_File\<close>, \<open>Allocated_File_Facts\<close>, \<open>Allocated_File_Ops\<close> (\<^verbatim>\<open>in_memory/allocated_file.{h,cc}\<close>): files in blocks of the
    allocator; the invariant of a file and its blocks, what reads and writes do to its bytes, and the release of its memory.
  \<^item> \<open>Import_Dialect\<close>, \<open>Import_Scanner\<close> (\<^verbatim>\<open>import_table/dialect.{h,cc}\<close>, \<^verbatim>\<open>scanner.{h,cc}\<close>): the formats of files, and the scanner that
    finds the first row of each block. \<open>Import_Rows\<close> is a reference without blocks; \<open>Import_Scanner_Facts\<close>, \<open>Import_Scanner_Correct\<close>
    and \<open>Import_Lines\<close> show that the scanner finds its rows however the file is cut.
  \<^item> \<open>Import_Transactions\<close> (\<^verbatim>\<open>import_table/load_data.{h,cc}\<close>): the buffer that cuts the data into transactions, the callback that
    reads with its assertion, and the loop of a worker over the transactions of a file or the range of a chunk. The client library is a
    parameter; \<open>Import_Transactions_Facts\<close> names what is documented of it (\<open>fetches\<close>: it calls the callback until it gets no byte), and
    proves for every file that meets the contract \<open>reader\<close> and one-character line ends that all bytes are sent once and in order,
    \<open>Import_Transactions_Rows\<close> where the transactions end. \<open>Import_Memory\<close> shows that the files in memory, through
    \<^verbatim>\<open>virtual_file.cc\<close>, meet the contract, and states the properties of whole files and of chunks. Sizes of buffers and transactions are
    bounded by the \<^verbatim>\<open>int\<close> and \<^verbatim>\<open>unsigned int\<close> of the callback.
  \<^item> \<open>Natural_Order\<close> (\<^verbatim>\<open>natural_compare.h\<close>): the comparison is a strict total order and compares numbers without leading
    zeros by value; what it does with leading zeros, and with a number at the end of a text, is stated separately.

  \<^bold>\<open>Conventions.\<close> A \<^verbatim>\<open>std::string\<close> or \<^verbatim>\<open>std::string_view\<close> is a list of characters, an iterator or a pointer an offset or the
  rest of the text. A C++ exception is a value of \<open>exn\<close>, and a function that can throw returns a \<open>res\<close>. A member
  function takes the object and returns the changed object; a callback takes and returns the state of its client. A
  \<^verbatim>\<open>size_t\<close> is a natural number where it cannot overflow, and a subtraction that can wrap around is written out; a
  \<^verbatim>\<open>uint64_t\<close> that is computed with is a \<open>64 word\<close>.

  \<^bold>\<open>Loops.\<close> Loops that always end are total functions with a measure. The loops of \<open>next_range\<close>,
  \<open>iterate_sql_stream\<close> and \<open>enumerate\<close>, of the transactions and of the files in memory can run forever; they are partial functions with \<^const>\<open>None\<close> for not returning,
  and that they return is part of the theorems about them. No fuel is used. A pool of threads is run by
  schedules of any length; a bound on the number of steps after the end of the input is proved.

  \<^bold>\<open>Not modelled.\<close> Everything that talks to servers, storage services, terminals, the operating system or the script
  engines: sessions, object storage, SSH tunnels, secret stores, consoles, logging, the scripting bridge and the
  AdminAPI and DevAPI on top of them; code generated from grammars; and third-party libraries. Their behaviour is
  outside of the sources, and what the modelled parts need of it is a parameter. Of the modelled files, formatting with
  \<^verbatim>\<open>printf\<close>, conversions of wide characters and functions that only wrap the operating system are left out. Connection
  URIs, filters of the dump utilities and the X DevAPI expression parser are pure code that is not covered.
\<close>

end
